(* ===== verification/Prelude.thy ===== *)
theory Prelude
  imports Main "HOL-Library.Sublist" "HOL-Library.Char_ord" "HOL-Library.List_Lexorder"
begin

text \<open>
  Byte strings and what the components share about them. A Go string or byte slice is a
  sequence of 8-bit bytes, so it is a list of HOL's 8-bit characters: a literal of the source
  is written as it stands there, and bytes from 128 on are the characters \<open>char_of n\<close>. A
  slice expression \<open>b[i:j]\<close> is \<open>slice b i j\<close>; the code's bounds are guards of the
  definitions that index.

  The collections: \<open>scan_bounds\<close> holds the facts that a scanner stays inside its input and
  moves forward, which every termination proof of a reader uses; \<open>byte_defs\<close> the
  definitions to unfold on a concrete byte.
\<close>

named_theorems scan_bounds "facts that a scanner moves forward and stays inside its input"
named_theorems byte_defs "definitions of byte classes, to unfold on a concrete byte"

type_synonym bytes = string

section \<open>Bytes\<close>

definition bval :: "char \<Rightarrow> nat" where
  "bval c = of_char c"

lemma bval_less_256 [simp]: "bval c < 256"
  by (simp add: bval_def)

lemma char_of_bval [simp]: "char_of (bval c) = c"
  by (simp add: bval_def)

lemma bval_char_of: "n < 256 \<Longrightarrow> bval (char_of n) = n"
  by (simp add: bval_def)

lemma bval_inject [simp]: "bval c = bval d \<longleftrightarrow> c = d"
  by (metis char_of_bval)

lemma bval_eq_iff: "n < 256 \<Longrightarrow> bval c = n \<longleftrightarrow> c = char_of n"
  by (metis bval_char_of char_of_bval)

section \<open>Slices\<close>

definition slice :: "'a list \<Rightarrow> nat \<Rightarrow> nat \<Rightarrow> 'a list" where
  "slice b i j = take (j - i) (drop i b)"

lemma length_slice [simp]: "length (slice b i j) = min (length b) j - i"
  by (auto simp: slice_def min_def)

lemma slice_all [simp]: "slice b 0 (length b) = b"
  by (simp add: slice_def)

lemma slice_empty [simp]: "j \<le> i \<Longrightarrow> slice b i j = []"
  by (simp add: slice_def)

lemma slice_append_mid: "slice (a @ m @ z) (length a) (length a + length m) = m"
  by (simp add: slice_def)

lemma slice_Cons_step: "i < j \<Longrightarrow> i < length b \<Longrightarrow> slice b i j = b ! i # slice b (Suc i) j"
  by (simp add: slice_def Cons_nth_drop_Suc [symmetric] take_Cons' Suc_diff_Suc)

lemma slice_append: "i \<le> j \<Longrightarrow> j \<le> k \<Longrightarrow> slice b i j @ slice b j k = slice b i k"
proof -
  assume "i \<le> j" and "j \<le> k"
  then have "take (k - i) (drop i b) = take (j - i) (drop i b) @ take (k - j) (drop j b)"
    using take_add [of "j - i" "k - j" "drop i b"] by (simp add: add.commute)
  then show ?thesis by (simp add: slice_def)
qed

lemma take_slice_drop: "i \<le> j \<Longrightarrow> take i b @ slice b i j @ drop j b = b"
proof -
  assume "i \<le> j"
  then have "slice b i j @ drop j b = drop i b"
    by (metis slice_def append_take_drop_id drop_drop le_add_diff_inverse2)
  then show ?thesis by simp
qed

lemma slice_take: "j \<le> n \<Longrightarrow> slice (take n b) i j = slice b i j"
  by (simp add: slice_def drop_take)

lemma nth_slice: "k < min (length b) j - i \<Longrightarrow> slice b i j ! k = b ! (i + k)"
  by (simp add: slice_def)

lemma slice_drop: "slice (drop k b) i j = slice b (k + i) (k + j)"
  by (simp add: slice_def add.commute)

lemma in_set_dropI: "x \<in> set xs \<Longrightarrow> x \<notin> set (take n xs) \<Longrightarrow> x \<in> set (drop n xs)"
  by (metis Un_iff append_take_drop_id set_append)

lemma set_drop_distinct:
  assumes "distinct xs"
  shows "set (drop n xs) = set xs - set (take n xs)"
proof -
  have "distinct (take n xs @ drop n xs)" using assms by simp
  then have "set (take n xs) \<inter> set (drop n xs) = {}" by (simp only: distinct_append)
  moreover have "set xs = set (take n xs) \<union> set (drop n xs)" by (metis append_take_drop_id set_append)
  ultimately show ?thesis by blast
qed

section \<open>Offsets\<close>

lemma map_option_offset [simp]: "map_option ((+) (Suc n)) x = map_option (\<lambda>a. Suc (n + a)) x"
  by (cases x) simp_all

lemma map_option_zero [simp]: "map_option ((+) (0::nat)) x = x"
  by (cases x) simp_all

section \<open>Searching bytes\<close>

text \<open>\<open>bytes.IndexByte\<close>, \<open>None\<close> for -1.\<close>

fun index_byte :: "bytes \<Rightarrow> char \<Rightarrow> nat option" where
  "index_byte [] c = None"
| "index_byte (x # xs) c = (if x = c then Some 0 else map_option Suc (index_byte xs c))"

lemma index_byte_Some:
  "index_byte xs c = Some k \<Longrightarrow> k < length xs \<and> xs ! k = c \<and> c \<notin> set (take k xs)"
proof (induction xs arbitrary: k)
  case (Cons x xs)
  then show ?case by (cases k) (auto split: if_splits)
qed simp

lemma index_byte_None: "index_byte xs c = None \<longleftrightarrow> c \<notin> set xs"
  by (induction xs) auto

lemma index_byte_append:
  "c \<notin> set xs \<Longrightarrow> index_byte (xs @ ys) c = map_option ((+) (length xs)) (index_byte ys c)"
  by (induction xs) (auto simp: option.map_comp comp_def map_option_case split: option.splits)

text \<open>\<open>bytes.Contains\<close>.\<close>

fun contains :: "bytes \<Rightarrow> bytes \<Rightarrow> bool" where
  "contains [] p = (p = [])"
| "contains (c # cs) p = (prefix p (c # cs) \<or> contains cs p)"

lemma contains_iff: "contains s p \<longleftrightarrow> (\<exists>a z. s = a @ p @ z)"
proof (induction s)
  case IH: (Cons c cs)
  show ?case
  proof
    assume "contains (c # cs) p"
    then consider z where "c # cs = [] @ p @ z" | a z where "c # cs = (c # a) @ p @ z"
      using IH.IH by (auto simp: prefix_def)
    then show "\<exists>a z. c # cs = a @ p @ z" by cases blast+
  next
    assume "\<exists>a z. c # cs = a @ p @ z"
    then obtain a z where eq: "c # cs = a @ p @ z" by blast
    show "contains (c # cs) p"
    proof (cases a)
      case Nil
      with eq have "prefix p (c # cs)" by (simp add: prefix_def)
      then show ?thesis by simp
    next
      case (Cons x a')
      with eq have "cs = a' @ p @ z" by simp
      then show ?thesis using IH.IH by auto
    qed
  qed
qed simp

lemma contains_append_mid [simp, intro]: "contains (a @ p @ z) p"
  by (auto simp: contains_iff)

section \<open>Maps\<close>

text \<open>A Go map given by its members, the last of duplicate keys.\<close>

definition last_of :: "('k \<times> 'v) list \<Rightarrow> 'k \<Rightarrow> 'v option" where
  "last_of kvs k = map_of (rev kvs) k"

lemma last_of_Nil [simp]: "last_of [] = Map.empty"
  by (simp add: last_of_def fun_eq_iff)

lemma last_of_snoc: "last_of (kvs @ [(k, v)]) = (last_of kvs)(k \<mapsto> v)"
  by (simp add: last_of_def fun_eq_iff)

lemma last_of_distinct:
  assumes "distinct (map fst kvs)"
  shows "last_of kvs = map_of kvs"
proof
  fix k
  have "\<And>v. map_of (rev kvs) k = Some v \<longleftrightarrow> map_of kvs k = Some v"
    using assms by (simp add: rev_map [symmetric])
  then show "last_of kvs k = map_of kvs k"
    by (metis last_of_def not_Some_eq)
qed

lemma find_member: "find P xs = Some x \<Longrightarrow> x \<in> set xs \<and> P x"
  by (induction xs) (auto split: if_splits)

end
