(* ===== verification/Utf8.thy ===== *)
theory Utf8
  imports Prelude
begin

text \<open>
  Go's \<open>unicode/utf8\<close> and the part of \<open>unicode\<close> and \<open>bytes\<close> that the components use on
  top of it: \<open>DecodeRune\<close>, \<open>EncodeRune\<close>, \<open>Valid\<close>, \<open>RuneCount\<close>, \<open>DecodeLastRune\<close>,
  \<open>unicode.IsSpace\<close> and \<open>bytes.TrimSpace\<close>. A rune is its code point, a \<open>nat\<close>. A byte
  that starts no well-formed encoding decodes to \<open>(rune_error, 1)\<close>, as in Go.

  The induction rules \<open>utf8_induct\<close> (any bytes: a well-formed rune or one bad byte at a time)
  and \<open>utf8_valid_induct\<close> (valid text: a rune at a time) carry the proofs about writers and
  readers of JSON strings.
\<close>

section \<open>Decoding and encoding one rune\<close>

definition rune_error :: nat where
  "rune_error = 65533"

definition cont_byte :: "char \<Rightarrow> bool" where
  "cont_byte c \<longleftrightarrow> 128 \<le> bval c \<and> bval c < 192"

definition second_lo :: "nat \<Rightarrow> nat" where
  "second_lo b0 = (if b0 = 224 then 160 else if b0 = 240 then 144 else 128)"

definition second_hi :: "nat \<Rightarrow> nat" where
  "second_hi b0 = (if b0 = 237 then 159 else if b0 = 244 then 143 else 191)"

definition second_ok :: "char \<Rightarrow> char \<Rightarrow> bool" where
  "second_ok c0 c1 \<longleftrightarrow> second_lo (bval c0) \<le> bval c1 \<and> bval c1 \<le> second_hi (bval c0)"

fun decode_rune :: "bytes \<Rightarrow> nat \<times> nat" where
  "decode_rune [] = (rune_error, 0)"
| "decode_rune (c0 # cs) =
     (if bval c0 < 128 then (bval c0, 1)
      else if 194 \<le> bval c0 \<and> bval c0 \<le> 223 then
        (case cs of
           c1 # _ \<Rightarrow> if second_ok c0 c1 then ((bval c0 - 192) * 64 + (bval c1 - 128), 2)
                   else (rune_error, 1)
         | _ \<Rightarrow> (rune_error, 1))
      else if 224 \<le> bval c0 \<and> bval c0 \<le> 239 then
        (case cs of
           c1 # c2 # _ \<Rightarrow> if second_ok c0 c1 \<and> cont_byte c2
             then ((bval c0 - 224) * 4096 + (bval c1 - 128) * 64 + (bval c2 - 128), 3)
             else (rune_error, 1)
         | _ \<Rightarrow> (rune_error, 1))
      else if 240 \<le> bval c0 \<and> bval c0 \<le> 244 then
        (case cs of
           c1 # c2 # c3 # _ \<Rightarrow> if second_ok c0 c1 \<and> cont_byte c2 \<and> cont_byte c3
             then ((bval c0 - 240) * 262144 + (bval c1 - 128) * 4096 + (bval c2 - 128) * 64
                   + (bval c3 - 128), 4)
             else (rune_error, 1)
         | _ \<Rightarrow> (rune_error, 1))
      else (rune_error, 1))"

definition valid_rune :: "nat \<Rightarrow> bool" where
  "valid_rune r \<longleftrightarrow> r < 55296 \<or> (57344 \<le> r \<and> r \<le> 1114111)"

definition encode_rune :: "nat \<Rightarrow> bytes" where
  "encode_rune r0 =
     (let r = (if valid_rune r0 then r0 else rune_error) in
      if r < 128 then [char_of r]
      else if r < 2048 then [char_of (192 + r div 64), char_of (128 + r mod 64)]
      else if r < 65536 then
        [char_of (224 + r div 4096), char_of (128 + r div 64 mod 64), char_of (128 + r mod 64)]
      else
        [char_of (240 + r div 262144), char_of (128 + r div 4096 mod 64),
         char_of (128 + r div 64 mod 64), char_of (128 + r mod 64)])"

lemma valid_rune_error [simp]: "valid_rune rune_error"
  by (simp add: valid_rune_def rune_error_def)

text \<open>The first rune of \<open>s\<close> is not well-formed (Go tests \<open>r == RuneError && size == 1\<close>).\<close>

definition bad_rune :: "bytes \<Rightarrow> bool" where
  "bad_rune s \<longleftrightarrow> decode_rune s = (rune_error, 1)"

lemma decode_rune_size:
  "s \<noteq> [] \<Longrightarrow> 1 \<le> snd (decode_rune s) \<and> snd (decode_rune s) \<le> length s \<and> snd (decode_rune s) \<le> 4"
  by (cases s) (auto split: list.splits)

lemma decode_rune_shrinks [simp]: "s \<noteq> [] \<Longrightarrow> length s - snd (decode_rune s) < length s"
  using decode_rune_size [of s] by (cases s) auto

lemma encode_rune_not_Nil [simp]: "encode_rune r \<noteq> []"
  by (simp add: encode_rune_def Let_def)

lemma length_encode_rune: "0 < length (encode_rune r) \<and> length (encode_rune r) \<le> 4"
  by (simp add: encode_rune_def Let_def)

lemma encode_rune_ascii: "r < 128 \<Longrightarrow> encode_rune r = [char_of r]"
  by (simp add: encode_rune_def valid_rune_def Let_def)

lemma encode_rune_bval: "bval c < 128 \<Longrightarrow> encode_rune (bval c) = [c]"
  by (simp add: encode_rune_ascii)

lemma decode_rune_ascii: "bval c < 128 \<Longrightarrow> decode_rune (c # s) = (bval c, 1)"
  by simp

lemma digit64: "z < 64 \<Longrightarrow> (a * 64 + z) div 64 = a \<and> (a * 64 + z) mod 64 = (z::nat)"
  by simp

lemma digits64: "r div 4096 * 4096 + r div 64 mod 64 * 64 + r mod 64 = (r::nat)"
proof -
  have "r div 64 = r div 4096 * 64 + r div 64 mod 64"
    using div_mult_mod_eq [of "r div 64" 64] by (simp flip: div_mult2_eq)
  moreover have "r = r div 64 * 64 + r mod 64" by simp
  ultimately show ?thesis by linarith
qed

lemma digits64_4:
  "r div 262144 * 262144 + r div 4096 mod 64 * 4096 + r div 64 mod 64 * 64 + r mod 64 = (r::nat)"
proof -
  have "r div 4096 = r div 262144 * 64 + r div 4096 mod 64"
    using div_mult_mod_eq [of "r div 4096" 64] by (simp flip: div_mult2_eq)
  with digits64 [of r] show ?thesis by linarith
qed

lemma undigits64:
  assumes "y < 64" and "z < (64::nat)"
  shows "(x * 4096 + y * 64 + z) div 4096 = x" and "(x * 4096 + y * 64 + z) div 64 mod 64 = y"
    and "(x * 4096 + y * 64 + z) mod 64 = z" and "(x * 4096 + y * 64 + z) div 64 = x * 64 + y"
proof -
  have e: "x * 4096 + y * 64 + z = (x * 64 + y) * 64 + z" by simp
  show d: "(x * 4096 + y * 64 + z) div 64 = x * 64 + y"
    unfolding e using digit64 [OF assms(2)] by blast
  show "(x * 4096 + y * 64 + z) mod 64 = z"
    unfolding e using digit64 [OF assms(2)] by blast
  show "(x * 4096 + y * 64 + z) div 64 mod 64 = y"
    unfolding d using digit64 [OF assms(1)] by blast
  have "(x * 4096 + y * 64 + z) div 4096 = (x * 4096 + y * 64 + z) div 64 div 64"
    by (simp flip: div_mult2_eq)
  also have "\<dots> = x" unfolding d using digit64 [OF assms(1)] by blast
  finally show "(x * 4096 + y * 64 + z) div 4096 = x" .
qed

lemma undigits64_4:
  assumes "y < 64" and "z < 64" and "w < (64::nat)"
  shows "(x * 262144 + y * 4096 + z * 64 + w) div 262144 = x"
    and "(x * 262144 + y * 4096 + z * 64 + w) div 4096 mod 64 = y"
    and "(x * 262144 + y * 4096 + z * 64 + w) div 64 mod 64 = z"
    and "(x * 262144 + y * 4096 + z * 64 + w) mod 64 = w"
proof -
  have e: "x * 262144 + y * 4096 + z * 64 + w = (x * 64 + y) * 4096 + z * 64 + w" by simp
  have d: "(x * 262144 + y * 4096 + z * 64 + w) div 4096 = x * 64 + y"
    unfolding e by (rule undigits64 [OF assms(2,3)])
  show "(x * 262144 + y * 4096 + z * 64 + w) mod 64 = w"
    and "(x * 262144 + y * 4096 + z * 64 + w) div 64 mod 64 = z"
    unfolding e by (rule undigits64 [OF assms(2,3)])+
  show "(x * 262144 + y * 4096 + z * 64 + w) div 4096 mod 64 = y"
    unfolding d using digit64 [OF assms(1)] by blast
  have "(x * 262144 + y * 4096 + z * 64 + w) div 262144
      = (x * 262144 + y * 4096 + z * 64 + w) div 4096 div 64"
    by (simp flip: div_mult2_eq)
  also have "\<dots> = x" unfolding d using digit64 [OF assms(1)] by blast
  finally show "(x * 262144 + y * 4096 + z * 64 + w) div 262144 = x" .
qed

lemma decode_encode:
  assumes "valid_rune r"
  shows "decode_rune (encode_rune r @ s) = (r, length (encode_rune r))"
proof -
  consider "r < 128" | "128 \<le> r" "r < 2048" | "2048 \<le> r" "r < 65536" | "65536 \<le> r"
    by linarith
  then show ?thesis
  proof cases
    case 1
    then show ?thesis by (simp add: encode_rune_ascii bval_char_of)
  next
    case 2
    then have "r div 64 < 32" and "2 \<le> r div 64" by auto
    moreover have "r mod 64 < 64" by simp
    ultimately show ?thesis using 2 assms
      by (simp add: encode_rune_def Let_def bval_char_of second_ok_def second_lo_def second_hi_def)
  next
    case 3
    define x y z where "x = r div 4096" and "y = r div 64 mod 64" and "z = r mod 64"
    have r: "r = x * 4096 + y * 64 + z" and b: "y < 64" "z < 64"
      using digits64 [of r] by (simp_all add: x_def y_def z_def)
    then have "x < 16" and "x = 0 \<Longrightarrow> 32 \<le> y" and "x = 13 \<Longrightarrow> y \<le> 31"
      using 3 assms unfolding valid_rune_def by linarith+
    then show ?thesis using 3 assms b
      by (simp add: encode_rune_def Let_def bval_char_of second_ok_def second_lo_def second_hi_def
          cont_byte_def flip: x_def y_def z_def r)
  next
    case 4
    define x y z w where "x = r div 262144" and "y = r div 4096 mod 64"
      and "z = r div 64 mod 64" and "w = r mod 64"
    have r: "r = x * 262144 + y * 4096 + z * 64 + w" and b: "y < 64" "z < 64" "w < 64"
      using digits64_4 [of r] by (simp_all add: x_def y_def z_def w_def)
    then have "x < 5" and "x = 0 \<Longrightarrow> 16 \<le> y" and "x = 4 \<Longrightarrow> y \<le> 15"
      using 4 assms unfolding valid_rune_def by linarith+
    then show ?thesis using 4 assms b
      by (simp add: encode_rune_def Let_def bval_char_of second_ok_def second_lo_def second_hi_def
          cont_byte_def flip: x_def y_def z_def w_def r)
  qed
qed

lemma decode_ok:
  assumes "s \<noteq> []" and "\<not> bad_rune s"
  shows "\<exists>r s'. valid_rune r \<and> s = encode_rune r @ s' \<and> decode_rune s = (r, length (encode_rune r))"
proof -
  obtain c0 cs where s: "s = c0 # cs" using assms(1) by (cases s) auto
  consider "bval c0 < 128" | "128 \<le> bval c0" "bval c0 \<le> 223" | "224 \<le> bval c0" "bval c0 \<le> 239"
    | "240 \<le> bval c0" by linarith
  then show ?thesis
  proof cases
    case 1
    then have "s = encode_rune (bval c0) @ cs" using s by (simp add: encode_rune_ascii)
    with 1 s show ?thesis
      by (intro exI [of _ "bval c0"] exI [of _ cs]) (simp add: valid_rune_def encode_rune_ascii)
  next
    case 2
    with assms s obtain c1 cs' where *: "194 \<le> bval c0" "cs = c1 # cs'" "second_ok c0 c1"
      by (auto simp: bad_rune_def split: list.splits if_splits)
    define x y where "x = bval c0 - 192" and "y = bval c1 - 128"
    have b: "bval c0 = 192 + x" "bval c1 = 128 + y" "2 \<le> x" "x < 32" "y < 64"
      using * 2 by (auto simp: x_def y_def second_ok_def second_lo_def second_hi_def)
    let ?r = "x * 64 + y"
    have valid: "valid_rune ?r" using b by (simp add: valid_rune_def)
    have enc: "encode_rune ?r = [c0, c1]"
    proof -
      have "?r div 64 = x" "?r mod 64 = y" using b by simp_all
      moreover have "128 \<le> ?r" "?r < 2048" using b by simp_all
      ultimately show ?thesis using valid
        by (simp add: encode_rune_def Let_def flip: b(1,2))
    qed
    have "s = encode_rune ?r @ cs'" using enc s * by simp
    then show ?thesis using valid decode_encode [of ?r cs'] by blast
  next
    case 3
    with assms s obtain c1 c2 cs' where *: "cs = c1 # c2 # cs'" "second_ok c0 c1" "cont_byte c2"
      by (auto simp: bad_rune_def split: list.splits if_splits)
    define x y z where "x = bval c0 - 224" and "y = bval c1 - 128" and "z = bval c2 - 128"
    have b: "bval c0 = 224 + x" "bval c1 = 128 + y" "bval c2 = 128 + z" "x < 16" "y < 64" "z < 64"
        "x = 0 \<Longrightarrow> 32 \<le> y" "x = 13 \<Longrightarrow> y < 32"
      using * 3 by (auto simp: x_def y_def z_def second_ok_def second_lo_def second_hi_def
          cont_byte_def split: if_splits)
    let ?r = "x * 4096 + y * 64 + z"
    have valid: "valid_rune ?r" using b by (cases "x < 13"; cases "x = 13") (auto simp: valid_rune_def)
    have enc: "encode_rune ?r = [c0, c1, c2]"
    proof -
      have "?r div 4096 = x" "?r div 64 mod 64 = y" "?r mod 64 = z" by (rule undigits64 [OF b(5,6)])+
      moreover have "2048 \<le> ?r" "?r < 65536" using b by (cases "x = 0"; simp)+
      ultimately show ?thesis using valid
        by (simp add: encode_rune_def Let_def flip: b(1,2,3))
    qed
    have "s = encode_rune ?r @ cs'" using enc s * by simp
    then show ?thesis using valid decode_encode [of ?r cs'] by blast
  next
    case 4
    with assms s obtain c1 c2 c3 cs' where *: "bval c0 \<le> 244" "cs = c1 # c2 # c3 # cs'"
        "second_ok c0 c1" "cont_byte c2" "cont_byte c3"
      by (auto simp: bad_rune_def split: list.splits if_splits)
    define x y z w where "x = bval c0 - 240" and "y = bval c1 - 128" and "z = bval c2 - 128"
      and "w = bval c3 - 128"
    have b: "bval c0 = 240 + x" "bval c1 = 128 + y" "bval c2 = 128 + z" "bval c3 = 128 + w"
        "x < 5" "y < 64" "z < 64" "w < 64" "x = 0 \<Longrightarrow> 16 \<le> y" "x = 4 \<Longrightarrow> y < 16"
      using * 4 by (auto simp: x_def y_def z_def w_def second_ok_def second_lo_def second_hi_def
          cont_byte_def split: if_splits)
    define r where "r = x * 262144 + y * 4096 + z * 64 + w"
    have lo: "65536 \<le> r" unfolding r_def using b by (cases "x = 0"; simp)
    have "r \<le> 1114111" unfolding r_def using b by (cases "x = 4"; simp)
    with lo have valid: "valid_rune r" unfolding valid_rune_def by linarith
    have enc: "encode_rune r = [c0, c1, c2, c3]"
    proof -
      have d: "r div 262144 = x" "r div 4096 mod 64 = y" "r div 64 mod 64 = z" "r mod 64 = w"
        unfolding r_def by (rule undigits64_4 [OF b(6,7,8)])+
      have "encode_rune r = [char_of (240 + r div 262144), char_of (128 + r div 4096 mod 64),
          char_of (128 + r div 64 mod 64), char_of (128 + r mod 64)]"
        using valid lo by (simp add: encode_rune_def)
      also have "\<dots> = [c0, c1, c2, c3]"
        unfolding d by (simp only: b(1,2,3,4) [symmetric] char_of_bval)
      finally show ?thesis .
    qed
    have "s = encode_rune r @ cs'" using enc s * by simp
    then show ?thesis using valid decode_encode [of r cs'] by blast
  qed
qed


lemma bad_rune_Cons: "bad_rune (c # s) \<Longrightarrow> 128 \<le> bval c"
  by (auto simp: bad_rune_def rune_error_def split: if_splits)

lemma bad_rune_ascii [simp]: "bval c < 128 \<Longrightarrow> \<not> bad_rune (c # s)"
  using bad_rune_Cons by fastforce

lemma bad_rune_Nil [simp]: "\<not> bad_rune []"
  by (simp add: bad_rune_def)

lemma not_bad_encode [simp]: "valid_rune r \<Longrightarrow> \<not> bad_rune (encode_rune r @ s)"
proof -
  assume v: "valid_rune r"
  have "length (encode_rune rune_error) = 3"
    by (simp add: encode_rune_def rune_error_def valid_rune_def Let_def)
  with v show ?thesis by (auto simp: bad_rune_def decode_encode)
qed

section \<open>Valid text\<close>

function utf8_valid :: "bytes \<Rightarrow> bool" where
  "utf8_valid s =
     (if s = [] then True
      else if bad_rune s then False
      else utf8_valid (drop (snd (decode_rune s)) s))"
  by pat_completeness auto
termination
  by (relation "measure length") (simp_all add: decode_rune_shrinks)

declare utf8_valid.simps [simp del]

lemma utf8_valid_Nil [simp]: "utf8_valid []"
  by (simp add: utf8_valid.simps)

lemma utf8_valid_encode [simp]:
  "valid_rune r \<Longrightarrow> utf8_valid (encode_rune r @ s) \<longleftrightarrow> utf8_valid s"
  by (subst utf8_valid.simps) (simp add: decode_encode)

lemma utf8_valid_ascii [simp]: "bval c < 128 \<Longrightarrow> utf8_valid (c # s) \<longleftrightarrow> utf8_valid s"
  by (subst utf8_valid.simps) simp

lemma utf8_valid_bad: "bad_rune s \<Longrightarrow> \<not> utf8_valid s"
  by (cases s) (simp_all add: utf8_valid.simps)

text \<open>Any bytes, a rune or one bad byte at a time.\<close>

lemma utf8_induct [case_names Nil Rune Bad]:
  assumes "P []"
    and "\<And>r s. valid_rune r \<Longrightarrow> P s \<Longrightarrow> P (encode_rune r @ s)"
    and "\<And>c s. bad_rune (c # s) \<Longrightarrow> P s \<Longrightarrow> P (c # s)"
  shows "P s"
proof (induction s rule: length_induct)
  case (1 s)
  consider "s = []" | c s' where "s = c # s'" "bad_rune s" | "s \<noteq> []" "\<not> bad_rune s"
    by (cases s) auto
  then show ?case
  proof cases
    case 3
    then obtain r s' where "valid_rune r" and s: "s = encode_rune r @ s'"
      using decode_ok by blast
    moreover have "length s' < length s" using s length_encode_rune by simp
    ultimately show ?thesis using assms(2) "1" by simp
  qed (use assms "1" in auto)
qed

lemma utf8_valid_induct [consumes 1, case_names Nil Rune]:
  assumes "utf8_valid s"
    and "P []"
    and "\<And>r s. valid_rune r \<Longrightarrow> utf8_valid s \<Longrightarrow> P s \<Longrightarrow> P (encode_rune r @ s)"
  shows "P s"
  using assms(1)
proof (induction s rule: utf8_induct)
  case (Bad c s)
  then show ?case using utf8_valid_bad by blast
qed (use assms in auto)

lemma utf8_valid_append: "utf8_valid s \<Longrightarrow> utf8_valid (s @ t) \<longleftrightarrow> utf8_valid t"
  by (induction s rule: utf8_valid_induct) auto

lemma encode_rune_valid: "utf8_valid (encode_rune r)"
proof (cases "valid_rune r")
  case True
  then show ?thesis using utf8_valid_encode [of r "[]"] by simp
next
  case False
  then have "encode_rune r = encode_rune rune_error"
    by (simp add: encode_rune_def valid_rune_error)
  then show ?thesis using utf8_valid_encode [of rune_error "[]"] valid_rune_error by simp
qed

lemma encode_rune_high: "128 \<le> r \<Longrightarrow> c \<in> set (encode_rune r) \<Longrightarrow> 128 \<le> bval c"
  by (auto simp: encode_rune_def Let_def valid_rune_def rune_error_def bval_char_of split: if_splits)

text \<open>
  What \<open>encoding/json\<close> does to text that is not valid: every bad byte becomes the
  replacement rune.
\<close>

function utf8_sanitize :: "bytes \<Rightarrow> bytes" where
  "utf8_sanitize s =
     (if s = [] then []
      else if bad_rune s then encode_rune rune_error @ utf8_sanitize (tl s)
      else take (snd (decode_rune s)) s @ utf8_sanitize (drop (snd (decode_rune s)) s))"
  by pat_completeness auto
termination
  by (relation "measure length") (simp_all add: decode_rune_shrinks)

declare utf8_sanitize.simps [simp del]

lemma utf8_sanitize_Nil [simp]: "utf8_sanitize [] = []"
  by (simp add: utf8_sanitize.simps)

lemma utf8_sanitize_rune [simp]:
  "valid_rune r \<Longrightarrow> utf8_sanitize (encode_rune r @ s) = encode_rune r @ utf8_sanitize s"
  by (subst utf8_sanitize.simps) (simp add: decode_encode)

lemma utf8_sanitize_bad [simp]:
  "bad_rune (c # s) \<Longrightarrow> utf8_sanitize (c # s) = encode_rune rune_error @ utf8_sanitize s"
  by (subst utf8_sanitize.simps) simp

lemma utf8_sanitize_id: "utf8_valid s \<Longrightarrow> utf8_sanitize s = s"
  by (induction s rule: utf8_valid_induct) auto

lemma utf8_sanitize_valid: "utf8_valid (utf8_sanitize s)"
  by (induction s rule: utf8_induct) (auto simp: utf8_valid_append encode_rune_valid)

section \<open>Counting, spaces, trimming\<close>

function rune_count :: "bytes \<Rightarrow> nat" where
  "rune_count s = (if s = [] then 0 else Suc (rune_count (drop (snd (decode_rune s)) s)))"
  by pat_completeness auto
termination
  by (relation "measure length") (simp_all add: decode_rune_shrinks)

declare rune_count.simps [simp del]

text \<open>\<open>unicode.IsSpace\<close>.\<close>

definition is_space_rune :: "nat \<Rightarrow> bool" where
  "is_space_rune r \<longleftrightarrow> (9 \<le> r \<and> r \<le> 13) \<or> r = 32 \<or> r = 133 \<or> r = 160 \<or> r = 5760
     \<or> (8192 \<le> r \<and> r \<le> 8202) \<or> r = 8232 \<or> r = 8233 \<or> r = 8239 \<or> r = 8287 \<or> r = 12288"

function trim_left_space :: "bytes \<Rightarrow> bytes" where
  "trim_left_space s =
     (if s \<noteq> [] \<and> is_space_rune (fst (decode_rune s))
      then trim_left_space (drop (snd (decode_rune s)) s) else s)"
  by pat_completeness auto
termination
  by (relation "measure length") (simp_all add: decode_rune_shrinks)

declare trim_left_space.simps [simp del]

text \<open>\<open>utf8.DecodeLastRune\<close>: back to the nearest byte that can start a rune, at most four.\<close>

definition rune_start :: "char \<Rightarrow> bool" where
  "rune_start c \<longleftrightarrow> \<not> cont_byte c"

definition decode_last_rune :: "bytes \<Rightarrow> nat \<times> nat" where
  "decode_last_rune s =
     (if s = [] then (rune_error, 0)
      else if bval (last s) < 128 then (bval (last s), 1)
      else
        let e = length s; lim = e - 4;
            starts = filter (\<lambda>k. rune_start (s ! k)) [lim..<e - 1];
            start = (if starts = [] then lim - 1 else last starts);
            (r, n) = decode_rune (drop start s)
        in if start + n = e then (r, n) else (rune_error, 1))"

function trim_right_space :: "bytes \<Rightarrow> bytes" where
  "trim_right_space s =
     (if s \<noteq> [] \<and> is_space_rune (fst (decode_last_rune s))
      then trim_right_space (take (length s - max 1 (snd (decode_last_rune s))) s) else s)"
  by pat_completeness auto
termination
  by (relation "measure length") auto

declare trim_right_space.simps [simp del]

definition trim_space :: "bytes \<Rightarrow> bytes" where
  "trim_space s = trim_right_space (trim_left_space s)"

lemma trim_left_space_suffix: "suffix (trim_left_space s) s"
proof (induction s rule: trim_left_space.induct)
  case (1 s)
  show ?case
  proof (cases "s \<noteq> [] \<and> is_space_rune (fst (decode_rune s))")
    case True
    with 1 have "suffix (trim_left_space (drop (snd (decode_rune s)) s)) s"
      by (meson suffix_drop suffix_order.trans)
    with True show ?thesis by (simp add: trim_left_space.simps [of s])
  next
    case False
    then have "trim_left_space s = s" by (subst trim_left_space.simps) auto
    then show ?thesis by simp
  qed
qed

lemma trim_right_space_prefix: "prefix (trim_right_space s) s"
proof (induction s rule: trim_right_space.induct)
  case (1 s)
  show ?case
  proof (cases "s \<noteq> [] \<and> is_space_rune (fst (decode_last_rune s))")
    case True
    with 1 have "prefix (trim_right_space (take (length s - max 1 (snd (decode_last_rune s))) s)) s"
      by (meson take_is_prefix prefix_order.trans)
    with True show ?thesis by (simp add: trim_right_space.simps [of s])
  next
    case False
    then have "trim_right_space s = s" by (subst trim_right_space.simps) auto
    then show ?thesis by simp
  qed
qed

end
