(* ===== verification/Json_Std.thy ===== *)
theory Json_Std
  imports Utf8
begin

text \<open>
  The part of Go's \<open>encoding/json\<close> the components call: the scanner behind \<open>json.Valid\<close>
  (its states, its parse stack and the nesting limit of 10000), \<open>json.Unmarshal\<close> into a
  string (\<open>unquoteBytes\<close>), and the string encoder with and without HTML escaping.

  \<open>json_piece p out\<close> is the contract of a piece of an encoded string: wherever it stands
  between the quotes it decodes to \<open>out\<close>, it keeps the validity scanner inside the string, and
  it never closes the token. The locale \<open>json_writer\<close> states what a writer of string tokens
  owes for its ASCII escapes and proves once that its tokens are valid JSON and decode to the
  text that was written.
\<close>

section \<open>The validity scanner\<close>

datatype jstep =
    BeginValue | BeginValueOrEmpty | BeginStringOrEmpty | BeginString | EndValue | EndTop
  | InString | InStringEsc | InStringEscU nat | Neg | State1 | State0 | Dot | Dot0
  | StateE | StateESign | StateE0 | Lit bytes | ScanError

datatype jparse = ObjectKey | ObjectValue | ArrayValue

type_synonym jscanner = "jstep \<times> jparse list"

definition is_json_space :: "char \<Rightarrow> bool" where
  [byte_defs]: "is_json_space c \<longleftrightarrow>
     c = CHR '' '' \<or> c = CHR 0x09 \<or> c = CHR 0x0D \<or> c = CHR 0x0A"

definition is_digit :: "char \<Rightarrow> bool" where
  [byte_defs]: "is_digit c \<longleftrightarrow> 48 \<le> bval c \<and> bval c \<le> 57"

definition hex_val :: "char \<Rightarrow> nat option" where
  "hex_val c =
     (if 48 \<le> bval c \<and> bval c \<le> 57 then Some (bval c - 48)
      else if 97 \<le> bval c \<and> bval c \<le> 102 then Some (bval c - 87)
      else if 65 \<le> bval c \<and> bval c \<le> 70 then Some (bval c - 55)
      else None)"

definition max_nesting :: nat where
  "max_nesting = 10000"

definition push_state :: "jparse \<Rightarrow> jstep \<Rightarrow> jparse list \<Rightarrow> jscanner" where
  "push_state p next_step st =
     (if Suc (length st) \<le> max_nesting then (next_step, p # st) else (ScanError, p # st))"

definition pop_state :: "jparse list \<Rightarrow> jscanner" where
  "pop_state st = (if tl st = [] then (EndTop, []) else (EndValue, tl st))"

definition end_top :: "jparse list \<Rightarrow> char \<Rightarrow> jscanner" where
  "end_top st c = (if is_json_space c then (EndTop, st) else (ScanError, st))"

definition end_value :: "jparse list \<Rightarrow> char \<Rightarrow> jscanner" where
  "end_value st c =
     (case st of
        [] \<Rightarrow> end_top [] c
      | p # ps \<Rightarrow>
          if is_json_space c then (EndValue, st)
          else (case p of
             ObjectKey \<Rightarrow>
               if c = CHR '':'' then (BeginValue, ObjectValue # ps) else (ScanError, st)
           | ObjectValue \<Rightarrow>
               if c = CHR '','' then (BeginString, ObjectKey # ps)
               else if c = CHR ''}'' then pop_state st
               else (ScanError, st)
           | ArrayValue \<Rightarrow>
               if c = CHR '','' then (BeginValue, st)
               else if c = CHR '']'' then pop_state st
               else (ScanError, st)))"

definition begin_value :: "jparse list \<Rightarrow> char \<Rightarrow> jscanner" where
  "begin_value st c =
     (if is_json_space c then (BeginValue, st)
      else if c = CHR ''{'' then push_state ObjectKey BeginStringOrEmpty st
      else if c = CHR ''['' then push_state ArrayValue BeginValueOrEmpty st
      else if c = CHR 0x22 then (InString, st)
      else if c = CHR ''-'' then (Neg, st)
      else if c = CHR ''0'' then (State0, st)
      else if c = CHR ''t'' then (Lit ''rue'', st)
      else if c = CHR ''f'' then (Lit ''alse'', st)
      else if c = CHR ''n'' then (Lit ''ull'', st)
      else if is_digit c then (State1, st)
      else (ScanError, st))"

definition begin_string :: "jparse list \<Rightarrow> char \<Rightarrow> jscanner" where
  "begin_string st c =
     (if is_json_space c then (BeginString, st)
      else if c = CHR 0x22 then (InString, st)
      else (ScanError, st))"

definition state0 :: "jparse list \<Rightarrow> char \<Rightarrow> jscanner" where
  "state0 st c =
     (if c = CHR ''.'' then (Dot, st)
      else if c = CHR ''e'' \<or> c = CHR ''E'' then (StateE, st)
      else end_value st c)"

definition e_sign :: "jparse list \<Rightarrow> char \<Rightarrow> jscanner" where
  "e_sign st c = (if is_digit c then (StateE0, st) else (ScanError, st))"

fun scan_step :: "jscanner \<Rightarrow> char \<Rightarrow> jscanner" where
  "scan_step (BeginValue, st) c = begin_value st c"
| "scan_step (BeginValueOrEmpty, st) c =
     (if is_json_space c then (BeginValueOrEmpty, st)
      else if c = CHR '']'' then end_value st c
      else begin_value st c)"
| "scan_step (BeginStringOrEmpty, st) c =
     (if is_json_space c then (BeginStringOrEmpty, st)
      else if c = CHR ''}'' then end_value (ObjectValue # tl st) c
      else begin_string st c)"
| "scan_step (BeginString, st) c = begin_string st c"
| "scan_step (EndValue, st) c = end_value st c"
| "scan_step (EndTop, st) c = end_top st c"
| "scan_step (InString, st) c =
     (if c = CHR 0x22 then (EndValue, st)
      else if c = CHR 0x5C then (InStringEsc, st)
      else if bval c < 32 then (ScanError, st)
      else (InString, st))"
| "scan_step (InStringEsc, st) c =
     (if c = CHR ''u'' then (InStringEscU 4, st)
      else if c \<in> set [CHR ''b'', CHR ''f'', CHR ''n'', CHR ''r'', CHR ''t'', CHR 0x5C,
                      CHR ''/'', CHR 0x22] then (InString, st)
      else (ScanError, st))"
| "scan_step (InStringEscU n, st) c =
     (if hex_val c = None then (ScanError, st)
      else if n \<le> 1 then (InString, st)
      else (InStringEscU (n - 1), st))"
| "scan_step (Neg, st) c =
     (if c = CHR ''0'' then (State0, st)
      else if is_digit c then (State1, st)
      else (ScanError, st))"
| "scan_step (State1, st) c = (if is_digit c then (State1, st) else state0 st c)"
| "scan_step (State0, st) c = state0 st c"
| "scan_step (Dot, st) c = (if is_digit c then (Dot0, st) else (ScanError, st))"
| "scan_step (Dot0, st) c =
     (if is_digit c then (Dot0, st)
      else if c = CHR ''e'' \<or> c = CHR ''E'' then (StateE, st)
      else end_value st c)"
| "scan_step (StateE, st) c =
     (if c = CHR ''+'' \<or> c = CHR ''-'' then (StateESign, st) else e_sign st c)"
| "scan_step (StateESign, st) c = e_sign st c"
| "scan_step (StateE0, st) c = (if is_digit c then (StateE0, st) else end_value st c)"
| "scan_step (Lit w, st) c =
     (case w of
        [] \<Rightarrow> end_value st c
      | x # xs \<Rightarrow>
          if c = x then (if xs = [] then (EndValue, st) else (Lit xs, st)) else (ScanError, st))"
| "scan_step (ScanError, st) c = (ScanError, st)"

definition scan :: "jscanner \<Rightarrow> bytes \<Rightarrow> jscanner" where
  "scan s b = foldl scan_step s b"

lemma scan_Nil [simp]: "scan s [] = s"
  and scan_Cons [simp]: "scan s (c # b) = scan (scan_step s c) b"
  and scan_append: "scan s (a @ b) = scan (scan s a) b"
  by (simp_all add: scan_def)

text \<open>\<open>json.Valid\<close>: every byte scans, and at the end the value is complete.\<close>

definition json_valid :: "bytes \<Rightarrow> bool" where
  "json_valid b =
     (let s = scan (BeginValue, []) b
      in fst s = EndTop \<or> fst (scan_step s (CHR '' '')) = EndTop)"

section \<open>Decoding a string token\<close>

definition getu4 :: "bytes \<Rightarrow> nat option" where
  "getu4 s =
     (case s of
        b # u # a1 # a2 # a3 # a4 # _ \<Rightarrow>
          if b = CHR 0x5C \<and> u = CHR ''u'' then
            (case (hex_val a1, hex_val a2, hex_val a3, hex_val a4) of
               (Some h1, Some h2, Some h3, Some h4) \<Rightarrow>
                 Some (h1 * 4096 + h2 * 256 + h3 * 16 + h4)
             | _ \<Rightarrow> None)
          else None
      | _ \<Rightarrow> None)"

definition is_surrogate :: "nat \<Rightarrow> bool" where
  "is_surrogate r \<longleftrightarrow> 55296 \<le> r \<and> r < 57344"

definition decode_surrogates :: "nat \<Rightarrow> nat option \<Rightarrow> nat option" where
  "decode_surrogates r r1 =
     (case r1 of
        Some l \<Rightarrow> if 55296 \<le> r \<and> r < 56320 \<and> 56320 \<le> l \<and> l < 57344
                  then Some ((r - 55296) * 1024 + (l - 56320) + 65536) else None
      | None \<Rightarrow> None)"

definition simple_escape :: "char \<Rightarrow> char option" where
  "simple_escape c =
     (if c \<in> set [CHR 0x22, CHR 0x5C, CHR ''/'', CHR 0x27] then Some c
      else if c = CHR ''b'' then Some (CHR 0x08)
      else if c = CHR ''f'' then Some (CHR 0x0C)
      else if c = CHR ''n'' then Some (CHR 0x0A)
      else if c = CHR ''r'' then Some (CHR 0x0D)
      else if c = CHR ''t'' then Some (CHR 0x09)
      else None)"

text \<open>\<open>unquoteBytes\<close> between the quotes.\<close>

function unquote_inner :: "bytes \<Rightarrow> bytes option" where
  "unquote_inner s =
     (if s = [] then Some []
      else if hd s = CHR 0x5C then
        (case tl s of
           [] \<Rightarrow> None
         | e # t \<Rightarrow>
             if e = CHR ''u'' then
               (case getu4 s of
                  None \<Rightarrow> None
                | Some r \<Rightarrow>
                    if is_surrogate r then
                      (case decode_surrogates r (getu4 (drop 6 s)) of
                         Some d \<Rightarrow> map_option ((@) (encode_rune d)) (unquote_inner (drop 12 s))
                       | None \<Rightarrow> map_option ((@) (encode_rune rune_error)) (unquote_inner (drop 6 s)))
                    else map_option ((@) (encode_rune r)) (unquote_inner (drop 6 s)))
             else (case simple_escape e of
                     None \<Rightarrow> None
                   | Some x \<Rightarrow> map_option ((#) x) (unquote_inner t)))
      else if hd s = CHR 0x22 \<or> bval (hd s) < 32 then None
      else if bval (hd s) < 128 then map_option ((#) (hd s)) (unquote_inner (tl s))
      else map_option ((@) (encode_rune (fst (decode_rune s))))
             (unquote_inner (drop (snd (decode_rune s)) s)))"
  by pat_completeness auto
termination
  by (relation "measure length") (auto simp: neq_Nil_conv)

declare unquote_inner.simps [simp del]

definition unquote :: "bytes \<Rightarrow> bytes option" where
  "unquote s =
     (if length s < 2 \<or> hd s \<noteq> CHR 0x22 \<or> last s \<noteq> CHR 0x22 then None
      else unquote_inner (butlast (tl s)))"

definition strip_json_space :: "bytes \<Rightarrow> bytes" where
  "strip_json_space s = rev (dropWhile is_json_space (rev (dropWhile is_json_space s)))"

text \<open>
  \<open>json.Unmarshal\<close> into a string variable that holds "": \<open>None\<close> is an error, a JSON null
  leaves the variable alone.
\<close>

definition unmarshal_string :: "bytes \<Rightarrow> bytes option" where
  "unmarshal_string s =
     (if json_valid s then
        let v = strip_json_space s in
        if v \<noteq> [] \<and> hd v = CHR 0x22 then unquote v
        else if v = ''null'' then Some [] else None
      else None)"

section \<open>Scanning a string token\<close>

text \<open>The distance to just past the closing quote, from just past the opening one.\<close>

fun str_scan :: "bytes \<Rightarrow> nat option" where
  "str_scan [] = None"
| "str_scan [c] = (if c = CHR 0x22 then Some 1 else None)"
| "str_scan (c # d # s) =
     (if c = CHR 0x5C then map_option (\<lambda>n. n + 2) (str_scan s)
      else if c = CHR 0x22 then Some 1
      else map_option Suc (str_scan (d # s)))"

lemma str_scan_plain:
  "c \<noteq> CHR 0x5C \<Longrightarrow> c \<noteq> CHR 0x22 \<Longrightarrow> str_scan (c # s) = map_option Suc (str_scan s)"
  by (cases s) auto

lemma str_scan_quote: "str_scan (CHR 0x22 # s) = Some 1"
  by (cases s) auto

lemma str_scan_esc:
  "str_scan (CHR 0x5C # c # s) = map_option (\<lambda>n. n + 2) (str_scan s)"
  by simp

lemma str_scan_bounds:
  "str_scan s = Some n \<Longrightarrow> 0 < n \<and> n \<le> length s \<and> s ! (n - 1) = CHR 0x22"
proof (induction s arbitrary: n rule: str_scan.induct)
  case (3 c d s)
  show ?case
  proof (cases "c = CHR 0x5C")
    case True
    with 3 show ?thesis by fastforce
  next
    case False
    with 3 show ?thesis by (fastforce split: if_splits)
  qed
qed (auto split: if_splits)


section \<open>Pieces of an encoded string\<close>

definition json_piece :: "bytes \<Rightarrow> bytes \<Rightarrow> bool" where
  "json_piece p out \<longleftrightarrow>
     (\<forall>t. unquote_inner (p @ t) = map_option ((@) out) (unquote_inner t)) \<and>
     (\<forall>st. scan (InString, st) p = (InString, st)) \<and>
     (\<forall>t. str_scan (p @ t) = map_option ((+) (length p)) (str_scan t))"

lemma json_pieceD:
  assumes "json_piece p out"
  shows "unquote_inner (p @ t) = map_option ((@) out) (unquote_inner t)"
    and "scan (InString, st) p = (InString, st)"
    and "str_scan (p @ t) = map_option ((+) (length p)) (str_scan t)"
  using assms by (auto simp: json_piece_def)

lemma json_piece_Nil: "json_piece [] []"
  by (auto simp: json_piece_def map_option_case split: option.splits)

lemma json_piece_append:
  "json_piece p a \<Longrightarrow> json_piece q b \<Longrightarrow> json_piece (p @ q) (a @ b)"
  by (auto simp: json_piece_def scan_append map_option_case split: option.splits)

lemma unquote_inner_Nil [simp]: "unquote_inner [] = Some []"
  by (simp add: unquote_inner.simps)

lemma json_piece_plain:
  assumes "32 \<le> bval c" and "bval c < 128" and "c \<noteq> CHR 0x22" and "c \<noteq> CHR 0x5C"
  shows "json_piece [c] [c]"
  using assms unfolding json_piece_def
  by (auto simp: str_scan_plain unquote_inner.simps [of "c # t" for t] map_option_case
      split: option.splits)

lemma json_piece_escape:
  assumes "simple_escape c = Some x" and "c \<noteq> CHR 0x27"
  shows "json_piece [CHR 0x5C, c] [x]"
proof -
  have "c \<noteq> CHR ''u''" using assms by (auto simp: simple_escape_def split: if_splits)
  then have "unquote_inner ([CHR 0x5C, c] @ t) = map_option ((@) [x]) (unquote_inner t)" for t
    using assms by (simp add: unquote_inner.simps [of "CHR 0x5C # c # t"] map_option_case
        split: option.splits)
  moreover have "scan (InString, st) [CHR 0x5C, c] = (InString, st)" for st
    using assms \<open>c \<noteq> CHR ''u''\<close> by (auto simp: simple_escape_def split: if_splits)
  ultimately show ?thesis by (simp add: json_piece_def map_option_case split: option.splits)
qed

definition hex_digit :: "nat \<Rightarrow> char" where
  "hex_digit n = char_of (if n < 10 then 48 + n else 87 + n)"

lemma hex_val_digit: "n < 16 \<Longrightarrow> hex_val (hex_digit n) = Some n"
  by (auto simp: hex_val_def hex_digit_def bval_char_of)

text \<open>A four-digit escape of a code point that is no surrogate.\<close>

lemma json_piece_u4:
  assumes h: "hex_val a1 = Some h1" "hex_val a2 = Some h2" "hex_val a3 = Some h3"
      "hex_val a4 = Some h4"
    and r: "r = h1 * 4096 + h2 * 256 + h3 * 16 + h4" and ns: "\<not> is_surrogate r"
  shows "json_piece [CHR 0x5C, CHR ''u'', a1, a2, a3, a4] (encode_rune r)"
proof -
  let ?p = "[CHR 0x5C, CHR ''u'', a1, a2, a3, a4]"
  have plain: "c \<noteq> CHR 0x5C \<and> c \<noteq> CHR 0x22" if "hex_val c = Some k" for c k
    using that by (auto simp: hex_val_def bval_def split: if_splits)
  have "getu4 (?p @ t) = Some r" for t using h r by (simp add: getu4_def)
  then have "unquote_inner (?p @ t) = map_option ((@) (encode_rune r)) (unquote_inner t)" for t
    using ns by (subst unquote_inner.simps) simp
  moreover have "scan (InString, st) ?p = (InString, st)" for st using h by simp
  moreover have "str_scan (?p @ t) = map_option ((+) (length ?p)) (str_scan t)" for t
    using plain [OF h(1)] plain [OF h(2)] plain [OF h(3)] plain [OF h(4)]
    by (simp add: str_scan_esc str_scan_plain option.map_comp comp_def del: str_scan.simps)
  ultimately show ?thesis by (simp add: json_piece_def)
qed

lemma json_piece_u00:
  assumes "bval c < 128"
  shows "json_piece (CHR 0x5C # ''u00'' @ [hex_digit (bval c div 16), hex_digit (bval c mod 16)]) [c]"
proof -
  have "hex_val (hex_digit (bval c div 16)) = Some (bval c div 16)"
    using assms by (intro hex_val_digit) auto
  moreover have "hex_val (hex_digit (bval c mod 16)) = Some (bval c mod 16)"
    by (intro hex_val_digit) auto
  ultimately have "json_piece (CHR 0x5C # ''u00'' @ [hex_digit (bval c div 16), hex_digit (bval c mod 16)])
      (encode_rune (bval c))"
    using json_piece_u4 [of "CHR ''0''" 0 "CHR ''0''" 0 _ "bval c div 16" _ "bval c mod 16" "bval c"]
      assms by (simp add: hex_val_def bval_def is_surrogate_def)
  with assms show ?thesis by (simp add: encode_rune_bval)
qed

lemma json_piece_fffd: "json_piece (CHR 0x5C # ''ufffd'') (encode_rune rune_error)"
  using json_piece_u4 [of "CHR ''f''" 15 "CHR ''f''" 15 "CHR ''f''" 15 "CHR ''d''" 13 rune_error]
  by (simp add: hex_val_def bval_def is_surrogate_def rune_error_def)

lemma str_scan_high:
  "(\<And>c. c \<in> set p \<Longrightarrow> 128 \<le> bval c) \<Longrightarrow> str_scan (p @ t) = map_option ((+) (length p)) (str_scan t)"
proof (induction p)
  case Nil
  then show ?case by (simp add: option.map_ident)
next
  case (Cons c p)
  then have "128 \<le> bval c" by simp
  then have "c \<noteq> CHR 0x5C" and "c \<noteq> CHR 0x22" by (auto simp: bval_def)
  with Cons show ?case
    by (simp add: str_scan_plain option.map_comp comp_def del: str_scan.simps)
qed

lemma scan_high: "(\<And>c. c \<in> set p \<Longrightarrow> 128 \<le> bval c) \<Longrightarrow> scan (InString, st) p = (InString, st)"
proof (induction p)
  case (Cons c p)
  then have "128 \<le> bval c" by simp
  then have "c \<noteq> CHR 0x5C" and "c \<noteq> CHR 0x22" by (auto simp: bval_def)
  moreover have "\<not> bval c < 32" using \<open>128 \<le> bval c\<close> by linarith
  ultimately show ?case using Cons by simp
qed simp

lemma json_piece_rune:
  assumes "valid_rune r" and "128 \<le> r"
  shows "json_piece (encode_rune r) (encode_rune r)"
proof -
  obtain c p where p: "encode_rune r = c # p" by (cases "encode_rune r") auto
  have high: "128 \<le> bval d" if "d \<in> set (encode_rune r)" for d
    using encode_rune_high [OF assms(2) that] .
  then have "128 \<le> bval c" using p by simp
  then have c: "c \<noteq> CHR 0x5C" "c \<noteq> CHR 0x22" by (auto simp: bval_def)
  have "unquote_inner (encode_rune r @ t) = map_option ((@) (encode_rune r)) (unquote_inner t)" for t
    using decode_encode [OF assms(1), of t] \<open>128 \<le> bval c\<close> c p
    by (subst unquote_inner.simps) simp
  with high show ?thesis by (simp add: json_piece_def str_scan_high scan_high)
qed

section \<open>Writing a string token\<close>

function write_body :: "(char \<Rightarrow> bytes) \<Rightarrow> (nat \<Rightarrow> bytes) \<Rightarrow> bytes \<Rightarrow> bytes" where
  "write_body esc wide s =
     (if s = [] then []
      else if bval (hd s) < 128 then esc (hd s) @ write_body esc wide (tl s)
      else if bad_rune s then (CHR 0x5C # ''ufffd'') @ write_body esc wide (tl s)
      else wide (fst (decode_rune s)) @ write_body esc wide (drop (snd (decode_rune s)) s))"
  by pat_completeness auto
termination
  by (relation "measure (\<lambda>(_, _, s). length s)") (simp_all add: decode_rune_shrinks)

declare write_body.simps [simp del]

definition quoted :: "bytes \<Rightarrow> bytes" where
  "quoted body = CHR 0x22 # body @ [CHR 0x22]"

lemma write_body_Nil [simp]: "write_body esc wide [] = []"
  by (simp add: write_body.simps)

lemma write_body_ascii: "bval c < 128 \<Longrightarrow> write_body esc wide (c # s) = esc c @ write_body esc wide s"
  by (simp add: write_body.simps)

lemma write_body_bad:
  "bad_rune (c # s) \<Longrightarrow> write_body esc wide (c # s) = (CHR 0x5C # ''ufffd'') @ write_body esc wide s"
  using bad_rune_Cons [of c s] by (subst write_body.simps) simp

lemma write_body_wide:
  assumes "valid_rune r" and "128 \<le> r"
  shows "write_body esc wide (encode_rune r @ s) = wide r @ write_body esc wide s"
proof -
  have "128 \<le> bval (hd (encode_rune r @ s))"
    using encode_rune_high [OF assms(2), of "hd (encode_rune r)"] by simp
  then show ?thesis using assms decode_encode [OF assms(1), of s]
    by (subst write_body.simps) simp
qed

lemma quoted_piece:
  assumes "json_piece p out"
  shows "unquote (quoted p) = Some out" and "json_valid (quoted p)"
    and "unmarshal_string (quoted p) = Some out"
    and "str_scan (p @ CHR 0x22 # t) = Some (Suc (length p))"
proof -
  show u: "unquote (quoted p) = Some out"
    using json_pieceD(1) [OF assms, of "[]"] by (simp add: unquote_def quoted_def butlast_append)
  have "scan (BeginValue, []) (quoted p) = (EndValue, [])"
    using json_pieceD(2) [OF assms]
    by (simp add: quoted_def scan_append begin_value_def is_json_space_def)
  then show v: "json_valid (quoted p)"
    by (simp add: json_valid_def end_value_def end_top_def is_json_space_def)
  have "strip_json_space (quoted p) = quoted p"
    by (simp add: strip_json_space_def quoted_def is_json_space_def)
  with u v show "unmarshal_string (quoted p) = Some out"
    by (simp add: unmarshal_string_def Let_def) (simp add: quoted_def)
  show "str_scan (p @ CHR 0x22 # t) = Some (Suc (length p))"
    using json_pieceD(3) [OF assms] by (simp add: str_scan_quote)
qed

text \<open>
  What a writer of string tokens owes: each ASCII byte goes out as a piece that decodes to it,
  each wide rune as a piece that decodes to its UTF-8 form.
\<close>

locale json_writer =
  fixes esc :: "char \<Rightarrow> bytes" and wide :: "nat \<Rightarrow> bytes"
  assumes esc_piece: "bval c < 128 \<Longrightarrow> json_piece (esc c) [c]"
    and wide_piece: "valid_rune r \<Longrightarrow> 128 \<le> r \<Longrightarrow> json_piece (wide r) (encode_rune r)"
begin

lemma body_piece: "json_piece (write_body esc wide s) (utf8_sanitize s)"
proof (induction s rule: utf8_induct)
  case Nil
  then show ?case by (simp add: json_piece_Nil)
next
  case (Rune r s)
  show ?case
  proof (cases "r < 128")
    case True
    then have "encode_rune r = [char_of r]" and "bval (char_of r) < 128"
      by (simp_all add: encode_rune_ascii bval_char_of)
    then show ?thesis
      using Rune json_piece_append [OF esc_piece] utf8_sanitize_rune [OF Rune(1), of s]
      by (simp add: write_body_ascii)
  next
    case False
    then show ?thesis
      using Rune json_piece_append [OF wide_piece] by (simp add: write_body_wide)
  qed
next
  case (Bad c s)
  then show ?case
    using json_piece_append [OF json_piece_fffd Bad.IH] by (simp add: write_body_bad)
qed

lemma token_decodes: "unmarshal_string (quoted (write_body esc wide s)) = Some (utf8_sanitize s)"
  and token_unquotes: "unquote (quoted (write_body esc wide s)) = Some (utf8_sanitize s)"
  and token_valid: "json_valid (quoted (write_body esc wide s))"
  and token_scan: "str_scan (write_body esc wide s @ CHR 0x22 # t)
      = Some (Suc (length (write_body esc wide s)))"
  using quoted_piece [OF body_piece] by auto

lemma token_roundtrip:
  "utf8_valid s \<Longrightarrow> unmarshal_string (quoted (write_body esc wide s)) = Some s"
  by (simp add: token_decodes utf8_sanitize_id)

end

text \<open>\<open>encoding/json\<close>'s own writer; \<open>html\<close> is \<open>SetEscapeHTML\<close> (on for \<open>json.Marshal\<close>).\<close>

definition std_escape :: "bool \<Rightarrow> char \<Rightarrow> bytes" where
  "std_escape html c =
     (if c = CHR 0x22 \<or> c = CHR 0x5C then [CHR 0x5C, c]
      else if c = CHR 0x08 then [CHR 0x5C, CHR ''b'']
      else if c = CHR 0x0C then [CHR 0x5C, CHR ''f'']
      else if c = CHR 0x0A then [CHR 0x5C, CHR ''n'']
      else if c = CHR 0x0D then [CHR 0x5C, CHR ''r'']
      else if c = CHR 0x09 then [CHR 0x5C, CHR ''t'']
      else if bval c < 32 \<or> (html \<and> c \<in> set [CHR ''<'', CHR ''>'', CHR ''&'']) then
        CHR 0x5C # ''u00'' @ [hex_digit (bval c div 16), hex_digit (bval c mod 16)]
      else [c])"

definition std_wide :: "nat \<Rightarrow> bytes" where
  "std_wide r = (if r = 8232 then CHR 0x5C # ''u2028''
                 else if r = 8233 then CHR 0x5C # ''u2029'' else encode_rune r)"

definition marshal_string :: "bool \<Rightarrow> bytes \<Rightarrow> bytes" where
  "marshal_string html s = quoted (write_body (std_escape html) std_wide s)"

lemma std_escapes:
  "json_piece [CHR 0x5C, CHR 0x22] [CHR 0x22]" "json_piece [CHR 0x5C, CHR 0x5C] [CHR 0x5C]"
  "json_piece [CHR 0x5C, CHR ''b''] [CHR 0x08]" "json_piece [CHR 0x5C, CHR ''f''] [CHR 0x0C]"
  "json_piece [CHR 0x5C, CHR ''n''] [CHR 0x0A]" "json_piece [CHR 0x5C, CHR ''r''] [CHR 0x0D]"
  "json_piece [CHR 0x5C, CHR ''t''] [CHR 0x09]"
  by (rule json_piece_escape; simp add: simple_escape_def)+

lemma std_escape_piece:
  assumes "bval c < 128"
  shows "json_piece (std_escape html c) [c]"
proof (cases "std_escape html c = [c]")
  case True
  then have "32 \<le> bval c" and "c \<noteq> CHR 0x22" and "c \<noteq> CHR 0x5C"
    by (auto simp: std_escape_def not_less split: if_splits)
  with True assms show ?thesis using json_piece_plain by simp
next
  case False
  then show ?thesis
    using std_escapes json_piece_u00 [OF assms] unfolding std_escape_def by presburger
qed

lemma std_wide_piece: "valid_rune r \<Longrightarrow> 128 \<le> r \<Longrightarrow> json_piece (std_wide r) (encode_rune r)"
  using json_piece_u4 [of "CHR ''2''" 2 "CHR ''0''" 0 "CHR ''2''" 2 "CHR ''8''" 8 8232]
    json_piece_u4 [of "CHR ''2''" 2 "CHR ''0''" 0 "CHR ''2''" 2 "CHR ''9''" 9 8233]
  by (simp add: std_wide_def json_piece_rune hex_val_def bval_def is_surrogate_def)

interpretation std_html: json_writer "std_escape True" std_wide
  by unfold_locales (simp_all add: std_escape_piece std_wide_piece)

interpretation std_plain: json_writer "std_escape False" std_wide
  by unfold_locales (simp_all add: std_escape_piece std_wide_piece)

end
