(* ===== verification/Json_Fast.thy ===== *)
theory Json_Fast
  imports Json_Std
begin

text \<open>
  The translator's JSON reader and writer (proxy/internal/translate/jsonfast.go): values are
  found as sub-slices of the body and built by appending, nothing is decoded on the way. The
  readers keep the code's index arguments; a failed reader is \<open>None\<close>, or the triple the code
  returns with its partial result and \<open>False\<close>.
\<close>

section \<open>Finding values\<close>

record kv =
  kv_key :: bytes
  kv_val :: bytes

definition isSpace :: "char \<Rightarrow> bool" where
  [byte_defs]: "isSpace c \<longleftrightarrow> c = CHR '' '' \<or> c = CHR 0x0A \<or> c = CHR 0x0D \<or> c = CHR 0x09"

function skipSpace :: "bytes \<Rightarrow> nat \<Rightarrow> nat" where
  "skipSpace b i = (if i < length b \<and> isSpace (b ! i) then skipSpace b (Suc i) else i)"
  by pat_completeness auto
termination
  by (relation "measure (\<lambda>(b, i). length b - i)") auto

declare skipSpace.simps [simp del]

lemma skipSpace_ge [scan_bounds]: "i \<le> skipSpace b i"
proof (induction b i rule: skipSpace.induct)
  case (1 b i)
  then show ?case by (subst skipSpace.simps) (auto dest: Suc_leD)
qed

lemma skipSpace_le [scan_bounds]: "i \<le> length b \<Longrightarrow> skipSpace b i \<le> length b"
proof (induction b i rule: skipSpace.induct)
  case (1 b i)
  then show ?case by (subst skipSpace.simps) auto
qed

lemma skipSpace_stop: "skipSpace b i < length b \<Longrightarrow> \<not> isSpace (b ! skipSpace b i)"
proof (induction b i rule: skipSpace.induct)
  case (1 b i)
  then show ?case
    by (cases "i < length b \<and> isSpace (b ! i)") (auto simp: skipSpace.simps [of b i])
qed

lemma skipSpace_id: "i < length b \<Longrightarrow> \<not> isSpace (b ! i) \<Longrightarrow> skipSpace b i = i"
  by (subst skipSpace.simps) simp

lemma skipSpace_end [simp]: "length b \<le> i \<Longrightarrow> skipSpace b i = i"
  by (subst skipSpace.simps) simp

text \<open>The run of backslashes that ends just before \<open>i\<close>.\<close>

fun backslash_run :: "bytes \<Rightarrow> nat \<Rightarrow> nat" where
  "backslash_run b 0 = 0"
| "backslash_run b (Suc j) = (if b ! j = CHR 0x5C then Suc (backslash_run b j) else 0)"

function stringEnd_from :: "bytes \<Rightarrow> nat \<Rightarrow> nat option" where
  "stringEnd_from b i =
     (case index_byte (drop i b) (CHR 0x22) of
        None \<Rightarrow> None
      | Some at \<Rightarrow>
          let q = i + at in
          if even (backslash_run b q) then Some (Suc q) else stringEnd_from b (Suc q))"
  by pat_completeness auto
termination
proof (relation "measure (\<lambda>(b, i). length b - i)", goal_cases)
  case (2 b i at q)
  then show ?case using index_byte_Some [of "drop i b" "CHR 0x22" at] by auto
qed simp

declare stringEnd_from.simps [simp del]

definition stringEnd :: "bytes \<Rightarrow> nat \<Rightarrow> nat option" where
  "stringEnd b i = stringEnd_from b (Suc i)"

lemma stringEnd_from_bounds:
  "stringEnd_from b i = Some e \<Longrightarrow> i < e \<and> e \<le> length b \<and> b ! (e - 1) = CHR 0x22"
proof (induction b i rule: stringEnd_from.induct)
  case (1 b i)
  from "1.prems" obtain at where at: "index_byte (drop i b) (CHR 0x22) = Some at"
    by (subst (asm) stringEnd_from.simps) (auto split: option.splits)
  then have b: "at < length b - i" "b ! (i + at) = CHR 0x22"
    using index_byte_Some [OF at] by auto
  show ?case
  proof (cases "even (backslash_run b (i + at))")
    case True
    with "1.prems" at have "e = Suc (i + at)" by (simp add: stringEnd_from.simps [of b i])
    with b show ?thesis by auto
  next
    case False
    with "1.prems" at have "stringEnd_from b (Suc (i + at)) = Some e"
      by (simp add: stringEnd_from.simps [of b i])
    with "1.IH" [OF at refl False] show ?thesis by simp
  qed
qed

lemma stringEnd_bounds [scan_bounds]:
  "stringEnd b i = Some e \<Longrightarrow> Suc i < e \<and> e \<le> length b \<and> b ! (e - 1) = CHR 0x22"
  unfolding stringEnd_def by (rule stringEnd_from_bounds)

text \<open>The container branch of \<open>valueEnd\<close>: brackets counted, strings jumped over.\<close>

function containerEnd :: "bytes \<Rightarrow> nat \<Rightarrow> int \<Rightarrow> nat option" where
  "containerEnd b j depth =
     (if j < length b then
        (if b ! j = CHR 0x22 then
           (case stringEnd b j of None \<Rightarrow> None | Some e \<Rightarrow> containerEnd b e depth)
         else if b ! j = CHR ''{'' \<or> b ! j = CHR ''['' then containerEnd b (Suc j) (depth + 1)
         else if b ! j = CHR ''}'' \<or> b ! j = CHR '']'' then
           (if depth - 1 = 0 then Some (Suc j) else containerEnd b (Suc j) (depth - 1))
         else containerEnd b (Suc j) depth)
      else None)"
  by pat_completeness auto
termination
  by (relation "measure (\<lambda>(b, j, _). length b - j)") (auto dest!: stringEnd_bounds)

declare containerEnd.simps [simp del]

lemma containerEnd_bounds: "containerEnd b j depth = Some e \<Longrightarrow> j < e \<and> e \<le> length b"
proof (induction b j depth rule: containerEnd.induct)
  case (1 b j depth)
  note eq = "1.prems" [unfolded containerEnd.simps [of b j depth]]
  then have j: "j < length b" by (auto split: if_splits)
  consider (str) k where "b ! j = CHR 0x22" "stringEnd b j = Some k" "containerEnd b k depth = Some e"
    | (opn) "b ! j \<noteq> CHR 0x22" "b ! j = CHR ''{'' \<or> b ! j = CHR ''[''"
        "containerEnd b (Suc j) (depth + 1) = Some e"
    | (closed) "e = Suc j"
    | (cls) "b ! j \<noteq> CHR 0x22" "\<not> (b ! j = CHR ''{'' \<or> b ! j = CHR ''['')"
        "b ! j = CHR ''}'' \<or> b ! j = CHR '']''"
        "depth - 1 \<noteq> 0" "containerEnd b (Suc j) (depth - 1) = Some e"
    | (other) "b ! j \<noteq> CHR 0x22" "\<not> (b ! j = CHR ''{'' \<or> b ! j = CHR ''['')"
        "\<not> (b ! j = CHR ''}'' \<or> b ! j = CHR '']'')"
        "containerEnd b (Suc j) depth = Some e"
    using eq by (auto split: if_splits option.splits)
  then show ?case
  proof cases
    case (str k)
    with "1.IH"(1) [OF j] stringEnd_bounds [OF str(2)] show ?thesis by force
  next
    case opn
    with "1.IH"(2) [OF j] show ?thesis by simp
  next
    case closed
    with j show ?thesis by simp
  next
    case cls
    with "1.IH"(3) [OF j] show ?thesis by simp
  next
    case other
    with "1.IH"(4) [OF j] show ?thesis by simp
  qed
qed

definition atom_stop :: "char \<Rightarrow> bool" where
  [byte_defs]: "atom_stop c \<longleftrightarrow>
     c = CHR '','' \<or> c = CHR ''}'' \<or> c = CHR '']'' \<or> c = CHR '':'' \<or> isSpace c"

function atomEnd :: "bytes \<Rightarrow> nat \<Rightarrow> nat" where
  "atomEnd b j = (if j < length b \<and> \<not> atom_stop (b ! j) then atomEnd b (Suc j) else j)"
  by pat_completeness auto
termination
  by (relation "measure (\<lambda>(b, j). length b - j)") auto

declare atomEnd.simps [simp del]

lemma atomEnd_ge: "j \<le> atomEnd b j"
proof (induction b j rule: atomEnd.induct)
  case (1 b j)
  then show ?case by (subst atomEnd.simps) (auto dest: Suc_leD)
qed

lemma atomEnd_le: "j \<le> length b \<Longrightarrow> atomEnd b j \<le> length b"
proof (induction b j rule: atomEnd.induct)
  case (1 b j)
  then show ?case by (subst atomEnd.simps) auto
qed

definition valueEnd :: "bytes \<Rightarrow> nat \<Rightarrow> nat option" where
  "valueEnd b i =
     (if length b \<le> i then None
      else if b ! i = CHR 0x22 then stringEnd b i
      else if b ! i = CHR ''{'' \<or> b ! i = CHR ''['' then containerEnd b i 0
      else
        let j = atomEnd b i; word = slice b i j in
        if j = i then None
        else if word = ''true'' \<or> word = ''false'' \<or> word = ''null'' then Some j
        else if b ! i = CHR ''-'' \<or> is_digit (b ! i) then Some j
        else None)"

lemma valueEnd_bounds [scan_bounds]: "valueEnd b i = Some e \<Longrightarrow> i < e \<and> e \<le> length b"
  using atomEnd_ge [of i b] atomEnd_le [of i b]
  by (auto simp: valueEnd_def Let_def split: if_splits dest: stringEnd_bounds containerEnd_bounds)

definition trimValue :: "bytes \<Rightarrow> bytes option" where
  "trimValue b =
     (let start = skipSpace b 0 in
      case valueEnd b start of
        None \<Rightarrow> None
      | Some e \<Rightarrow> if skipSpace b e \<noteq> length b then None else Some (slice b start e))"

section \<open>Objects and arrays\<close>

function objectAt_members :: "bytes \<Rightarrow> nat \<Rightarrow> kv list \<Rightarrow> kv list \<times> nat \<times> bool" where
  "objectAt_members b i dst =
     (if i < length b then
        (if b ! i \<noteq> CHR 0x22 then (dst, 0, False)
         else case stringEnd b i of
           None \<Rightarrow> (dst, 0, False)
         | Some keyEnd \<Rightarrow>
             let key = slice b (Suc i) (keyEnd - 1); c = skipSpace b keyEnd in
             if length b \<le> c \<or> b ! c \<noteq> CHR '':'' then (dst, 0, False)
             else
               let v = skipSpace b (Suc c) in
               case valueEnd b v of
                 None \<Rightarrow> (dst, 0, False)
               | Some e \<Rightarrow>
                   let dst' = dst @ [\<lparr>kv_key = key, kv_val = slice b v e\<rparr>]; s = skipSpace b e in
                   if length b \<le> s then (dst', 0, False)
                   else if b ! s = CHR ''}'' then (dst', Suc s, True)
                   else if b ! s \<noteq> CHR '','' then (dst', 0, False)
                   else objectAt_members b (skipSpace b (Suc s)) dst')
      else (dst, 0, False))"
  by pat_completeness auto
termination
proof (relation "measure (\<lambda>(b, i, _). length b - i)", goal_cases)
  case (2 b i dst keyEnd key c v e dst' s)
  have "i < keyEnd" using 2 stringEnd_bounds [of b i keyEnd] by simp
  also have "keyEnd \<le> c" using 2 skipSpace_ge by simp
  also have "c < v" using 2 skipSpace_ge [of "Suc c" b] by simp
  also have "v < e" using 2 valueEnd_bounds [of b v e] by simp
  also have "e \<le> s" using 2 skipSpace_ge by simp
  also have "s < skipSpace b (Suc s)" using skipSpace_ge [of "Suc s" b] by simp
  finally show ?case using 2 by simp
qed simp

declare objectAt_members.simps [simp del]

definition objectAt :: "bytes \<Rightarrow> nat \<Rightarrow> kv list \<Rightarrow> kv list \<times> nat \<times> bool" where
  "objectAt b i0 dst =
     (let i = skipSpace b (Suc i0) in
      if i < length b \<and> b ! i = CHR ''}'' then (dst, Suc i, True)
      else objectAt_members b i dst)"

definition objectKVs :: "bytes \<Rightarrow> kv list \<Rightarrow> kv list \<times> bool" where
  "objectKVs b dst =
     (if length b < 2 \<or> b ! 0 \<noteq> CHR ''{'' then (dst, False)
      else case objectAt b 0 dst of (dst', e, ok) \<Rightarrow> (dst', ok \<and> e = length b))"

function arrayItems_from :: "bytes \<Rightarrow> nat \<Rightarrow> bytes list \<Rightarrow> bytes list \<times> bool" where
  "arrayItems_from b i dst =
     (case valueEnd b i of
        None \<Rightarrow> (dst, False)
      | Some e \<Rightarrow>
          let dst' = dst @ [slice b i e]; s = skipSpace b e in
          if length b \<le> s then (dst', False)
          else if b ! s = CHR '']'' then (dst', s = length b - 1)
          else if b ! s \<noteq> CHR '','' then (dst', False)
          else arrayItems_from b (skipSpace b (Suc s)) dst')"
  by pat_completeness auto
termination
proof (relation "measure (\<lambda>(b, i, _). length b - i)", goal_cases)
  case (2 b i dst e dst' s)
  have "i < e" and "e \<le> length b" using 2 valueEnd_bounds [of b i e] by simp_all
  moreover have "e \<le> s" using 2 skipSpace_ge by simp
  moreover have "s < skipSpace b (Suc s)" using skipSpace_ge [of "Suc s" b] by simp
  ultimately show ?case by simp
qed simp

declare arrayItems_from.simps [simp del]

definition arrayItems :: "bytes \<Rightarrow> bytes list \<Rightarrow> bytes list \<times> bool" where
  "arrayItems b dst =
     (if length b < 2 \<or> b ! 0 \<noteq> CHR ''['' \<or> b ! (length b - 1) \<noteq> CHR '']'' then (dst, False)
      else
        let i = skipSpace b 1 in
        if b ! i = CHR '']'' then (dst, i = length b - 1)
        else arrayItems_from b i dst)"

definition items :: "bytes \<Rightarrow> bytes list" where
  "items raw = (case arrayItems raw [] of (out, ok) \<Rightarrow> if ok then out else [])"

text \<open>
  \<open>eachItem\<close> calls \<open>fn\<close> on each element; the callback's effect is the fold over \<open>acc\<close>, kept up
  to the element where the array turns out malformed.
\<close>

definition element_at :: "bytes \<Rightarrow> nat \<Rightarrow> (nat \<times> kv list) option" where
  "element_at b i =
     (if b ! i = CHR ''{'' then
        (case objectAt b i [] of (kvs, e, ok) \<Rightarrow> if ok then Some (e, kvs) else None)
      else map_option (\<lambda>e. (e, [])) (valueEnd b i))"

lemma objectAt_members_bounds:
  "objectAt_members b i dst = (d, e, True) \<Longrightarrow> i < e \<and> e \<le> length b"
proof (induction b i dst rule: objectAt_members.induct)
  case (1 b i dst)
  note eq = "1.prems" [unfolded objectAt_members.simps [of b i dst]]
  then obtain k where i: "i < length b" "b ! i = CHR 0x22" and k: "stringEnd b i = Some k"
    by (auto split: if_splits option.splits)
  define c where "c = skipSpace b k"
  have c: "c < length b" "b ! c = CHR '':''"
    using eq i k by (auto simp: Let_def c_def split: if_splits)
  define v where "v = skipSpace b (Suc c)"
  obtain f where f: "valueEnd b v = Some f"
    using eq i k c by (auto simp: Let_def v_def c_def split: option.splits)
  define s where "s = skipSpace b f"
  have "i < k" using stringEnd_bounds [OF k] by simp
  also have "k \<le> c" unfolding c_def by (rule skipSpace_ge)
  also have "c < v" unfolding v_def using skipSpace_ge [of "Suc c" b] by simp
  also have "v < f" using valueEnd_bounds [OF f] by simp
  also have "f \<le> s" unfolding s_def by (rule skipSpace_ge)
  finally have "i < s" .
  have s: "s < length b"
    using eq i k c f by (auto simp: Let_def s_def v_def c_def split: if_splits)
  show ?case
  proof (cases "b ! s = CHR ''}''")
    case True
    then show ?thesis using eq i k c f s \<open>i < s\<close> by (auto simp: Let_def s_def v_def c_def)
  next
    case False
    then have comma: "b ! s = CHR '',''"
      using eq i k c f s by (auto simp: Let_def s_def v_def c_def split: if_splits)
    then have "skipSpace b (Suc s) < e \<and> e \<le> length b"
      using "1.IH" [OF i(1) _ k refl c_def _ v_def f refl s_def] eq i k c f s False
      by (simp add: Let_def s_def v_def c_def)
    then show ?thesis using \<open>i < s\<close> skipSpace_ge [of "Suc s" b] by simp
  qed
qed

lemma objectAt_bounds [scan_bounds]: "objectAt b i dst = (d, e, True) \<Longrightarrow> i < e \<and> e \<le> length b"
  using skipSpace_ge [of "Suc i" b]
  by (auto simp: objectAt_def Let_def split: if_splits dest: objectAt_members_bounds)

lemma element_at_bounds [scan_bounds]: "element_at b i = Some (e, m) \<Longrightarrow> i < e \<and> e \<le> length b"
  by (auto simp: element_at_def split: if_splits prod.splits dest: objectAt_bounds valueEnd_bounds)

function eachItem_from :: "bytes \<Rightarrow> nat \<Rightarrow> (bytes \<Rightarrow> kv list \<Rightarrow> 'a \<Rightarrow> 'a) \<Rightarrow> 'a \<Rightarrow> 'a \<times> bool" where
  "eachItem_from arr i fn acc =
     (case element_at arr i of
        None \<Rightarrow> (acc, False)
      | Some (e, members) \<Rightarrow>
          let acc' = fn (slice arr i e) members acc; s = skipSpace arr e in
          if length arr \<le> s then (acc', False)
          else if arr ! s = CHR '']'' then (acc', s = length arr - 1)
          else if arr ! s \<noteq> CHR '','' then (acc', False)
          else eachItem_from arr (skipSpace arr (Suc s)) fn acc')"
  by pat_completeness auto
termination
proof (relation "measure (\<lambda>(b, i, _). length b - i)", goal_cases)
  case (2 arr i fn acc p e members acc' s)
  have "i < e" using element_at_bounds [of arr i e members] 2 by simp
  moreover have "e \<le> s" using 2 skipSpace_ge by simp
  moreover have "s < skipSpace arr (Suc s)" using skipSpace_ge [of "Suc s" arr] by simp
  ultimately show ?case using 2 by simp
qed simp

declare eachItem_from.simps [simp del]

definition eachItem :: "bytes \<Rightarrow> (bytes \<Rightarrow> kv list \<Rightarrow> 'a \<Rightarrow> 'a) \<Rightarrow> 'a \<Rightarrow> 'a \<times> bool" where
  "eachItem arr fn acc =
     (if length arr < 2 \<or> arr ! 0 \<noteq> CHR ''['' \<or> arr ! (length arr - 1) \<noteq> CHR '']''
      then (acc, False)
      else
        let i = skipSpace arr 1 in
        if arr ! i = CHR '']'' then (acc, i = length arr - 1)
        else eachItem_from arr i fn acc)"

section \<open>Members by name\<close>

text \<open>\<open>jstr\<close> decodes a string token, the empty string for anything else.\<close>

definition isStr :: "bytes \<Rightarrow> bool" where
  "isStr raw \<longleftrightarrow> 2 \<le> length raw \<and> raw ! 0 = CHR 0x22"

definition isNull :: "bytes \<Rightarrow> bool" where
  "isNull raw \<longleftrightarrow> raw = [] \<or> raw = ''null''"

definition jstr :: "bytes \<Rightarrow> bytes" where
  "jstr raw =
     (if \<not> isStr raw then []
      else
        let inn = slice raw 1 (length raw - 1) in
        if CHR 0x5C \<notin> set inn \<and> utf8_valid inn then inn
        else case unmarshal_string raw of Some out \<Rightarrow> out | None \<Rightarrow> [])"

definition unescapedKey :: "bytes \<Rightarrow> bytes" where
  "unescapedKey key = (if CHR 0x5C \<notin> set key then key else jstr (quoted key))"

definition kv_is :: "kv \<Rightarrow> bytes \<Rightarrow> bool" where
  "kv_is m name =
     (if length (kv_key m) \<le> length name then kv_key m = name
      else CHR 0x5C \<in> set (kv_key m) \<and> unescapedKey (kv_key m) = name)"

definition obj_get :: "kv list \<Rightarrow> bytes \<Rightarrow> bytes option" where
  "obj_get ob key = map_option kv_val (find (\<lambda>m. kv_is m key) (rev ob))"

definition obj_has :: "kv list \<Rightarrow> bytes \<Rightarrow> bool" where
  "obj_has ob key = (obj_get ob key \<noteq> None)"

definition obj_str :: "kv list \<Rightarrow> bytes \<Rightarrow> bytes" where
  "obj_str ob key = (case obj_get ob key of Some v \<Rightarrow> jstr v | None \<Rightarrow> jstr [])"

definition parseObj :: "bytes \<Rightarrow> kv list \<times> bool" where
  "parseObj b = objectKVs b []"

text \<open>\<open>topMember\<close> reads the members in place and keeps the last that matches.\<close>

function topMember_from :: "bytes \<Rightarrow> bytes \<Rightarrow> nat \<Rightarrow> bytes option \<Rightarrow> bytes option" where
  "topMember_from data key i found =
     (if i < length data \<and> data ! i = CHR 0x22 then
        (case stringEnd data i of
           None \<Rightarrow> None
         | Some keyEnd \<Rightarrow>
             let name = slice data (Suc i) (keyEnd - 1); c = skipSpace data keyEnd in
             if length data \<le> c \<or> data ! c \<noteq> CHR '':'' then None
             else
               let v = skipSpace data (Suc c) in
               case valueEnd data v of
                 None \<Rightarrow> None
               | Some e \<Rightarrow>
                   let found' = (if kv_is \<lparr>kv_key = name, kv_val = slice data v e\<rparr> key
                                 then Some (slice data v e) else found);
                       s = skipSpace data e;
                       i' = (if s < length data \<and> data ! s = CHR '','' then skipSpace data (Suc s)
                             else s)
                   in topMember_from data key i' found')
      else found)"
  by pat_completeness auto
termination
proof (relation "measure (\<lambda>(data, _, i, _). length data - i)", goal_cases)
  case (2 data key i found k name c v e found' s i')
  have "i < k" using 2 stringEnd_bounds [of data i k] by simp
  also have "k \<le> c" using 2 skipSpace_ge by simp
  also have "c < v" using 2 skipSpace_ge [of "Suc c" data] by simp
  also have "v < e" using 2 valueEnd_bounds [of data v e] by simp
  also have "e \<le> s" using 2 skipSpace_ge by simp
  also have "s \<le> i'" using 2(10) skipSpace_ge [of "Suc s" data] by simp
  finally have "i < i'" .
  moreover have "i < length data" using 2(1) by simp
  ultimately have "length data - i' < length data - i" by linarith
  then show ?case by simp
qed simp

declare topMember_from.simps [simp del]

definition topMember :: "bytes \<Rightarrow> bytes \<Rightarrow> bytes option" where
  "topMember data key =
     (let i = skipSpace data 0 in
      if length data \<le> i \<or> data ! i \<noteq> CHR ''{'' then None
      else topMember_from data key (skipSpace data (Suc i)) None)"

section \<open>Writing\<close>

text \<open>The \<open>switch\<close> of \<open>appendString\<close> for a byte below 128.\<close>

definition jf_escape :: "char \<Rightarrow> bytes" where
  "jf_escape c =
     (if 32 \<le> bval c \<and> c \<noteq> CHR 0x22 \<and> c \<noteq> CHR 0x5C then [c]
      else if c = CHR 0x22 \<or> c = CHR 0x5C then [CHR 0x5C, c]
      else if c = CHR 0x0A then [CHR 0x5C, CHR ''n'']
      else if c = CHR 0x0D then [CHR 0x5C, CHR ''r'']
      else if c = CHR 0x09 then [CHR 0x5C, CHR ''t'']
      else CHR 0x5C # ''u00'' @ [hex_digit (bval c div 16), hex_digit (bval c mod 16)])"

definition appendString :: "bytes \<Rightarrow> bytes \<Rightarrow> bytes" where
  "appendString dst s = dst @ quoted (write_body jf_escape encode_rune s)"

definition appendComma :: "bytes \<Rightarrow> bytes" where
  "appendComma dst =
     (if dst \<noteq> [] \<and> last dst \<noteq> CHR ''{'' \<and> last dst \<noteq> CHR ''['' then dst @ '','' else dst)"

definition appendKey :: "bytes \<Rightarrow> bytes \<Rightarrow> bytes" where
  "appendKey dst key = appendComma dst @ quoted key @ '':''"

text \<open>Tokens joined without decoding: each loses its quotes, the prefix is written open.\<close>

definition unquoted :: "bytes \<Rightarrow> bytes" where
  "unquoted token = slice token 1 (length token - 1)"

definition join_with :: "bytes \<Rightarrow> bytes list \<Rightarrow> bytes" where
  "join_with sep parts = (case parts of [] \<Rightarrow> [] | x # xs \<Rightarrow> x @ concat (map ((@) sep) xs))"

definition appendJoined :: "bytes \<Rightarrow> bytes \<Rightarrow> bytes list \<Rightarrow> bytes \<Rightarrow> bytes" where
  "appendJoined dst pre tokens sep =
     butlast (appendString dst pre) @ join_with sep (map unquoted tokens) @ [CHR 0x22]"

definition inner :: "bytes \<Rightarrow> bytes" where
  "inner token = (if \<not> isStr token then [] else unquoted token)"

definition appendInner :: "bytes \<Rightarrow> bytes \<Rightarrow> bytes \<Rightarrow> bytes" where
  "appendInner dst pre contents = butlast (appendString dst pre) @ contents @ [CHR 0x22]"

definition appendDataURI :: "bytes \<Rightarrow> bytes \<Rightarrow> bytes \<Rightarrow> bytes" where
  "appendDataURI dst media dat =
     dst @ (CHR 0x22 # ''data:'') @ media @ '';base64,'' @ dat @ [CHR 0x22]"

text \<open>\<open>bytes.Cut\<close>: around the first occurrence.\<close>

fun cut :: "bytes \<Rightarrow> bytes \<Rightarrow> (bytes \<times> bytes) option" where
  "cut [] sep = (if sep = [] then Some ([], []) else None)"
| "cut (c # cs) sep =
     (if prefix sep (c # cs) then Some ([], drop (length sep) (c # cs))
      else map_option (\<lambda>(a, z). (c # a, z)) (cut cs sep))"

definition dataURI :: "bytes \<Rightarrow> (bytes \<times> bytes) option" where
  "dataURI token =
     (if \<not> prefix ''data:'' (inner token) then None
      else case cut (drop 5 (inner token)) '';base64,'' of
        None \<Rightarrow> None
      | Some (media, dat) \<Rightarrow> if media = [] then None else Some (media, dat))"

text \<open>The map of a top-level body is its association list; \<open>rawObject\<close> writes it by sorted key.\<close>

definition rawObject :: "(bytes \<times> bytes) list \<Rightarrow> bytes" where
  "rawObject flds =
     foldl (\<lambda>out key. appendString (appendComma out) key @ '':'' @ the (map_of flds key))
       ''{'' (sort (map fst flds)) @ ''}''"

definition topFields :: "bytes \<Rightarrow> (bytes \<rightharpoonup> bytes) option" where
  "topFields body =
     (case trimValue body of
        None \<Rightarrow> None
      | Some root \<Rightarrow>
          (case objectKVs root [] of (kvs, ok) \<Rightarrow>
             if \<not> ok then None
             else Some (foldl (\<lambda>out m. out(unescapedKey (kv_key m) \<mapsto> kv_val m)) Map.empty kvs)))"

definition openElem :: "bytes \<Rightarrow> bytes" where
  "openElem arr = (if arr = [] then arr @ ''['' else arr @ '','')"

definition tok :: "bytes \<Rightarrow> bytes" where
  "tok raw = (if isStr raw then raw else [CHR 0x22, CHR 0x22])"

text \<open>
  \<open>editArray\<close>: what \<open>edit\<close> returns for an element is its replacement (nil is \<open>None\<close>) and
  whether to drop it; a change without a replacement drops. The Boolean says whether the array
  was rewritten.
\<close>

definition edit_note :: "(bytes \<Rightarrow> kv list \<Rightarrow> bytes option \<times> bool) \<Rightarrow> bytes \<Rightarrow> kv list \<Rightarrow>
    (bytes \<times> bytes option option) list \<Rightarrow> (bytes \<times> bytes option option) list" where
  "edit_note edit raw ob acc =
     (case edit raw ob of (replacement, dropped) \<Rightarrow>
        acc @ [(raw, if dropped \<or> replacement \<noteq> None then Some replacement else None)])"

definition edit_write :: "(bytes \<times> bytes option option) list \<Rightarrow> bytes \<Rightarrow> bytes" where
  "edit_write raws out =
     foldl (\<lambda>out (raw, change). case change of
          Some None \<Rightarrow> out
        | Some (Some r) \<Rightarrow> appendComma out @ r
        | None \<Rightarrow> appendComma out @ raw) out raws"

definition editArray :: "bytes \<Rightarrow> (bytes \<Rightarrow> kv list \<Rightarrow> bytes option \<times> bool) \<Rightarrow> bytes \<times> bool" where
  "editArray arr edit =
     (case eachItem arr (edit_note edit) [] of (raws, ok) \<Rightarrow>
        if (\<forall>r \<in> set raws. snd r = None) \<or> \<not> ok then (arr, False)
        else (edit_write raws ''['' @ '']'', True))"

section \<open>Text a provider accepts\<close>

definition isHex :: "char \<Rightarrow> bool" where
  "isHex c \<longleftrightarrow> hex_val c \<noteq> None"

text \<open>\<open>c|0x20\<close> makes an ASCII letter lower case.\<close>

definition lower_bit :: "char \<Rightarrow> nat" where
  "lower_bit c = (if bval c div 32 mod 2 = 1 then bval c else bval c + 32)"

definition surrogate :: "bytes \<Rightarrow> bool \<times> bool" where
  "surrogate b =
     (if length b < 6 \<or> b ! 0 \<noteq> CHR 0x5C \<or> b ! 1 \<noteq> CHR ''u'' \<or> lower_bit (b ! 2) \<noteq> 100
         \<or> \<not> isHex (b ! 4) \<or> \<not> isHex (b ! 5) then (False, False)
      else
        let d = lower_bit (b ! 3) in
        if d \<in> {56, 57, 97, 98} then (True, False)
        else if d \<in> {99, 100, 101, 102} then (False, True)
        else (False, False))"

function surrogateEscapes_from :: "bytes \<Rightarrow> nat \<Rightarrow> bool" where
  "surrogateEscapes_from b i =
     (case index_byte (drop i b) (CHR 0x5C) of
        None \<Rightarrow> False
      | Some at \<Rightarrow>
          let k = i + (at + 2) in
          if length b \<le> k then False
          else if b ! (k - 1) = CHR ''u'' \<and> lower_bit (b ! k) = 100 then True
          else surrogateEscapes_from b k)"
  by pat_completeness auto
termination
  by (relation "measure (\<lambda>(b, i). length b - i)") auto

declare surrogateEscapes_from.simps [simp del]

definition surrogateEscapes :: "bytes \<Rightarrow> bool" where
  "surrogateEscapes b = surrogateEscapes_from b 0"

definition fffd_escape :: bytes where
  "fffd_escape = CHR 0x5C # ''ufffd''"

function validText_loop :: "bytes \<Rightarrow> bytes" where
  "validText_loop b =
     (if b = [] then []
      else if hd b = CHR 0x5C \<and> 1 < length b then
        (case (surrogate b, surrogate (drop 6 b)) of
           ((high, low), (_, paired)) \<Rightarrow>
             if high \<and> paired then take 12 b @ validText_loop (drop 12 b)
             else if high \<or> low then fffd_escape @ validText_loop (drop 6 b)
             else take 2 b @ validText_loop (drop 2 b))
      else if 128 \<le> bval (hd b) then
        (if \<not> bad_rune b
         then take (snd (decode_rune b)) b @ validText_loop (drop (snd (decode_rune b)) b)
         else fffd_escape @ validText_loop (tl b))
      else hd b # validText_loop (tl b))"
  by pat_completeness auto
termination
  by (relation "measure length") (auto simp: neq_Nil_conv)

declare validText_loop.simps [simp del]

definition validText :: "bytes \<Rightarrow> bytes" where
  "validText body = (if utf8_valid body \<and> \<not> surrogateEscapes body then body else validText_loop body)"

end
