(* ===== verification/Json_Scan.thy ===== *)
theory Json_Scan
  imports Json_Fast_Facts
begin

text \<open>
  The translator's reader against the standard scanner. Outside strings a step of the scanner
  moves its parse stack exactly as the reader moves its depth; so on every text
  \<open>encoding/json\<close> accepts the reader finds the value and its end.
\<close>

section \<open>One step outside strings\<close>

definition open_byte :: "char \<Rightarrow> bool" where
  [byte_defs]: "open_byte c \<longleftrightarrow> c = CHR ''{'' \<or> c = CHR ''[''"

definition close_byte :: "char \<Rightarrow> bool" where
  [byte_defs]: "close_byte c \<longleftrightarrow> c = CHR ''}'' \<or> c = CHR '']''"

definition lit_rest :: "bytes \<Rightarrow> bool" where
  "lit_rest w \<longleftrightarrow> w \<noteq> [] \<and> (\<forall>c \<in> set w. 97 \<le> bval c \<and> bval c \<le> 122)"

fun outside :: "jstep \<Rightarrow> bool" where
  "outside InString = False"
| "outside InStringEsc = False"
| "outside (InStringEscU n) = False"
| "outside ScanError = False"
| "outside (Lit w) = lit_rest w"
| "outside _ = True"

lemma scan_error [simp]: "scan (ScanError, st) t = (ScanError, st)"
  by (induction t) auto

lemma bval_letters: "97 \<le> bval c \<Longrightarrow> bval c \<le> 122 \<Longrightarrow>
    c \<noteq> CHR 0x22 \<and> \<not> open_byte c \<and> \<not> close_byte c \<and> \<not> atom_stop c"
  by (auto simp: byte_defs bval_def)

lemma bval_digit: "is_digit c \<Longrightarrow> c \<noteq> CHR 0x22 \<and> \<not> open_byte c \<and> \<not> close_byte c \<and> \<not> atom_stop c"
  by (auto simp: byte_defs bval_def)

definition outside_st :: "jscanner \<Rightarrow> bool" where
  "outside_st r \<longleftrightarrow> outside (fst r) \<and> (fst r = BeginStringOrEmpty \<longrightarrow> snd r \<noteq> []) \<and>
     (fst r = EndTop \<longrightarrow> snd r = [])"

definition step_ok :: "jparse list \<Rightarrow> char \<Rightarrow> jscanner \<Rightarrow> bool" where
  "step_ok st c r \<longleftrightarrow>
     fst r = ScanError \<or>
     (if c = CHR 0x22 then r = (InString, st)
      else if open_byte c then outside_st r \<and> snd r \<noteq> [] \<and> tl (snd r) = st
      else if close_byte c then st \<noteq> [] \<and> r = pop_state st
      else outside_st r \<and> tl (snd r) = tl st \<and> (snd r = [] \<longleftrightarrow> st = []))"

lemma error_ok [simp]: "step_ok st c (ScanError, st')"
  by (simp add: step_ok_def)

definition plain_byte :: "char \<Rightarrow> bool" where
  "plain_byte c \<longleftrightarrow> c \<noteq> CHR 0x22 \<and> \<not> open_byte c \<and> \<not> close_byte c"

lemma plain_bytes [simp]:
  "plain_byte (CHR '':'')" "plain_byte (CHR '','')" "plain_byte (CHR ''-'')" "plain_byte (CHR ''+'')"
  "plain_byte (CHR ''.'')" "plain_byte (CHR ''e'')" "plain_byte (CHR ''E'')" "plain_byte (CHR ''0'')"
  "plain_byte (CHR ''t'')" "plain_byte (CHR ''f'')" "plain_byte (CHR ''n'')"
  by (simp_all add: plain_byte_def open_byte_def close_byte_def)

lemma plain_digit [simp]: "is_digit c \<Longrightarrow> plain_byte c"
  using bval_digit [of c] by (simp add: plain_byte_def)

lemma plain_space [simp]: "is_json_space c \<Longrightarrow> plain_byte c"
  by (auto simp: plain_byte_def byte_defs)

lemma plain_ok:
  "plain_byte c \<Longrightarrow> outside_st r \<Longrightarrow> tl (snd r) = tl st \<Longrightarrow> (snd r = [] \<longleftrightarrow> st = []) \<Longrightarrow> step_ok st c r"
  by (simp add: step_ok_def plain_byte_def)

lemma outside_stI [simp]: "p \<noteq> BeginStringOrEmpty \<Longrightarrow> p \<noteq> EndTop \<Longrightarrow> outside_st (p, st) = outside p"
  by (simp add: outside_st_def)

lemma outside_top [simp]: "outside_st (EndTop, st) \<longleftrightarrow> st = []"
  by (simp add: outside_st_def)

lemma quote_ok [simp]: "step_ok st (CHR 0x22) (InString, st)"
  by (simp add: step_ok_def)

lemma push_ok: "open_byte c \<Longrightarrow> outside q \<Longrightarrow> q \<noteq> EndTop \<Longrightarrow> step_ok st c (push_state p q st)"
  by (auto simp: step_ok_def push_state_def outside_st_def open_byte_def)

lemma pop_ok: "close_byte c \<Longrightarrow> st \<noteq> [] \<Longrightarrow> step_ok st c (pop_state st)"
  by (auto simp: step_ok_def close_byte_def open_byte_def)

lemma end_top_ok: "step_ok [] c (end_top [] c)"
  by (simp add: end_top_def plain_ok)

lemma end_value_ok: "step_ok st c (end_value st c)"
proof (cases st)
  case Nil
  then show ?thesis by (simp add: end_value_def end_top_ok)
next
  case (Cons p ps)
  then show ?thesis
    using pop_ok [of "CHR ''}''" st] pop_ok [of "CHR '']''" st]
    by (cases p) (simp_all add: end_value_def plain_ok close_byte_def)
qed

lemma begin_value_ok: "step_ok st c (begin_value st c)"
  unfolding begin_value_def
  using push_ok [of "CHR ''{''" BeginStringOrEmpty st ObjectKey]
    push_ok [of "CHR ''[''" BeginValueOrEmpty st ArrayValue]
  by (simp add: plain_ok open_byte_def lit_rest_def bval_def)

lemma begin_string_ok: "step_ok st c (begin_string st c)"
  by (simp add: begin_string_def plain_ok)

lemma state0_ok: "step_ok st c (state0 st c)"
  by (simp add: state0_def plain_ok end_value_ok)

lemma e_sign_ok: "step_ok st c (e_sign st c)"
  by (simp add: e_sign_def plain_ok)

lemma end_object_ok:
  assumes "st \<noteq> []"
  shows "step_ok st (CHR ''}'') (end_value (ObjectValue # tl st) (CHR ''}''))"
proof -
  have "step_ok st c r = step_ok (ObjectValue # tl st) c r" if "close_byte c" for r c
    using assms that by (cases st) (auto simp: step_ok_def pop_state_def byte_defs)
  then show ?thesis using end_value_ok by (simp add: close_byte_def)
qed

lemma scan_step_ok:
  assumes "outside_st (p, st)"
  shows "step_ok st c (scan_step (p, st) c)"
proof (cases p)
  case BeginStringOrEmpty
  then show ?thesis using assms
    by (simp add: begin_string_ok end_object_ok plain_ok outside_st_def)
next
  case (Lit w)
  with assms obtain x xs where w: "w = x # xs" "97 \<le> bval x" "bval x \<le> 122" "xs \<noteq> [] \<Longrightarrow> lit_rest xs"
    by (cases w) (auto simp: lit_rest_def outside_st_def)
  with bval_letters [of x] have "plain_byte x" by (simp add: plain_byte_def)
  then show ?thesis using Lit w by (simp add: plain_ok)
next
  case EndTop
  then show ?thesis using assms end_top_ok by simp
qed (use assms in \<open>simp_all add: begin_value_ok begin_string_ok end_value_ok state0_ok e_sign_ok
    plain_ok\<close>)

section \<open>Accepting runs\<close>

definition accepts :: "jscanner \<Rightarrow> bool" where
  "accepts s \<longleftrightarrow> fst s = EndTop \<or> fst (scan_step s (CHR '' '')) = EndTop"

lemma json_valid_accepts: "json_valid b = accepts (scan (BeginValue, []) b)"
  by (simp add: json_valid_def accepts_def Let_def)

lemma accepts_error [simp]: "\<not> accepts (ScanError, st)"
  by (simp add: accepts_def)

lemma accepts_string [simp]:
  "\<not> accepts (InString, st)" "\<not> accepts (InStringEsc, st)" "\<not> accepts (InStringEscU n, st)"
  by (simp_all add: accepts_def hex_val_def bval_def)

lemma accepts_begin [simp]: "\<not> accepts (BeginValue, st)" "\<not> accepts (BeginString, st)"
  by (simp_all add: accepts_def begin_value_def begin_string_def is_json_space_def)

lemma accepts_ended: "accepts (EndValue, st) \<longleftrightarrow> st = []" "accepts (EndTop, st)"
  by (auto simp: accepts_def end_value_def end_top_def is_json_space_def split: list.splits jparse.splits)

lemma accepts_open_stack:
  assumes "outside_st (p, st)" and "st \<noteq> []"
  shows "\<not> accepts (p, st)"
proof
  assume a: "accepts (p, st)"
  have "step_ok st (CHR '' '') (scan_step (p, st) (CHR '' ''))" using scan_step_ok [OF assms(1)] .
  then have "fst (scan_step (p, st) (CHR '' '')) \<noteq> EndTop"
    using assms(2) by (auto simp: step_ok_def outside_st_def open_byte_def close_byte_def)
  moreover have "p \<noteq> EndTop" using assms by (auto simp: outside_st_def)
  ultimately show False using a by (simp add: accepts_def)
qed

lemma accepts_EndTop_scan: "accepts (scan (EndTop, []) s) \<longleftrightarrow> accepts (scan (EndValue, []) s)"
  by (cases s) (auto simp: accepts_ended end_value_def)

lemma accepts_EndTop_space: "accepts (scan (EndTop, []) s) \<longleftrightarrow> list_all is_json_space s"
  by (induction s) (auto simp: accepts_ended end_top_def)

lemma accepts_pop: "accepts (scan (pop_state (p # st)) s) \<longleftrightarrow> accepts (scan (EndValue, st) s)"
  by (simp add: pop_state_def accepts_EndTop_scan)

lemma string_reads:
  "accepts (scan (InString, st) s) \<Longrightarrow>
     \<exists>n. str_scan s = Some n \<and> accepts (scan (EndValue, st) (drop n s))"
proof (induction s rule: str_scan.induct)
  case (2 c)
  then show ?case by (auto split: if_splits)
next
  case (3 c d s)
  show ?case
  proof (cases "c = CHR 0x5C")
    case True
    have "accepts (scan (InString, st) s)"
    proof (cases "d = CHR ''u''")
      case True
      have skip: "accepts (scan (InStringEscU n, st) t) \<Longrightarrow> accepts (scan (InString, st) t)" for n t
      proof (induction t arbitrary: n)
        case (Cons x t)
        then have "hex_val x \<noteq> None" by (auto split: if_splits)
        then have "x \<noteq> CHR 0x22" and "x \<noteq> CHR 0x5C" and "\<not> bval x < 32"
          by (auto simp: hex_val_def bval_def split: if_splits)
        with Cons show ?case by (auto split: if_splits)
      qed simp
      show ?thesis using "3.prems" \<open>c = CHR 0x5C\<close> True skip by simp
    next
      case False
      with "3.prems" True show ?thesis by (auto split: if_splits)
    qed
    with 3(1) True show ?thesis by auto
  next
    case False
    with 3 show ?thesis by (auto split: if_splits)
  qed
qed simp

lemma cont_scan_quote:
  "str_scan t = Some n \<Longrightarrow>
     cont_scan d (CHR 0x22 # t) = map_option ((+) (Suc n)) (cont_scan d (drop n t))"
  by (simp add: cont_scan_Cons)

lemma cont_scan_open: "open_byte c \<Longrightarrow> cont_scan d (c # t) = map_option Suc (cont_scan (d + 1) t)"
  by (auto simp: cont_scan_Cons open_byte_def)

lemma cont_scan_close:
  "close_byte c \<Longrightarrow>
     cont_scan d (c # t) = (if d = 1 then Some 1 else map_option Suc (cont_scan (d - 1) t))"
  by (auto simp: cont_scan_Cons close_byte_def)

lemma cont_scan_plain: "plain_byte c \<Longrightarrow> cont_scan d (c # t) = map_option Suc (cont_scan d t)"
  by (auto simp: cont_scan_Cons plain_byte_def open_byte_def close_byte_def)

lemma byte_cases [case_names Quote Open Close Plain]:
  obtains "c = CHR 0x22" | "c \<noteq> CHR 0x22" "open_byte c"
    | "c \<noteq> CHR 0x22" "\<not> open_byte c" "close_byte c" | "plain_byte c"
  unfolding plain_byte_def by blast

text \<open>Inside a container the reader's depth is the part of the stack above \<open>base\<close>.\<close>

lemma container_reads:
  "outside_st (p, st) \<Longrightarrow> accepts (scan (p, st) s) \<Longrightarrow> 0 < d \<Longrightarrow> d \<le> length st \<Longrightarrow>
     \<exists>n. cont_scan (int d) s = Some n \<and> accepts (scan (EndValue, drop d st) (drop n s))"
proof (induction s arbitrary: d p st rule: length_induct)
  case (1 s)
  note IH = "1.IH" [rule_format]
  show ?case
  proof (cases s)
    case Nil
    with "1.prems" have "accepts (p, st)" "st \<noteq> []" by auto
    with accepts_open_stack [OF "1.prems"(1)] show ?thesis by blast
  next
    case (Cons c t)
    have ok: "step_ok st c (scan_step (p, st) c)" using scan_step_ok [OF "1.prems"(1)] .
    have acc: "accepts (scan (scan_step (p, st) c) t)" using "1.prems"(2) Cons by simp
    obtain q st' where q: "scan_step (p, st) c = (q, st')" by force
    have ne: "q \<noteq> ScanError" using acc q by auto
    have d: "0 < d" "d \<le> length st" using "1.prems" by auto
    show ?thesis
    proof (cases rule: byte_cases [of c])
      case Quote
      with ok q ne have "accepts (scan (InString, st) t)" using acc by (simp add: step_ok_def)
      from string_reads [OF this] obtain n where n: "str_scan t = Some n"
          "accepts (scan (EndValue, st) (drop n t))" by blast
      have "length (drop n t) < length s" "outside_st (EndValue, st)" using Cons by simp_all
      from IH [OF this n(2) d] obtain m where
        "cont_scan (int d) (drop n t) = Some m" "accepts (scan (EndValue, drop d st) (drop m (drop n t)))"
        by blast
      with n Quote Cons show ?thesis by (simp add: cont_scan_quote add.commute)
    next
      case Open
      then have st': "outside_st (q, st')" "st' \<noteq> []" "tl st' = st"
        using ok q ne by (auto simp: step_ok_def)
      then have dr: "drop (Suc d) st' = drop d st" "Suc d \<le> length st'"
        using d by (auto simp: drop_Suc neq_Nil_conv)
      have "length t < length s" using Cons by simp
      from IH [OF this st'(1) acc [unfolded q] _ dr(2)] obtain m where
        "cont_scan (int (Suc d)) t = Some m" "accepts (scan (EndValue, drop d st) (drop m t))"
        unfolding dr(1) by blast
      with Open Cons show ?thesis by (simp add: cont_scan_open add.commute)
    next
      case Close
      have pop: "scan_step (p, st) c = pop_state st" "st \<noteq> []"
        using ok q ne Close by (auto simp: step_ok_def)
      show ?thesis
      proof (cases "d = 1")
        case True
        then have "accepts (scan (EndValue, drop d st) t)"
          using acc pop accepts_pop [of "hd st" "tl st" t] by (simp add: drop_Suc)
        with Close Cons True show ?thesis by (simp add: cont_scan_close)
      next
        case False
        then have l: "tl st \<noteq> []" "0 < d - 1" "d - 1 \<le> length (tl st)" using d by (cases st; auto)+
        have dr: "drop (d - 1) (tl st) = drop d st" using d by (cases d) (auto simp: drop_Suc)
        have acc': "accepts (scan (EndValue, tl st) t)" using acc pop l by (simp add: pop_state_def)
        have "length t < length s" "outside_st (EndValue, tl st)" using Cons by simp_all
        from IH [OF this acc' l(2,3)] obtain m where
          "cont_scan (int (d - 1)) t = Some m" "accepts (scan (EndValue, drop d st) (drop m t))"
          unfolding dr by blast
        moreover have "int (d - 1) = int d - 1" using d(1) by simp
        ultimately have "cont_scan (int d - 1) t = Some m" by (simp only:)
        then show ?thesis using \<open>accepts (scan (EndValue, drop d st) (drop m t))\<close> Close Cons False
          by (simp add: cont_scan_close)
      qed
    next
      case Plain
      then have st': "outside_st (q, st')" "tl st' = tl st" "st' = [] \<longleftrightarrow> st = []"
        using ok q ne by (auto simp: step_ok_def plain_byte_def)
      then have dr: "drop d st' = drop d st" "d \<le> length st'"
        using d by (cases d; cases st; cases st'; simp)+
      have "length t < length s" using Cons by simp
      from IH [OF this st'(1) acc [unfolded q] d(1) dr(2)] obtain m where
        "cont_scan (int d) t = Some m" "accepts (scan (EndValue, drop d st) (drop m t))"
        unfolding dr(1) by blast
      with Plain Cons show ?thesis by (simp add: cont_scan_plain)
    qed
  qed
qed

section \<open>Literals and numbers\<close>

fun in_atom :: "jstep \<Rightarrow> bool" where
  "in_atom Neg = True"
| "in_atom State1 = True"
| "in_atom State0 = True"
| "in_atom Dot = True"
| "in_atom Dot0 = True"
| "in_atom StateE = True"
| "in_atom StateESign = True"
| "in_atom StateE0 = True"
| "in_atom (Lit w) = lit_rest w"
| "in_atom _ = False"

lemma isSpace_json: "isSpace = is_json_space"
  by (auto simp: isSpace_def is_json_space_def fun_eq_iff)

lemma end_value_not_stop: "\<not> atom_stop c \<Longrightarrow> fst (end_value st c) = ScanError"
  by (cases st; cases "hd st")
    (auto simp: end_value_def end_top_def atom_stop_def isSpace_json is_json_space_def)

lemma stop_not_digit: "atom_stop c \<Longrightarrow> \<not> is_digit c \<and> c \<noteq> CHR ''.'' \<and> c \<noteq> CHR ''e'' \<and> c \<noteq> CHR ''E''
    \<and> c \<noteq> CHR ''0'' \<and> c \<noteq> CHR ''+'' \<and> c \<noteq> CHR ''-''"
  by (auto simp: byte_defs bval_def)

text \<open>An atom's last state and the end of a value step alike on the byte that stops it.\<close>

lemma atom_step_stop:
  "in_atom p \<Longrightarrow> atom_stop c \<Longrightarrow>
     fst (scan_step (p, st) c) = ScanError \<or> scan_step (p, st) c = end_value st c"
  using stop_not_digit [of c] bval_letters
  by (cases p) (auto simp: e_sign_def state0_def lit_rest_def split: list.splits)

lemma atom_step_go:
  "in_atom p \<Longrightarrow> \<not> atom_stop c \<Longrightarrow>
     fst (scan_step (p, st) c) = ScanError \<or>
     (\<exists>q. scan_step (p, st) c = (q, st) \<and> (in_atom q \<and> (\<forall>w. q = Lit w \<longrightarrow> p = Lit (c # w) \<and> w \<noteq> [])
        \<and> (\<forall>w. p = Lit w \<longrightarrow> q = Lit (tl w) \<and> w \<noteq> [])
        \<or> q = EndValue \<and> p = Lit [c]))"
  using end_value_not_stop [of c st]
  by (cases p) (auto simp: e_sign_def state0_def lit_rest_def split: list.splits)

lemma accepts_scanD: "accepts (scan r s) \<Longrightarrow> fst r \<noteq> ScanError"
  by (metis accepts_error prod.collapse scan_error)

lemma accepts_stop: "accepts (scan (EndValue, st) s) \<Longrightarrow> s = [] \<or> atom_stop (hd s)"
proof (cases s)
  case (Cons c t)
  assume a: "accepts (scan (EndValue, st) s)"
  then show ?thesis using Cons end_value_not_stop [of c st] accepts_scanD by fastforce
qed simp

lemma accepts_atom: "in_atom p \<Longrightarrow> accepts (p, st) \<Longrightarrow> accepts (EndValue, st) \<and> (\<forall>w. p \<noteq> Lit w)"
  by (cases p) (auto simp: accepts_def e_sign_def state0_def is_digit_def bval_def lit_rest_def
      split: list.splits if_splits)

lemma atom_reads:
  "in_atom p \<Longrightarrow> accepts (scan (p, st) s) \<Longrightarrow>
     accepts (scan (EndValue, st) (dropWhile (\<lambda>c. \<not> atom_stop c) s)) \<and>
     (\<forall>w. p = Lit w \<longrightarrow> takeWhile (\<lambda>c. \<not> atom_stop c) s = w)"
proof (induction s arbitrary: p)
  case Nil
  with accepts_atom [of p st] show ?case by auto
next
  case (Cons c s)
  have acc: "accepts (scan (scan_step (p, st) c) s)" using Cons.prems by simp
  then have ne: "fst (scan_step (p, st) c) \<noteq> ScanError" by (rule accepts_scanD)
  show ?case
  proof (cases "atom_stop c")
    case True
    have "scan_step (p, st) c = end_value st c"
      using atom_step_stop [OF Cons.prems(1) True] ne by blast
    with acc have "accepts (scan (EndValue, st) (c # s))" by simp
    moreover have "p \<noteq> Lit w" for w
      using ne Cons.prems(1) True bval_letters [of c]
      by (auto simp: lit_rest_def split: list.splits if_splits)
    ultimately show ?thesis using True by simp
  next
    case False
    from atom_step_go [OF Cons.prems(1) False, of st] ne obtain q where
      q: "scan_step (p, st) c = (q, st)" and
      c: "in_atom q \<and> (\<forall>w. q = Lit w \<longrightarrow> p = Lit (c # w) \<and> w \<noteq> [])
          \<and> (\<forall>w. p = Lit w \<longrightarrow> q = Lit (tl w) \<and> w \<noteq> []) \<or> q = EndValue \<and> p = Lit [c]" by blast
    from c show ?thesis
    proof
      assume a: "in_atom q \<and> (\<forall>w. q = Lit w \<longrightarrow> p = Lit (c # w) \<and> w \<noteq> [])
          \<and> (\<forall>w. p = Lit w \<longrightarrow> q = Lit (tl w) \<and> w \<noteq> [])"
      then show ?thesis using Cons.IH [of q] acc q False by auto
    next
      assume a: "q = EndValue \<and> p = Lit [c]"
      with acc q have "accepts (scan (EndValue, st) s)" by simp
      with accepts_stop [OF this] a False show ?thesis by (cases s) auto
    qed
  qed
qed

lemma atom_plain:
  "in_atom p \<Longrightarrow> accepts (scan (p, st) s) \<Longrightarrow>
     list_all plain_byte (takeWhile (\<lambda>c. \<not> atom_stop c) s)"
proof (induction s arbitrary: p)
  case (Cons c s)
  show ?case
  proof (cases "atom_stop c")
    case False
    have acc: "accepts (scan (scan_step (p, st) c) s)" using Cons.prems by simp
    then have "fst (scan_step (p, st) c) \<noteq> ScanError" by (rule accepts_scanD)
    then obtain q where q: "scan_step (p, st) c = (q, st)" and c: "in_atom q \<or> q = EndValue"
      using atom_step_go [OF Cons.prems(1) False, of st] by auto
    have "outside_st (p, st)" using Cons.prems(1) by (cases p) (auto simp: outside_st_def)
    from scan_step_ok [OF this, of c] q c have "plain_byte c"
      by (cases st) (auto simp: step_ok_def plain_byte_def pop_state_def split: if_splits)
    moreover have "list_all plain_byte (takeWhile (\<lambda>c. \<not> atom_stop c) s)"
    proof (cases "q = EndValue")
      case True
      with accepts_stop acc q have "s = [] \<or> atom_stop (hd s)" by simp
      then show ?thesis by (cases s) auto
    next
      case False
      with Cons.IH [of q] acc q c show ?thesis by simp
    qed
    ultimately show ?thesis using False by simp
  qed simp
qed simp

section \<open>One value\<close>

lemma value_len_container:
  "open_byte c \<Longrightarrow> value_len (c # t) = map_option Suc (cont_scan 1 t)"
  by (auto simp: value_len_def open_byte_def cont_scan_Cons)

lemma is_digit_0: "is_digit (CHR ''0'')"
  by (simp add: is_digit_def bval_def)

lemma begin_value_cases:
  "fst (begin_value st c) \<noteq> ScanError \<Longrightarrow> \<not> is_json_space c \<Longrightarrow>
     c = CHR 0x22 \<or> open_byte c \<or>
     (c \<noteq> CHR 0x22 \<and> \<not> open_byte c \<and> \<not> atom_stop c \<and>
      (\<exists>p. in_atom p \<and> begin_value st c = (p, st) \<and>
        ((\<exists>w. p = Lit w \<and> (c # w = ''true'' \<or> c # w = ''false'' \<or> c # w = ''null'')) \<or>
           c = CHR ''-'' \<or> is_digit c)))"
  using bval_digit [of c] is_digit_0
  by (auto simp: begin_value_def open_byte_def lit_rest_def bval_def atom_stop_def isSpace_json
      is_json_space_def split: if_splits)

lemma value_reads:
  assumes "accepts (scan (BeginValue, st) s)" and "s = [] \<or> \<not> is_json_space (hd s)"
  shows "\<exists>n. value_len s = Some n \<and> 0 < n \<and> accepts (scan (EndValue, st) (drop n s))"
proof (cases s)
  case Nil
  with assms(1) show ?thesis by simp
next
  case (Cons c t)
  have nsp: "\<not> is_json_space c" using assms(2) Cons by simp
  have acc: "accepts (scan (begin_value st c) t)" using assms(1) Cons by simp
  then have ne: "fst (begin_value st c) \<noteq> ScanError" by (rule accepts_scanD)
  consider (quote) "c = CHR 0x22" | (opn) "open_byte c"
    | (atom) p where "c \<noteq> CHR 0x22" "\<not> open_byte c" "\<not> atom_stop c" "in_atom p" "begin_value st c = (p, st)"
        "(\<exists>w. p = Lit w \<and> (c # w = ''true'' \<or> c # w = ''false'' \<or> c # w = ''null'')) \<or>
           c = CHR ''-'' \<or> is_digit c"
    using begin_value_cases [OF ne nsp] by blast
  then show ?thesis
  proof cases
    case quote
    with acc nsp have "accepts (scan (InString, st) t)" by (simp add: begin_value_def)
    from string_reads [OF this] quote Cons show ?thesis by (auto simp: value_len_def)
  next
    case opn
    then obtain p q where b: "begin_value st c = push_state p q st" "outside q" "q \<noteq> EndTop"
      using nsp by (auto simp: begin_value_def open_byte_def)
    with ne have bv: "begin_value st c = (q, p # st)" by (auto simp: push_state_def)
    have "outside_st (q, p # st)" using b by (auto simp: outside_st_def)
    from container_reads [OF this, of t 1] acc bv obtain n where
      "cont_scan 1 t = Some n" "accepts (scan (EndValue, st) (drop n t))" by auto
    with opn Cons show ?thesis by (simp add: value_len_container)
  next
    case (atom p)
    let ?w = "takeWhile (\<lambda>c. \<not> atom_stop c) t"
    have r: "accepts (scan (EndValue, st) (dropWhile (\<lambda>c. \<not> atom_stop c) t))"
        "\<And>w. p = Lit w \<Longrightarrow> ?w = w"
      using atom_reads [OF atom(4)] acc atom(5) by auto
    then have "atom_word (c # ?w)" using atom(6) by (auto simp: atom_word_def)
    then have "value_len s = Some (Suc (length ?w))"
      using atom(1,2,3) Cons by (simp add: value_len_def open_byte_def)
    then show ?thesis using r(1) Cons by (simp add: dropWhile_eq_drop)
  qed
qed

section \<open>The index-based reader on a valid text\<close>

lemma scan_skipSpace:
  "(\<And>c. is_json_space c \<Longrightarrow> scan_step s c = s) \<Longrightarrow> i \<le> length b \<Longrightarrow>
     scan s (drop (skipSpace b i) b) = scan s (drop i b)"
proof (induction b i rule: skipSpace.induct)
  case (1 b i)
  show ?case
  proof (cases "i < length b \<and> isSpace (b ! i)")
    case True
    then have d: "drop i b = b ! i # drop (Suc i) b" by (simp add: Cons_nth_drop_Suc)
    have "skipSpace b i = skipSpace b (Suc i)" using True by (subst skipSpace.simps) simp
    then show ?thesis using True 1 by (simp add: d isSpace_json)
  next
    case False
    then have "skipSpace b i = i" by (subst skipSpace.simps) auto
    then show ?thesis by simp
  qed
qed

lemma scan_skip_simps:
  "i \<le> length b \<Longrightarrow> scan (BeginValue, st) (drop (skipSpace b i) b) = scan (BeginValue, st) (drop i b)"
  "i \<le> length b \<Longrightarrow> scan (BeginString, st) (drop (skipSpace b i) b) = scan (BeginString, st) (drop i b)"
  "i \<le> length b \<Longrightarrow>
     scan (EndValue, q # st) (drop (skipSpace b i) b) = scan (EndValue, q # st) (drop i b)"
  by (rule scan_skipSpace; simp add: begin_value_def begin_string_def end_value_def)+

lemma drop_skipSpace_hd: "i \<le> length b \<Longrightarrow>
   drop (skipSpace b i) b = [] \<or> \<not> is_json_space (hd (drop (skipSpace b i) b))"
  using skipSpace_stop [of b i] by (auto simp: isSpace_json hd_drop_conv_nth not_le)

text \<open>After a value inside a container: the separator the scanner takes next.\<close>

lemma after_value:
  assumes "accepts (scan (EndValue, q # st) (drop i b))" and "i \<le> length b"
  obtains j where "j = skipSpace b i" "j < length b" "\<not> isSpace (b ! j)"
    "accepts (scan (end_value (q # st) (b ! j)) (drop (Suc j) b))"
proof -
  define j where "j = skipSpace b i"
  have a: "accepts (scan (EndValue, q # st) (drop j b))"
    using assms by (simp add: j_def scan_skip_simps)
  then have l: "j < length b" by (rule_tac ccontr) (simp add: accepts_ended)
  then have "drop j b = b ! j # drop (Suc j) b" by (simp add: Cons_nth_drop_Suc)
  with a l show ?thesis using that [OF j_def] skipSpace_stop [of b i] by (simp add: j_def)
qed

lemma value_at_reads:
  assumes "accepts (scan (BeginValue, st) (drop i b))" and "i \<le> length b"
  shows "\<exists>e. valueEnd b (skipSpace b i) = Some e \<and> skipSpace b i < e \<and> e \<le> length b \<and>
     accepts (scan (EndValue, st) (drop e b))"
proof -
  let ?j = "skipSpace b i"
  have j: "?j \<le> length b" using assms(2) by (rule skipSpace_le)
  have "accepts (scan (BeginValue, st) (drop ?j b))" using assms by (simp add: scan_skip_simps)
  from value_reads [OF this drop_skipSpace_hd [OF assms(2)]] obtain n where
    n: "value_len (drop ?j b) = Some n" "0 < n" "accepts (scan (EndValue, st) (drop n (drop ?j b)))"
    by blast
  then have "valueEnd b ?j = Some (?j + n)" using j by (simp add: valueEnd_scan)
  with n valueEnd_bounds [OF this] show ?thesis by (auto simp: add.commute)
qed

lemma string_at_reads:
  assumes "accepts (scan (BeginString, st) (drop i b))" and "i \<le> length b" and "\<not> isSpace (b ! i)"
  shows "i < length b \<and> b ! i = CHR 0x22 \<and> (\<exists>k. stringEnd b i = Some k \<and> Suc i < k \<and> k \<le> length b \<and>
     accepts (scan (EndValue, st) (drop k b)))"
proof -
  have l: "i < length b" using assms(1) by (rule_tac ccontr) simp
  then have d: "drop i b = b ! i # drop (Suc i) b" by (simp add: Cons_nth_drop_Suc)
  then have a: "accepts (scan (begin_string st (b ! i)) (drop (Suc i) b))" using assms(1) by simp
  then have q: "b ! i = CHR 0x22" "begin_string st (b ! i) = (InString, st)"
    using accepts_scanD [OF a] assms(3) by (auto simp: begin_string_def isSpace_json split: if_splits)
  from string_reads [of st "drop (Suc i) b"] a q obtain n where
    n: "str_scan (drop (Suc i) b) = Some n" "accepts (scan (EndValue, st) (drop n (drop (Suc i) b)))"
    by auto
  then have "stringEnd b i = Some (Suc i + n)" using l q by (simp add: stringEnd_scan)
  with n q l stringEnd_bounds [OF this] show ?thesis by (auto simp: add.commute)
qed

lemma after_key:
  assumes "accepts (scan (EndValue, ObjectKey # st) (drop i b))" and "i \<le> length b"
  shows "skipSpace b i < length b \<and> b ! skipSpace b i = CHR '':'' \<and>
     accepts (scan (BeginValue, ObjectValue # st) (drop (Suc (skipSpace b i)) b))"
  using assms
proof (rule after_value)
  fix j assume j: "j = skipSpace b i" "j < length b" "\<not> isSpace (b ! j)"
    "accepts (scan (end_value (ObjectKey # st) (b ! j)) (drop (Suc j) b))"
  then show ?thesis using accepts_scanD [OF j(4)]
    by (auto simp: end_value_def isSpace_json split: if_splits)
qed

lemma after_member:
  assumes "accepts (scan (EndValue, ObjectValue # st) (drop i b))" and "i \<le> length b"
  shows "skipSpace b i < length b \<and>
     (b ! skipSpace b i = CHR ''}'' \<and> accepts (scan (EndValue, st) (drop (Suc (skipSpace b i)) b)) \<or>
      b ! skipSpace b i = CHR '','' \<and>
        accepts (scan (BeginString, ObjectKey # st) (drop (Suc (skipSpace b i)) b)))"
  using assms
proof (rule after_value)
  fix j assume j: "j = skipSpace b i" "j < length b" "\<not> isSpace (b ! j)"
    "accepts (scan (end_value (ObjectValue # st) (b ! j)) (drop (Suc j) b))"
  then show ?thesis using accepts_scanD [OF j(4)] accepts_pop [of ObjectValue st]
    by (auto simp: end_value_def isSpace_json split: if_splits)
qed

lemma after_item:
  assumes "accepts (scan (EndValue, ArrayValue # st) (drop i b))" and "i \<le> length b"
  shows "skipSpace b i < length b \<and>
     (b ! skipSpace b i = CHR '']'' \<and> accepts (scan (EndValue, st) (drop (Suc (skipSpace b i)) b)) \<or>
      b ! skipSpace b i = CHR '','' \<and>
        accepts (scan (BeginValue, ArrayValue # st) (drop (Suc (skipSpace b i)) b)))"
  using assms
proof (rule after_value)
  fix j assume j: "j = skipSpace b i" "j < length b" "\<not> isSpace (b ! j)"
    "accepts (scan (end_value (ArrayValue # st) (b ! j)) (drop (Suc j) b))"
  then show ?thesis using accepts_scanD [OF j(4)] accepts_pop [of ArrayValue st]
    by (auto simp: end_value_def isSpace_json split: if_splits)
qed

lemma objectAt_members_reads:
  "accepts (scan (BeginString, ObjectKey # st) (drop i b)) \<Longrightarrow> i \<le> length b \<Longrightarrow>
   (i < length b \<Longrightarrow> \<not> isSpace (b ! i)) \<Longrightarrow>
     \<exists>d e. objectAt_members b i dst = (d, e, True) \<and> accepts (scan (EndValue, st) (drop e b))"
proof (induction b i dst rule: objectAt_members.induct)
  case (1 b i dst)
  from "1.prems" have "i < length b" by (rule_tac ccontr) simp
  with string_at_reads [OF "1.prems"(1,2)] "1.prems"(3) obtain k where
    i: "i < length b" "b ! i = CHR 0x22" and
    k: "stringEnd b i = Some k" "k \<le> length b" "accepts (scan (EndValue, ObjectKey # st) (drop k b))"
    by blast
  define c where "c = skipSpace b k"
  from after_key [OF k(3,2)] have c: "c < length b" "b ! c = CHR '':''"
    "accepts (scan (BeginValue, ObjectValue # st) (drop (Suc c) b))" by (auto simp: c_def)
  define v where "v = skipSpace b (Suc c)"
  from value_at_reads [OF c(3)] c(1) obtain e where
    e: "valueEnd b v = Some e" "e \<le> length b" "accepts (scan (EndValue, ObjectValue # st) (drop e b))"
    by (auto simp: v_def)
  define s where "s = skipSpace b e"
  define dst' where "dst' = dst @ [\<lparr>kv_key = slice b (Suc i) (k - 1), kv_val = slice b v e\<rparr>]"
  have step: "objectAt_members b i dst =
      (if b ! s = CHR ''}'' then (dst', Suc s, True)
       else if b ! s \<noteq> CHR '','' then (dst', 0, False)
       else objectAt_members b (skipSpace b (Suc s)) dst')"
    using i k c e after_member [OF e(3,2)]
    by (subst objectAt_members.simps) (simp add: c_def v_def s_def dst'_def Let_def)
  from after_member [OF e(3,2)] consider
      "b ! s = CHR ''}''" "accepts (scan (EndValue, st) (drop (Suc s) b))"
    | "b ! s = CHR '',''" "accepts (scan (BeginString, ObjectKey # st) (drop (Suc s) b))"
    by (auto simp: s_def)
  then show ?case
  proof cases
    case 1
    with step show ?thesis by simp
  next
    case 2
    have s: "s < length b" using after_member [OF e(3,2)] by (simp add: s_def)
    have "accepts (scan (BeginString, ObjectKey # st) (drop (skipSpace b (Suc s)) b))"
      using 2 s by (simp add: scan_skip_simps)
    then have "\<exists>d e. objectAt_members b (skipSpace b (Suc s)) dst' = (d, e, True) \<and>
        accepts (scan (EndValue, st) (drop e b))"
      using "1.IH" [OF i(1) _ k(1) refl c_def _ v_def e(1) dst'_def s_def] i c s 2
        skipSpace_le [of "Suc s" b] skipSpace_stop [of b "Suc s"]
      by simp
    with 2 step show ?thesis by simp
  qed
qed

lemma objectAt_reads:
  assumes "accepts (scan (BeginValue, st) (drop i b))" and "i < length b" and "b ! i = CHR ''{''"
  shows "\<exists>d e. objectAt b i dst = (d, e, True) \<and> accepts (scan (EndValue, st) (drop e b))"
proof -
  have "drop i b = b ! i # drop (Suc i) b" using assms(2) by (simp add: Cons_nth_drop_Suc)
  then have a: "accepts (scan (push_state ObjectKey BeginStringOrEmpty st) (drop (Suc i) b))"
    using assms by (simp add: begin_value_def is_json_space_def)
  then have "fst (push_state ObjectKey BeginStringOrEmpty st) \<noteq> ScanError" by (rule accepts_scanD)
  with a have b: "accepts (scan (BeginStringOrEmpty, ObjectKey # st) (drop (Suc i) b))"
    by (auto simp: push_state_def split: if_splits)
  define j where "j = skipSpace b (Suc i)"
  have jl: "j \<le> length b" using assms(2) by (simp add: j_def skipSpace_le)
  have c: "accepts (scan (BeginStringOrEmpty, ObjectKey # st) (drop j b))"
    using b assms(2) scan_skipSpace [of "(BeginStringOrEmpty, ObjectKey # st)" "Suc i" b]
    by (simp add: j_def)
  then have "j < length b"
    by (rule_tac ccontr) (simp add: accepts_def begin_string_def is_json_space_def)
  then have d: "drop j b = b ! j # drop (Suc j) b" by (simp add: Cons_nth_drop_Suc)
  have ns: "\<not> isSpace (b ! j)" using \<open>j < length b\<close> skipSpace_stop by (simp add: j_def)
  show ?thesis
  proof (cases "b ! j = CHR ''}''")
    case True
    then have "accepts (scan (EndValue, st) (drop (Suc j) b))"
      using c d accepts_pop [of ObjectValue st] by (simp add: is_json_space_def end_value_def)
    then show ?thesis using True \<open>j < length b\<close> by (simp add: objectAt_def Let_def j_def)
  next
    case False
    then have "accepts (scan (BeginString, ObjectKey # st) (drop j b))"
      using c d ns by (simp add: isSpace_json)
    from objectAt_members_reads [OF this jl ns, of dst] show ?thesis
      using False by (simp add: objectAt_def Let_def j_def)
  qed
qed

lemma arrayItems_from_reads:
  "accepts (scan (BeginValue, [ArrayValue]) (drop i b)) \<Longrightarrow> i \<le> length b \<Longrightarrow>
   skipSpace b i = i \<Longrightarrow> \<not> is_json_space (last b) \<Longrightarrow>
     \<exists>d. arrayItems_from b i dst = (d, True)"
proof (induction b i dst rule: arrayItems_from.induct)
  case (1 b i dst)
  from value_at_reads [OF "1.prems"(1,2)] "1.prems"(3) obtain e where
    e: "valueEnd b i = Some e" "e \<le> length b" "accepts (scan (EndValue, [ArrayValue]) (drop e b))"
    by auto
  define s where "s = skipSpace b e"
  define dst' where "dst' = dst @ [slice b i e]"
  note sep = after_item [OF e(3,2), folded s_def]
  have step: "arrayItems_from b i dst =
      (if b ! s = CHR '']'' then (dst', s = length b - 1)
       else if b ! s \<noteq> CHR '','' then (dst', False)
       else arrayItems_from b (skipSpace b (Suc s)) dst')"
    using e sep by (subst arrayItems_from.simps) (simp add: s_def dst'_def Let_def)
  from sep consider
      "b ! s = CHR '']''" "accepts (scan (EndValue, []) (drop (Suc s) b))"
    | "b ! s = CHR '',''" "accepts (scan (BeginValue, [ArrayValue]) (drop (Suc s) b))"
    by auto
  then show ?case
  proof cases
    case 1
    have "s = length b - 1"
    proof (rule ccontr)
      assume "s \<noteq> length b - 1"
      with sep have "Suc s < length b" by auto
      moreover have "list_all is_json_space (drop (Suc s) b)"
        using 1(2) by (simp add: accepts_EndTop_scan [symmetric] accepts_EndTop_space)
      ultimately have "is_json_space (last (drop (Suc s) b))"
        unfolding list_all_iff using last_in_set [of "drop (Suc s) b"] by force
      then show False using "1.prems"(4) \<open>Suc s < length b\<close> by (simp add: last_drop)
    qed
    with step 1 show ?thesis by simp
  next
    case 2
    have "skipSpace b (skipSpace b (Suc s)) = skipSpace b (Suc s)"
      using skipSpace_stop [of b "Suc s"] by (cases "skipSpace b (Suc s) < length b") (auto intro: skipSpace_id)
    then have "\<exists>d. arrayItems_from b (skipSpace b (Suc s)) dst' = (d, True)"
      using "1.IH" [OF e(1) dst'_def s_def] 2 sep "1.prems"(4) skipSpace_le [of "Suc s" b]
      by (simp add: scan_skip_simps)
    with 2 step show ?thesis by simp
  qed
qed

lemma arrayItems_from_close: "arrayItems_from b i dst = (d, True) \<Longrightarrow> b ! (length b - 1) = CHR '']''"
proof (induction b i dst rule: arrayItems_from.induct)
  case (1 b i dst)
  from "1.prems" obtain e where e: "valueEnd b i = Some e"
    by (subst (asm) arrayItems_from.simps) (auto split: option.splits)
  show ?case using "1.prems" "1.IH" [OF e refl refl] e
    by (subst (asm) arrayItems_from.simps) (auto simp: Let_def split: if_splits)
qed

lemma array_open:
  assumes "accepts (scan (BeginValue, st) (CHR ''['' # t))"
  shows "accepts (scan (BeginValueOrEmpty, ArrayValue # st) t)"
proof -
  have a: "accepts (scan (push_state ArrayValue BeginValueOrEmpty st) t)"
    using assms by (simp add: begin_value_def is_json_space_def)
  then have "fst (push_state ArrayValue BeginValueOrEmpty st) \<noteq> ScanError" by (rule accepts_scanD)
  with a show ?thesis by (auto simp: push_state_def split: if_splits)
qed

lemma strip_json_space_decomp:
  assumes "list_all is_json_space x" and "list_all is_json_space y"
    and "v \<noteq> []" and "\<not> is_json_space (hd v)" and "\<not> is_json_space (last v)"
  shows "strip_json_space (x @ v @ y) = v"
proof -
  have "dropWhile is_json_space (x @ v @ y) = v @ y"
    using assms by (cases v) (auto simp: list_all_iff dropWhile_append2)
  moreover have "dropWhile is_json_space (rev y @ rev v) = dropWhile is_json_space (rev v)"
    using assms by (intro dropWhile_append2) (simp add: list_all_iff)
  moreover have "dropWhile is_json_space (rev v) = rev v"
    using assms by (cases v rule: rev_cases) auto
  ultimately show ?thesis by (simp add: strip_json_space_def)
qed

lemma cont_scan_pos: "cont_scan d s = Some n \<Longrightarrow> 0 < n"
  by (cases s) (auto simp: cont_scan_Nil cont_scan_Cons split: if_splits option.splits)

lemma cont_scan_last: "cont_scan d s = Some n \<Longrightarrow> close_byte (s ! (n - 1))"
proof (induction s arbitrary: d n rule: length_induct)
  case (1 s)
  note IH = "1.IH" [rule_format]
  obtain c t where s: "s = c # t" using "1.prems" by (cases s) (auto simp: cont_scan_Nil)
  have sub: "close_byte (s ! (k + m))" if "drop k s = u" "length u < length s" "cont_scan e u = Some (Suc m)"
    for k e m u
  proof -
    have "k \<le> length s" using that(1,3) by (rule_tac ccontr) (auto simp: cont_scan_Nil)
    with IH [OF that(2,3)] that(1) show ?thesis by auto
  qed
  show ?case
  proof (cases rule: byte_cases [of c])
    case Quote
    then obtain k m where k: "str_scan t = Some k" "cont_scan d (drop k t) = Some m" "n = Suc k + m"
      using "1.prems" s by (auto simp: cont_scan_Cons split: option.splits)
    then obtain m' where "m = Suc m'" using cont_scan_pos by (cases m) blast+
    then show ?thesis using sub [of "Suc k" "drop k t" d m'] k s by simp
  next
    case Open
    then obtain m where m: "cont_scan (d + 1) t = Some m" "n = Suc m"
      using "1.prems" s by (auto simp: cont_scan_open)
    then obtain m' where "m = Suc m'" using cont_scan_pos by (cases m) blast+
    then show ?thesis using sub [of 1 t "d + 1" m'] m s by simp
  next
    case Close
    show ?thesis
    proof (cases "d = 1")
      case True
      then show ?thesis using Close "1.prems" s by (simp add: cont_scan_close)
    next
      case False
      then obtain m where m: "cont_scan (d - 1) t = Some m" "n = Suc m"
        using "1.prems" s Close by (auto simp: cont_scan_close)
      then obtain m' where "m = Suc m'" using cont_scan_pos by (cases m) blast+
      then show ?thesis using sub [of 1 t "d - 1" m'] m s by simp
    qed
  next
    case Plain
    then obtain m where m: "cont_scan d t = Some m" "n = Suc m"
      using "1.prems" s by (auto simp: cont_scan_plain)
    then obtain m' where "m = Suc m'" using cont_scan_pos by (cases m) blast+
    then show ?thesis using sub [of 1 t d m'] m s by simp
  qed
qed

lemma value_len_last:
  assumes "value_len s = Some n" and "0 < n"
  shows "\<not> is_json_space (s ! (n - 1)) \<and> n \<le> length s"
proof -
  have v: "valueEnd s 0 = Some n" using assms(1) by (simp add: valueEnd_scan option.map_ident)
  then have le: "n \<le> length s" using valueEnd_bounds by blast
  obtain c t where s: "s = c # t" using assms(1) by (cases s) (auto simp: value_len_def)
  have "\<not> is_json_space (s ! (n - 1))"
  proof (cases "c = CHR 0x22")
    case True
    with assms s obtain m where "n = Suc m" "str_scan t = Some m"
      by (auto simp: value_len_def)
    with str_scan_bounds [OF this(2)] s show ?thesis
      by (cases m) (auto simp: is_json_space_def)
  next
    case False
    show ?thesis
    proof (cases "open_byte c")
      case True
      with assms s have "cont_scan 0 s = Some n" by (auto simp: value_len_def open_byte_def)
      then have "close_byte (s ! (n - 1))" by (rule cont_scan_last)
      then show ?thesis by (auto simp: byte_defs)
    next
      case no: False
      let ?w = "takeWhile (\<lambda>c. \<not> atom_stop c) s"
      from assms s False no have n: "n = length ?w"
        by (auto simp: value_len_def open_byte_def Let_def split: if_splits)
      then have "s ! (n - 1) = last ?w" "?w \<noteq> []"
        using assms(2) by (auto simp: last_conv_nth takeWhile_nth)
      then have "\<not> atom_stop (s ! (n - 1))" using set_takeWhileD [of "last ?w"] last_in_set by metis
      then show ?thesis by (simp add: atom_stop_def isSpace_json)
    qed
  qed
  with le show ?thesis by simp
qed

lemma accepts_begin_empty [simp]: "\<not> accepts (BeginStringOrEmpty, st)" "\<not> accepts (BeginValueOrEmpty, st)"
  by (simp_all add: accepts_def is_json_space_def)

lemma end_value_space: "is_json_space c \<Longrightarrow> end_value st c = (if st = [] then (EndTop, []) else (EndValue, st))"
  by (cases st) (simp_all add: end_value_def end_top_def)

definition lit_ok :: "jscanner \<Rightarrow> bool" where
  "lit_ok s \<longleftrightarrow> (\<forall>w. fst s = Lit w \<longrightarrow> lit_rest w)"

lemma lit_ok_step: "lit_ok s \<Longrightarrow> lit_ok (scan_step s c)"
proof -
  have ev: "lit_ok (end_value st d)" for st d
    by (cases st; cases "hd st") (auto simp: lit_ok_def end_value_def end_top_def pop_state_def)
  have bv: "lit_ok (begin_value st d)" for st d
    by (auto simp: lit_ok_def begin_value_def push_state_def lit_rest_def bval_def)
  have bs: "lit_ok (begin_string st d)" for st d
    by (auto simp: lit_ok_def begin_string_def)
  obtain p st where s: "s = (p, st)" by force
  have st0: "lit_ok (state0 st c)" using ev [of st c] by (auto simp: lit_ok_def state0_def)
  assume "lit_ok s"
  then show ?thesis unfolding s using ev bv bs st0
    by (cases p) (auto simp: lit_ok_def e_sign_def end_top_def lit_rest_def split: list.splits)
qed

lemma lit_ok_scan: "lit_ok s \<Longrightarrow> lit_ok (scan s b)"
  by (induction b arbitrary: s) (auto simp: lit_ok_step)

lemma space_step:
  "is_json_space c \<Longrightarrow> p \<noteq> InString \<Longrightarrow> lit_ok (p, st) \<Longrightarrow>
     scan_step (p, st) c = scan_step (p, st) (CHR '' '')"
  by (cases p)
    (auto simp: is_json_space_def begin_value_def begin_string_def end_value_space state0_def e_sign_def
      end_top_def is_digit_def hex_val_def bval_def lit_ok_def lit_rest_def split: list.splits)

lemma accepts_step_space:
  "lit_ok (p, st) \<Longrightarrow> accepts (scan_step (p, st) (CHR '' '')) \<Longrightarrow>
     fst (scan_step (p, st) (CHR '' '')) = EndTop"
  by (cases p)
    (auto simp: is_json_space_def begin_value_def begin_string_def end_value_space state0_def e_sign_def
      end_top_def is_digit_def hex_val_def bval_def accepts_ended lit_ok_def lit_rest_def
      split: list.splits if_splits)

lemma accepts_back:
  "is_json_space c \<Longrightarrow> lit_ok (p, st) \<Longrightarrow> accepts (scan_step (p, st) c) \<Longrightarrow> accepts (p, st)"
  using space_step [of c p st] accepts_step_space [of p st]
  by (cases "p = InString") (auto simp: accepts_def [of "(p, st)"] is_json_space_def split: if_splits)

lemma accepts_spaces:
  "list_all is_json_space sp \<Longrightarrow> lit_ok s \<Longrightarrow> accepts (scan s sp) \<Longrightarrow> accepts s"
proof (induction sp arbitrary: s)
  case (Cons c sp)
  then have "accepts (scan_step s c)" by (simp add: lit_ok_step)
  with Cons.prems(1,2) show ?case using accepts_back [of c "fst s" "snd s"] by simp
qed simp

text \<open>A valid text is one value the reader finds, with the space around it taken off.\<close>

lemma trimValue_reads:
  assumes "json_valid b"
  obtains v where "trimValue b = Some v" "v = strip_json_space b" "v \<noteq> []"
    "\<not> is_json_space (last v)" "\<not> is_json_space (hd v)" "accepts (scan (BeginValue, []) v)"
proof -
  have acc: "accepts (scan (BeginValue, []) (drop 0 b))" using assms by (simp add: json_valid_accepts)
  define i where "i = skipSpace b 0"
  from value_at_reads [OF acc] obtain e where
    e: "valueEnd b i = Some e" "i < e" "e \<le> length b" "accepts (scan (EndValue, []) (drop e b))"
    by (auto simp: i_def)
  define v where "v = slice b i e"
  have sp: "list_all is_json_space (drop e b)"
    using e(4) by (simp add: accepts_EndTop_scan [symmetric] accepts_EndTop_space)
  have sk: "skipSpace b e = length b"
  proof -
    have "length (takeWhile is_json_space (drop e b)) = length b - e"
      using sp by (simp add: list_all_iff takeWhile_eq_all_conv [THEN iffD2])
    then show ?thesis unfolding skipSpace_takeWhile [OF e(3)] isSpace_json using e(3) by linarith
  qed
  have il: "i < length b" using e by simp
  have front: "list_all is_json_space (take i b)"
    using set_takeWhileD [of _ isSpace b]
    by (auto simp: i_def skipSpace_takeWhile takeWhile_eq_take [symmetric] list_all_iff isSpace_json)
  have split: "b = take i b @ v @ drop e b" using e(2) by (simp add: v_def take_slice_drop)
  have vl: "value_len (drop i b) = Some (e - i)" using e(1,2) il by (auto simp: valueEnd_scan)
  have ve: "v = take (e - i) (drop i b)" by (simp add: v_def slice_def)
  have lv: "length v = e - i" using e by (simp add: v_def)
  have "last v = drop i b ! (e - i - 1)" using lv e(2) unfolding ve by (simp add: last_conv_nth)
  then have l: "\<not> is_json_space (last v)" using value_len_last [OF vl] e(2) by simp
  have h: "\<not> is_json_space (hd v)"
  proof -
    have "hd v = b ! i" using lv e(2) il unfolding ve by (simp add: hd_conv_nth)
    then show ?thesis using skipSpace_stop [of b 0] il by (simp add: i_def isSpace_json)
  qed
  have "v \<noteq> []" using lv e(2) by auto
  have strip: "v = strip_json_space b"
    using strip_json_space_decomp [OF front sp \<open>v \<noteq> []\<close> h l] split by simp
  have t: "trimValue b = Some v"
    using e(1) sk by (simp add: trimValue_def Let_def i_def v_def)
  have "accepts (scan (BeginValue, []) v)"
  proof (rule accepts_spaces [OF sp lit_ok_scan])
    show "lit_ok (BeginValue, [])" by (simp add: lit_ok_def)
  next
    have "list_all is_json_space u \<Longrightarrow> scan (BeginValue, []) u = (BeginValue, [])" for u
      by (induction u) (auto simp: begin_value_def)
    with front have "scan (BeginValue, []) (take i b) = (BeginValue, [])" by blast
    then show "accepts (scan (scan (BeginValue, []) v) (drop e b))"
      using acc split by (metis drop0 scan_append)
  qed
  then show ?thesis using that t strip \<open>v \<noteq> []\<close> l h by blast
qed

lemma value_at_end:
  assumes "accepts (scan (EndValue, []) (drop e v))" and "e \<le> length v"
    and "\<not> is_json_space (last v)"
  shows "e = length v"
proof (rule ccontr)
  assume "e \<noteq> length v"
  then have "e < length v" using assms(2) by simp
  then have "last v \<in> set (drop e v)" using last_in_set [of "drop e v"] by simp
  moreover have "list_all is_json_space (drop e v)"
    using assms(1) by (simp add: accepts_EndTop_scan [symmetric] accepts_EndTop_space)
  ultimately show False using assms(3) by (simp add: list_all_iff)
qed

lemma objectKVs_reads:
  assumes "accepts (scan (BeginValue, []) v)" and "hd v = CHR ''{''" and "\<not> is_json_space (last v)"
  shows "snd (objectKVs v dst)"
proof -
  obtain t where v: "v = CHR ''{'' # t" using assms(1,2) by (cases v) auto
  then obtain d e where o: "objectAt v 0 dst = (d, e, True)" "accepts (scan (EndValue, []) (drop e v))"
    using objectAt_reads [of "[]" 0 v dst] assms(1) by auto
  have b: "0 < e" "e \<le> length v" using objectAt_bounds [OF o(1)] by auto
  from value_at_end [OF o(2) b(2) assms(3)] have "e = length v" .
  moreover have "2 \<le> length v"
  proof (rule ccontr)
    assume "\<not> 2 \<le> length v"
    then have "t = []" using v by (cases t) auto
    then show False using assms(1) v by (simp add: begin_value_def is_json_space_def push_state_def max_nesting_def)
  qed
  ultimately show ?thesis using o(1) v by (auto simp: objectKVs_def)
qed

lemma arrayItems_reads:
  assumes "accepts (scan (BeginValue, []) v)" and "hd v = CHR ''[''" and "\<not> is_json_space (last v)"
  shows "snd (arrayItems v dst)"
proof -
  obtain t where v: "v = CHR ''['' # t" using assms(1,2) by (cases v) auto
  have a: "accepts (scan (BeginValueOrEmpty, [ArrayValue]) (drop 1 v))"
    using array_open [of "[]" t] assms(1) v by simp
  define i where "i = skipSpace v 1"
  have il: "i \<le> length v" unfolding i_def using v by (intro skipSpace_le) simp
  have a': "accepts (scan (BeginValueOrEmpty, [ArrayValue]) (drop i v))"
    using a v scan_skipSpace [of "(BeginValueOrEmpty, [ArrayValue])" 1 v] by (simp add: i_def)
  then have i: "i < length v" by (rule_tac ccontr) simp
  then have d: "drop i v = v ! i # drop (Suc i) v" by (simp add: Cons_nth_drop_Suc)
  have ns: "\<not> is_json_space (v ! i)" using skipSpace_stop [of v 1] i by (simp add: i_def isSpace_json)
  have "1 \<le> i" unfolding i_def by (rule skipSpace_ge)
  with i have l2: "2 \<le> length v" by simp
  show ?thesis
  proof (cases "v ! i = CHR '']''")
    case True
    then have "accepts (scan (EndValue, []) (drop (Suc i) v))"
      using a' d ns accepts_pop [of ArrayValue "[]"] by (simp add: end_value_def)
    from value_at_end [OF this _ assms(3)] i have e: "Suc i = length v" by simp
    then have "v ! (length v - 1) = CHR '']''" using True by (metis diff_Suc_1)
    then show ?thesis using v l2 True e by (auto simp: arrayItems_def Let_def i_def)
  next
    case False
    then have b: "accepts (scan (BeginValue, [ArrayValue]) (drop i v))" using a' d ns by simp
    have idem: "skipSpace v i = i" using skipSpace_id i ns by (simp add: isSpace_json)
    from arrayItems_from_reads [OF b il idem assms(3), of dst] obtain r where
      r: "arrayItems_from v i dst = (r, True)" by blast
    have "v ! (length v - 1) = CHR '']''" using arrayItems_from_close [OF r] by simp
    then show ?thesis using v l2 False r by (auto simp: arrayItems_def Let_def i_def)
  qed
qed

text \<open>The reader's answers on a body the standard decoder accepts.\<close>

lemma topFields_reads:
  assumes "json_valid b" and "hd (strip_json_space b) = CHR ''{''"
  shows "topFields b \<noteq> None"
proof -
  from trimValue_reads [OF assms(1)] obtain v where
    v: "trimValue b = Some v" "v = strip_json_space b" "\<not> is_json_space (last v)"
      "accepts (scan (BeginValue, []) v)" by blast
  with objectKVs_reads [of v "[]"] assms(2) show ?thesis
    by (auto simp: topFields_def split: prod.splits)
qed

end
