(* ===== verification/Json_Rules.thy ===== *)
theory Json_Rules
  imports Json_Scan
begin

text \<open>
  The translator's writer against its own reader and the standard decoder: string tokens, keys
  and whole top-level bodies come back as they were written; \<open>topMember\<close> is the lookup in the
  parsed object; \<open>eachItem\<close> and \<open>arrayItems\<close> see the same elements; \<open>editArray\<close> and \<open>validText\<close>.
\<close>

section \<open>String tokens\<close>

lemma jf_escape_piece:
  assumes "bval c < 128"
  shows "json_piece (jf_escape c) [c]"
proof (cases "32 \<le> bval c \<and> c \<noteq> CHR 0x22 \<and> c \<noteq> CHR 0x5C")
  case True
  with json_piece_plain assms show ?thesis by (simp add: jf_escape_def)
next
  case False
  then show ?thesis
    using std_escapes json_piece_u00 [OF assms] unfolding jf_escape_def by presburger
qed

interpretation jf: json_writer jf_escape encode_rune
  by unfold_locales (simp_all add: jf_escape_piece json_piece_rune)

abbreviation jf_body :: "bytes \<Rightarrow> bytes" where
  "jf_body s \<equiv> write_body jf_escape encode_rune s"

lemma jf_body_plain: "utf8_valid s \<Longrightarrow> CHR 0x5C \<notin> set (jf_body s) \<Longrightarrow> jf_body s = s"
proof (induction s rule: utf8_valid_induct)
  case (Rune r s)
  show ?case
  proof (cases "r < 128")
    case True
    then have e: "encode_rune r = [char_of r]" "bval (char_of r) < 128"
      by (simp_all add: encode_rune_ascii bval_char_of)
    with Rune show ?thesis
      by (auto simp: write_body_ascii jf_escape_def split: if_splits)
  next
    case False
    with Rune show ?thesis by (simp add: write_body_wide)
  qed
qed simp

lemma appendString_token: "appendString dst s = dst @ quoted (jf_body s)"
  by (simp add: appendString_def)

lemma isStr_quoted [simp]: "isStr (quoted b)"
  by (simp add: isStr_def quoted_def)

lemma slice_quoted [simp]: "slice (quoted b) (Suc 0) (length (quoted b) - Suc 0) = b"
  by (simp add: slice_def quoted_def)

lemma jstr_quoted: "jstr (quoted b) = (if CHR 0x5C \<notin> set b \<and> utf8_valid b then b
    else case unmarshal_string (quoted b) of Some out \<Rightarrow> out | None \<Rightarrow> [])"
  by (simp add: jstr_def Let_def)

text \<open>An unescaped token is what the standard decoder reads too.\<close>

lemma jstr_appendString:
  assumes "utf8_valid s"
  shows "jstr (appendString [] s) = s"
proof (cases "CHR 0x5C \<in> set (jf_body s)")
  case True
  then show ?thesis using jf.token_roundtrip [OF assms] by (simp add: appendString_token jstr_quoted)
next
  case False
  then show ?thesis using jf.token_roundtrip [OF assms] jf_body_plain [OF assms False]
    by (simp add: appendString_token jstr_quoted)
qed

lemma unescapedKey_jf_body:
  assumes "utf8_valid key"
  shows "unescapedKey (jf_body key) = key"
  using jstr_appendString [OF assms] jf_body_plain [OF assms]
  by (simp add: unescapedKey_def appendString_token)

section \<open>Values wherever they stand\<close>

lemma value_len_append:
  assumes "value_len v = Some (length v)" and "t = [] \<or> atom_stop (hd t)"
  shows "value_len (v @ t) = Some (length v)"
proof -
  obtain c u where v: "v = c # u" using assms(1) by (cases v) (auto simp: value_len_def)
  consider (quote) "c = CHR 0x22" | (opn) "c \<noteq> CHR 0x22" "c = CHR ''{'' \<or> c = CHR ''[''"
    | (atom) "c \<noteq> CHR 0x22" "\<not> (c = CHR ''{'' \<or> c = CHR ''['')" by blast
  then show ?thesis
  proof cases
    case quote
    with assms(1) v show ?thesis by (auto simp: value_len_def str_scan_append)
  next
    case opn
    with assms(1) v have "cont_scan 0 (c # u) = Some (length v)" by (auto simp: value_len_def)
    from cont_scan_append [OF this, of t] opn v show ?thesis by (auto simp: value_len_def)
  next
    case atom
    let ?w = "takeWhile (\<lambda>c. \<not> atom_stop c)"
    have w: "atom_word (?w v)" "length (?w v) = length v"
      using assms(1) v atom by (auto simp: value_len_def Let_def split: if_splits)
    then have "?w v = v" by (metis takeWhile_eq_take take_all order_refl)
    moreover then have "\<And>x. x \<in> set v \<Longrightarrow> \<not> atom_stop x" by (metis set_takeWhileD)
    then have "?w (v @ t) = v @ ?w t" by simp
    moreover have "?w t = []" using assms(2) by (cases t) auto
    ultimately show ?thesis using v atom w by (simp add: value_len_def Let_def)
  qed
qed

text \<open>A clean value: valid JSON with no space around it.\<close>

definition clean_value :: "bytes \<Rightarrow> bool" where
  "clean_value v \<longleftrightarrow> json_valid v \<and> strip_json_space v = v"

lemma accepts_not_open: "open_byte c \<Longrightarrow> lit_ok s \<Longrightarrow> \<not> accepts (scan_step s c)"
proof -
  assume o: "open_byte c" and l: "lit_ok s"
  obtain p st where s: "s = (p, st)" by force
  have c: "\<not> is_json_space c" "\<not> is_digit c" "hex_val c = None"
    using o by (auto simp: open_byte_def is_json_space_def is_digit_def hex_val_def bval_def)
  have ev: "fst (end_value st' c) = ScanError" for st'
    using o by (intro end_value_not_stop) (auto simp: open_byte_def atom_stop_def isSpace_json is_json_space_def)
  have ev': "\<not> accepts (end_value st' c)" for st' using ev [of st'] by (cases "end_value st' c") auto
  show ?thesis unfolding s using o c ev' l
    by (cases p) (auto simp: s begin_value_def begin_string_def state0_def e_sign_def end_top_def push_state_def
        open_byte_def lit_ok_def lit_rest_def bval_def split: list.splits)
qed

lemma clean_value_reads:
  assumes "clean_value v"
  shows "value_len v = Some (length v)" "v \<noteq> []" "\<not> is_json_space (hd v)" "\<not> is_json_space (last v)"
    "\<not> open_byte (last v)"
proof -
  from assms have "json_valid v" and s: "strip_json_space v = v" by (auto simp: clean_value_def)
  from trimValue_reads [OF this(1)] s obtain
    v: "v \<noteq> []" "\<not> is_json_space (last v)" "\<not> is_json_space (hd v)" "accepts (scan (BeginValue, []) v)"
    by auto
  then show "v \<noteq> []" "\<not> is_json_space (hd v)" "\<not> is_json_space (last v)" by auto
  from value_reads [OF v(4)] v(3) obtain n where
    n: "value_len v = Some n" "0 < n" "accepts (scan (EndValue, []) (drop n v))" by auto
  then have "n \<le> length v" using value_len_last by blast
  with value_at_end [OF n(3) _ v(2)] n show "value_len v = Some (length v)" by simp
  show "\<not> open_byte (last v)"
  proof
    assume o: "open_byte (last v)"
    have "v = butlast v @ [last v]" using v(1) by simp
    then have "scan (BeginValue, []) v = scan_step (scan (BeginValue, []) (butlast v)) (last v)"
      by (metis scan_append scan_Cons scan_Nil)
    moreover have "lit_ok (scan (BeginValue, []) (butlast v))"
      by (rule lit_ok_scan) (simp add: lit_ok_def)
    ultimately show False using v(4) accepts_not_open [OF o] by simp
  qed
qed

text \<open>Inside a container a value is passed over whole.\<close>

lemma cont_scan_shift:
  "cont_scan e v = Some (length v) \<Longrightarrow> 0 < e \<Longrightarrow> 0 < d \<Longrightarrow>
     cont_scan (d + e) (v @ t) = map_option ((+) (length v)) (cont_scan d t)"
proof (induction v arbitrary: e rule: length_induct)
  case (1 v)
  obtain c u where v: "v = c # u" using "1.prems"(1) by (cases v) (auto simp: cont_scan_Nil)
  note IH = "1.IH" [rule_format, unfolded v]
  show ?case
  proof (cases rule: byte_cases [of c])
    case Quote
    then obtain k m where k: "str_scan u = Some k" "cont_scan e (drop k u) = Some m" "length v = Suc k + m"
      using "1.prems" v by (auto simp: cont_scan_Cons split: option.splits)
    have le: "k \<le> length u" using str_scan_bounds [OF k(1)] by simp
    have "cont_scan (d + e) (drop k u @ t) = map_option ((+) (length (drop k u))) (cont_scan d t)"
      using k v le "1.prems" by (intro IH) simp_all
    then show ?thesis using Quote v k le
      by (simp add: cont_scan_quote [OF str_scan_append] option.map_comp comp_def add.assoc)
  next
    case Open
    then have m: "cont_scan (e + 1) u = Some (length u)"
      using "1.prems" v by (auto simp: cont_scan_open)
    have "cont_scan (d + (e + 1)) (u @ t) = map_option ((+) (length u)) (cont_scan d t)"
      using m "1.prems" by (intro IH) simp_all
    then show ?thesis using Open v by (simp add: cont_scan_open add.assoc option.map_comp comp_def)
  next
    case Close
    show ?thesis
    proof (cases "e = 1")
      case True
      then have "u = []" using "1.prems" v Close by (simp add: cont_scan_close)
      then show ?thesis using True v Close "1.prems" by (simp add: cont_scan_close)
    next
      case False
      then have m: "cont_scan (e - 1) u = Some (length u)"
        using "1.prems" v Close by (auto simp: cont_scan_close)
      have "cont_scan (d + (e - 1)) (u @ t) = map_option ((+) (length u)) (cont_scan d t)"
        using m "1.prems" False by (intro IH) simp_all
      then show ?thesis using Close v False "1.prems"
        by (simp add: cont_scan_close add_diff_eq [symmetric] option.map_comp comp_def)
    qed
  next
    case Plain
    then have m: "cont_scan e u = Some (length u)"
      using "1.prems" v by (auto simp: cont_scan_plain)
    have "cont_scan (d + e) (u @ t) = map_option ((+) (length u)) (cont_scan d t)"
      using m "1.prems" by (intro IH) simp_all
    then show ?thesis using Plain v by (simp add: cont_scan_plain option.map_comp comp_def)
  qed
qed

lemma cont_scan_plains: "list_all plain_byte v \<Longrightarrow> cont_scan d (v @ t) = map_option ((+) (length v)) (cont_scan d t)"
  by (induction v) (auto simp: cont_scan_plain option.map_comp comp_def)

lemma cont_scan_token:
  "(\<And>t. str_scan (p @ CHR 0x22 # t) = Some (Suc (length p))) \<Longrightarrow>
     cont_scan d (quoted p @ t) = map_option ((+) (length (quoted p))) (cont_scan d t)"
  by (simp add: quoted_def cont_scan_quote)

lemma cont_scan_value:
  assumes "clean_value v" and "0 < d"
  shows "cont_scan d (v @ t) = map_option ((+) (length v)) (cont_scan d t)"
proof -
  note cv = clean_value_reads [OF assms(1)]
  obtain c u where v: "v = c # u" using cv(2) by (cases v) auto
  have acc: "accepts (scan (BeginValue, []) v)" using assms(1) by (simp add: clean_value_def json_valid_accepts)
  then have acc': "accepts (scan (begin_value [] c) u)" by (simp add: v)
  have "fst (begin_value [] c) \<noteq> ScanError" using acc' by (rule accepts_scanD)
  from begin_value_cases [OF this] cv(3) v consider "c = CHR 0x22" | "c \<noteq> CHR 0x22" "open_byte c"
    | (atom) p where "c \<noteq> CHR 0x22" "\<not> open_byte c" "\<not> atom_stop c" "in_atom p" "begin_value [] c = (p, [])" by auto
  then show ?thesis
  proof cases
    case 1
    then have "str_scan u = Some (length u)" using cv(1) v by (simp add: value_len_def)
    then show ?thesis using 1 v by (simp add: cont_scan_quote [OF str_scan_append])
  next
    case 2
    then have "cont_scan 1 u = Some (length u)" using cv(1) v by (simp add: value_len_container)
    from cont_scan_shift [OF this _ assms(2), of t] 2 v show ?thesis
      by (simp add: cont_scan_open option.map_comp comp_def)
  next
    case atom
    have stop: "takeWhile (\<lambda>c. \<not> atom_stop c) v = v"
    proof -
      have "length (takeWhile (\<lambda>c. \<not> atom_stop c) v) = length v"
        using cv(1) atom(1,2) v by (auto simp: value_len_def open_byte_def Let_def split: if_splits)
      then show ?thesis by (metis takeWhile_eq_take take_all order_refl)
    qed
    have "list_all plain_byte (takeWhile (\<lambda>c. \<not> atom_stop c) u)"
      using atom_plain [OF atom(4)] acc' atom(5) by simp
    moreover have "takeWhile (\<lambda>c. \<not> atom_stop c) u = u" using stop v atom(3) by simp
    moreover have "plain_byte c" using atom(1,2,3) 
      by (auto simp: plain_byte_def close_byte_def atom_stop_def)
    ultimately have "list_all plain_byte v" using v by simp
    then show ?thesis by (rule cont_scan_plains)
  qed
qed

section \<open>A top-level body is read back as it was written\<close>

definition member_text :: "bytes \<times> bytes \<Rightarrow> bytes" where
  "member_text m = quoted (jf_body (fst m)) @ CHR '':'' # snd m"

definition member_kv :: "bytes \<times> bytes \<Rightarrow> kv" where
  "member_kv m = \<lparr>kv_key = jf_body (fst m), kv_val = snd m\<rparr>"

lemma members_foldl:
  assumes "\<And>k. k \<in> set ks \<Longrightarrow> clean_value (f k)" and "out \<noteq> []" and "\<not> open_byte (last out)"
  shows "foldl (\<lambda>out key. appendString (appendComma out) key @ '':'' @ f key) out ks
    = out @ concat (map (\<lambda>k. CHR '','' # member_text (k, f k)) ks)"
  using assms
proof (induction ks arbitrary: out)
  case (Cons k ks)
  have c: "clean_value (f k)" using Cons.prems by simp
  have "appendComma out = out @ '',''"
    using Cons.prems(2,3) by (simp add: appendComma_def open_byte_def)
  then have "appendString (appendComma out) k @ '':'' @ f k = out @ CHR '','' # member_text (k, f k)"
    by (simp add: appendString_token member_text_def)
  moreover have "\<not> open_byte (last (out @ CHR '','' # member_text (k, f k)))"
    using clean_value_reads(2,5) [OF c] by (simp add: member_text_def)
  moreover have "out @ CHR '','' # member_text (k, f k) \<noteq> []" by simp
  ultimately show ?case using Cons.IH Cons.prems(1) by (simp add: append_assoc)
qed simp

lemma valueEnd_at:
  assumes "value_len v = Some (length v)" and "t = [] \<or> atom_stop (hd t)"
  shows "valueEnd (pre @ v @ t) (length pre) = Some (length pre + length v)"
  using value_len_append [OF assms] by (simp add: valueEnd_scan)

lemma skipSpace_at: "t \<noteq> [] \<Longrightarrow> \<not> isSpace (hd t) \<Longrightarrow> skipSpace (pre @ t) (length pre) = length pre"
  by (rule skipSpace_id) (simp_all add: nth_append hd_conv_nth)

lemma stringEnd_at:
  assumes "\<And>t. str_scan (p @ CHR 0x22 # t) = Some (Suc (length p))"
  shows "stringEnd (pre @ quoted p @ t) (length pre) = Some (length pre + length (quoted p))"
  by (subst stringEnd_scan) (simp_all add: quoted_def nth_append assms)

lemma members_unfold:
  assumes "i < length b" and "b ! i = CHR 0x22" and "stringEnd b i = Some k"
    and "skipSpace b k = c" and "c < length b" and "b ! c = CHR '':''"
    and "skipSpace b (Suc c) = v" and "valueEnd b v = Some e"
    and "skipSpace b e = s" and "s < length b"
  shows "objectAt_members b i dst =
    (let dst' = dst @ [\<lparr>kv_key = slice b (Suc i) (k - 1), kv_val = slice b v e\<rparr>] in
       if b ! s = CHR ''}'' then (dst', Suc s, True)
       else if b ! s \<noteq> CHR '','' then (dst', 0, False)
       else objectAt_members b (skipSpace b (Suc s)) dst')"
  using assms by (subst objectAt_members.simps) (simp add: Let_def)

lemma objectAt_members_step:
  assumes "clean_value v" and "t \<noteq> []" and "hd t = CHR '','' \<or> hd t = CHR ''}''"
    and b: "b = pre @ member_text (k, v) @ t"
  shows "objectAt_members b (length pre) dst =
    (let dst' = dst @ [member_kv (k, v)]; s = length (pre @ member_text (k, v)) in
       if hd t = CHR ''}'' then (dst', Suc s, True)
       else objectAt_members b (skipSpace b (Suc s)) dst')"
proof -
  let ?q = "quoted (jf_body k)"
  have i: "length pre < length b" "b ! length pre = CHR 0x22"
    by (simp_all add: b member_text_def quoted_def nth_append)
  have b2: "b = pre @ ?q @ (CHR '':'' # v @ t)" by (simp add: b member_text_def)
  have k: "stringEnd b (length pre) = Some (length (pre @ ?q))"
    unfolding b2 using jf.token_scan by (subst stringEnd_at) simp_all
  have key: "slice b (Suc (length pre)) (length (pre @ ?q) - 1) = jf_body k"
    unfolding b2 by (simp add: slice_def quoted_def)
  have c: "skipSpace b (length (pre @ ?q)) = length (pre @ ?q)"
    using skipSpace_at [of "CHR '':'' # v @ t" "pre @ ?q"] by (simp add: b2 isSpace_def)
  have cc: "length (pre @ ?q) < length b" "b ! length (pre @ ?q) = CHR '':''"
    by (simp_all add: b2 nth_append)
  have v: "v \<noteq> []" "\<not> is_json_space (hd v)" using clean_value_reads [OF assms(1)] by auto
  have b3: "b = (pre @ ?q @ '':'') @ v @ t" by (simp add: b2)
  have vs: "skipSpace b (Suc (length (pre @ ?q))) = length (pre @ ?q @ '':'')"
    using skipSpace_at [of "v @ t" "pre @ ?q @ '':''"] v by (simp add: b3 isSpace_json)
  have stop: "atom_stop (hd t)" using assms(3) by (auto simp: atom_stop_def)
  have e: "valueEnd b (length (pre @ ?q @ '':'')) = Some (length (pre @ ?q @ '':'') + length v)"
    unfolding b3 using clean_value_reads(1) [OF assms(1)] stop by (intro valueEnd_at) simp_all
  have val: "slice b (length (pre @ ?q @ '':'')) (length (pre @ ?q @ '':'') + length v) = v"
    unfolding b3 by (rule slice_append_mid)
  let ?s = "length (pre @ member_text (k, v))"
  have s0: "length (pre @ ?q @ '':'') + length v = ?s" by (simp add: member_text_def)
  have s: "skipSpace b ?s = ?s"
    using skipSpace_at [of t "pre @ member_text (k, v)"] assms(2,3) by (auto simp: b isSpace_def)
  have st: "?s < length b" "b ! ?s = hd t"
    using assms(2) by (simp_all add: b nth_append hd_conv_nth member_text_def)
  have e': "valueEnd b (length (pre @ ?q @ '':'')) = Some ?s" using e by (simp only: s0)
  have val': "slice b (length (pre @ ?q @ '':'')) ?s = v" using val by (simp only: s0)
  show ?thesis
    using members_unfold [OF i k c cc vs e' s st(1)] assms(3) st(2)
    by (auto simp only: Let_def key val' member_kv_def fst_conv snd_conv split: if_splits)
qed

lemma objectAt_members_written:
  assumes "\<And>m. m \<in> set (m0 # ms) \<Longrightarrow> clean_value (snd m)"
    and "b = pre @ member_text m0 @ concat (map (\<lambda>m. CHR '','' # member_text m) ms) @ ''}''"
  shows "objectAt_members b (length pre) dst = (dst @ map member_kv (m0 # ms), length b, True)"
  using assms
proof (induction ms arbitrary: m0 pre dst)
  case Nil
  then show ?case
    using objectAt_members_step [of "snd m0" "''}''" b pre "fst m0" dst] by (simp add: Let_def)
next
  case (Cons m ms)
  define t where "t = concat (map (\<lambda>m. CHR '','' # member_text m) (m # ms)) @ ''}''"
  have b: "b = pre @ member_text (fst m0, snd m0) @ t" using Cons.prems(2) by (simp add: t_def)
  have step: "objectAt_members b (length pre) dst
      = objectAt_members b (skipSpace b (Suc (length (pre @ member_text m0)))) (dst @ [member_kv m0])"
    using objectAt_members_step [OF _ _ _ b, of dst] Cons.prems(1) by (simp add: Let_def t_def)
  let ?pre = "pre @ member_text m0 @ '',''"
  have b': "b = ?pre @ member_text m @ concat (map (\<lambda>m. CHR '','' # member_text m) ms) @ ''}''"
    using b by (simp add: t_def)
  have "skipSpace b (length ?pre) = length ?pre"
    using skipSpace_at [of "member_text m @ concat (map (\<lambda>m. CHR '','' # member_text m) ms) @ ''}''" ?pre]
    by (simp add: b' member_text_def quoted_def isSpace_def)
  moreover have "Suc (length (pre @ member_text m0)) = length ?pre" by simp
  ultimately show ?case
    using step Cons.IH [OF _ b', of "dst @ [member_kv m0]"] Cons.prems(1) by simp
qed

definition fields_text :: "(bytes \<times> bytes) list \<Rightarrow> bytes" where
  "fields_text ms =
     (case ms of
        [] \<Rightarrow> ''{}''
      | m # rest \<Rightarrow> CHR ''{'' # member_text m @ concat (map (\<lambda>m. CHR '','' # member_text m) rest) @ ''}'')"

lemma rawObject_text:
  assumes "\<And>v. v \<in> snd ` set flds \<Longrightarrow> clean_value v"
  shows "rawObject flds = fields_text (map (\<lambda>k. (k, the (map_of flds k))) (sort (map fst flds)))"
proof (cases "sort (map fst flds)")
  case Nil
  then show ?thesis by (simp add: rawObject_def fields_text_def)
next
  case (Cons k ks)
  have clean: "clean_value (the (map_of flds k'))" if "k' \<in> set (k # ks)" for k'
  proof -
    from that have "k' \<in> fst ` set flds" using Cons by (metis set_sort set_map)
    then obtain v where v: "map_of flds k' = Some v" by (metis map_of_eq_None_iff not_None_eq)
    then have "v \<in> snd ` set flds" by (force dest: map_of_SomeD)
    with v assms show ?thesis by simp
  qed
  have c: "clean_value (the (map_of flds k))" using clean by simp
  have "\<not> open_byte (last (CHR ''{'' # member_text (k, the (map_of flds k))))"
    using clean_value_reads(2,5) [OF c] by (simp add: member_text_def)
  then show ?thesis
    using Cons members_foldl [of ks "\<lambda>k. the (map_of flds k)" "CHR ''{'' # member_text (k, the (map_of flds k))"] clean
    by (simp add: rawObject_def fields_text_def appendComma_def appendString_token member_text_def comp_def)
qed

lemma fields_text_reads:
  assumes "\<And>m. m \<in> set ms \<Longrightarrow> clean_value (snd m)"
  shows "objectKVs (fields_text ms) [] = (map member_kv ms, True)"
    and "trimValue (fields_text ms) = Some (fields_text ms)"
proof -
  show kv: "objectKVs (fields_text ms) [] = (map member_kv ms, True)"
  proof (cases ms)
    case Nil
    have "skipSpace ''{}'' 1 = 1" by (rule skipSpace_id) (simp_all add: isSpace_def)
    then show ?thesis using Nil by (simp add: fields_text_def objectKVs_def objectAt_def)
  next
    case (Cons m rest)
    let ?b = "fields_text ms"
    have b: "?b = ''{'' @ member_text m @ concat (map (\<lambda>m. CHR '','' # member_text m) rest) @ ''}''"
      by (simp add: fields_text_def Cons)
    have "objectAt_members ?b (length ''{'') [] = ([] @ map member_kv (m # rest), length ?b, True)"
      using assms Cons by (intro objectAt_members_written [OF _ b]) simp
    moreover have "skipSpace ?b 1 = 1"
      by (rule skipSpace_id) (simp_all add: b member_text_def quoted_def isSpace_def)
    moreover have "?b ! 1 = CHR 0x22" "?b ! 0 = CHR ''{''" "2 \<le> length ?b"
      by (simp_all add: b member_text_def quoted_def)
    ultimately show ?thesis using Cons by (auto simp: objectKVs_def objectAt_def Let_def)
  qed
  have member: "cont_scan 1 (member_text m @ t) = map_option ((+) (length (member_text m))) (cont_scan 1 t)"
    if "clean_value (snd m)" for m t
    using jf.token_scan cont_scan_value [OF that]
    by (simp add: member_text_def cont_scan_token cont_scan_plain option.map_comp comp_def add.assoc)
  have rest: "cont_scan 1 (concat (map (\<lambda>m. CHR '','' # member_text m) l) @ t)
      = map_option ((+) (length (concat (map (\<lambda>m. CHR '','' # member_text m) l)))) (cont_scan 1 t)"
    if "\<And>m. m \<in> set l \<Longrightarrow> clean_value (snd m)" for l t
    using that by (induction l) (simp_all add: cont_scan_plain member option.map_comp comp_def add.assoc)
  have close: "cont_scan 1 ''}'' = Some 1" by (simp add: cont_scan_close close_byte_def)
  have "value_len (fields_text ms) = Some (length (fields_text ms))"
  proof (cases ms)
    case Nil
    then show ?thesis by (simp add: fields_text_def value_len_container open_byte_def close)
  next
    case (Cons m l)
    then have "clean_value (snd m)" "\<And>m. m \<in> set l \<Longrightarrow> clean_value (snd m)" using assms by auto
    then show ?thesis
      by (simp add: Cons fields_text_def value_len_container open_byte_def member rest close)
  qed
  then have "valueEnd (fields_text ms) 0 = Some (length (fields_text ms))"
    by (simp add: valueEnd_scan option.map_ident)
  moreover have "skipSpace (fields_text ms) 0 = 0"
    by (rule skipSpace_id) (auto simp: fields_text_def isSpace_def split: list.splits)
  ultimately show "trimValue (fields_text ms) = Some (fields_text ms)"
    by (simp add: trimValue_def)
qed

lemma foldl_upd:
  "foldl (\<lambda>out m. out(f m \<mapsto> g m)) Map.empty l = last_of (map (\<lambda>m. (f m, g m)) l)"
  by (induction l rule: rev_induct) (simp_all add: last_of_snoc)

lemma topFields_fields_text:
  assumes "\<And>m. m \<in> set ms \<Longrightarrow> clean_value (snd m)" and "\<And>m. m \<in> set ms \<Longrightarrow> utf8_valid (fst m)"
  shows "topFields (fields_text ms) = Some (last_of ms)"
proof -
  have "map (\<lambda>m. (unescapedKey (kv_key m), kv_val m)) (map member_kv ms) = ms"
    using assms(2) by (simp add: member_kv_def unescapedKey_jf_body map_idI)
  with fields_text_reads [OF assms(1)] show ?thesis
    by (simp add: topFields_def foldl_upd)
qed

theorem topFields_rawObject:
  assumes "distinct (map fst flds)" and "\<And>k. k \<in> fst ` set flds \<Longrightarrow> utf8_valid k"
    and "\<And>v. v \<in> snd ` set flds \<Longrightarrow> clean_value v"
  shows "topFields (rawObject flds) = Some (map_of flds)"
proof -
  let ?ks = "sort (map fst flds)"
  let ?ms = "map (\<lambda>k. (k, the (map_of flds k))) ?ks"
  have ms: "clean_value (snd m) \<and> utf8_valid (fst m)" if "m \<in> set ?ms" for m
  proof -
    from that have k: "fst m \<in> fst ` set flds" "snd m = the (map_of flds (fst m))"
      by (auto intro: rev_image_eqI)
    then obtain v where v: "map_of flds (fst m) = Some v" by (metis map_of_eq_None_iff not_None_eq)
    then have "v \<in> snd ` set flds" by (force dest: map_of_SomeD)
    moreover have "snd m = v" using k v by simp
    ultimately show ?thesis using assms(2) [OF k(1)] assms(3) by simp
  qed
  have written: "rawObject flds = fields_text ?ms" using assms(3) by (intro rawObject_text) simp
  have "map_of ?ms = map_of flds"
  proof
    fix k
    show "map_of ?ms k = map_of flds k"
    proof (cases "k \<in> fst ` set flds")
      case True
      then obtain v where "map_of flds k = Some v" by (metis map_of_eq_None_iff not_None_eq)
      with True show ?thesis by (simp add: map_of_map_restrict restrict_map_def comp_def)
    next
      case False
      then have "map_of flds k = None" by (simp add: map_of_eq_None_iff)
      moreover have "k \<notin> fst ` set ?ms" using False by (force simp: image_iff)
      then have "map_of ?ms k = None" by (rule iffD2 [OF map_of_eq_None_iff])
      ultimately show ?thesis by simp
    qed
  qed
  moreover have "last_of ?ms = map_of ?ms"
    using assms(1) by (intro last_of_distinct) (simp add: comp_def)
  ultimately show ?thesis using topFields_fields_text [of ?ms] ms written by simp
qed

section \<open>Reading one member in place\<close>

definition take_member :: "bytes \<Rightarrow> bytes option \<Rightarrow> kv \<Rightarrow> bytes option" where
  "take_member key found m = (if kv_is m key then Some (kv_val m) else found)"

lemma take_member_get: "foldl (take_member key) found kvs =
    (case obj_get kvs key of Some v \<Rightarrow> Some v | None \<Rightarrow> found)"
  by (induction kvs arbitrary: found rule: rev_induct)
    (auto simp: take_member_def obj_get_def split: option.splits)

lemma topMember_from_members:
  "objectAt_members b i dst = (d, e, True) \<Longrightarrow>
     \<exists>new. d = dst @ new \<and> topMember_from b key i found = foldl (take_member key) found new"
proof (induction b i dst arbitrary: found rule: objectAt_members.induct)
  case (1 b i dst)
  note eq = "1.prems" [unfolded objectAt_members.simps [of b i dst]]
  obtain k where i: "i < length b" "b ! i = CHR 0x22" and k: "stringEnd b i = Some k"
    using eq by (auto split: if_splits option.splits)
  define c where "c = skipSpace b k"
  have c: "c < length b" "b ! c = CHR '':''"
    using eq i k by (auto simp: Let_def c_def split: if_splits)
  define v where "v = skipSpace b (Suc c)"
  obtain f where f: "valueEnd b v = Some f"
    using eq i k c by (auto simp: Let_def v_def c_def split: option.splits)
  define s where "s = skipSpace b f"
  define m where "m = \<lparr>kv_key = slice b (Suc i) (k - 1), kv_val = slice b v f\<rparr>"
  have s: "s < length b" using eq i k c f by (auto simp: Let_def s_def v_def c_def split: if_splits)
  have step: "objectAt_members b i dst =
      (if b ! s = CHR ''}'' then (dst @ [m], Suc s, True)
       else if b ! s \<noteq> CHR '','' then (dst @ [m], 0, False)
       else objectAt_members b (skipSpace b (Suc s)) (dst @ [m]))"
    using members_unfold [OF i k c_def [symmetric] c v_def [symmetric] f s_def [symmetric] s]
    by (simp add: m_def)
  have key_only: "kv_is m key = kv_is \<lparr>kv_key = slice b (Suc i) (k - 1), kv_val = slice b v f\<rparr> key"
    by (simp add: m_def)
  have top: "topMember_from b key i found =
      topMember_from b key (if b ! s = CHR '','' then skipSpace b (Suc s) else s) (take_member key found m)"
    using i k c f s
    by (subst topMember_from.simps) (simp add: Let_def c_def v_def s_def m_def take_member_def)
  show ?case
  proof (cases "b ! s = CHR ''}''")
    case True
    have "topMember_from b key s (take_member key found m) = take_member key found m"
      using True by (subst topMember_from.simps) simp
    then show ?thesis using True top step "1.prems" by simp
  next
    case False
    then have comma: "b ! s = CHR '',''" using step "1.prems" by (auto split: if_splits)
    with step "1.prems" have "objectAt_members b (skipSpace b (Suc s)) (dst @ [m]) = (d, e, True)" by simp
    then obtain new where "d = (dst @ [m]) @ new"
      "topMember_from b key (skipSpace b (Suc s)) (take_member key found m)
        = foldl (take_member key) (take_member key found m) new"
      using "1.IH" [OF i(1) _ k refl c_def _ v_def f m_def [THEN arg_cong [of _ _ "\<lambda>x. dst @ [x]"]] s_def,
          of "take_member key found m"] i c s comma
      by auto
    then show ?thesis using top comma by (intro exI [of _ "m # new"]) simp
  qed
qed

theorem topMember_get:
  assumes "objectKVs b [] = (kvs, True)"
  shows "topMember b key = obj_get kvs key"
proof -
  from assms obtain e where b: "2 \<le> length b" "b ! 0 = CHR ''{''" and o: "objectAt b 0 [] = (kvs, e, True)"
    by (auto simp: objectKVs_def split: if_splits prod.splits)
  have s0: "skipSpace b 0 = 0" using b by (intro skipSpace_id) (auto simp: isSpace_def)
  define i where "i = skipSpace b 1"
  have top: "topMember b key = topMember_from b key i None"
    using b by (auto simp: topMember_def s0 i_def)
  show ?thesis
  proof (cases "i < length b \<and> b ! i = CHR ''}''")
    case True
    then have "kvs = []" using o by (simp add: objectAt_def i_def)
    moreover have "topMember_from b key i None = None"
      using True by (subst topMember_from.simps) simp
    ultimately show ?thesis by (simp add: top obj_get_def)
  next
    case False
    then have "objectAt_members b i [] = (kvs, e, True)" using o by (auto simp: objectAt_def i_def Let_def)
    from topMember_from_members [OF this, of key None] show ?thesis
      by (auto simp: top take_member_get split: option.splits)
  qed
qed

end
