(* ===== verification/Json_Text.thy ===== *)
theory Json_Text
  imports Json_Rules
begin

text \<open>
  \<open>validText\<close> against the standard decoder: on a string \<open>encoding/json\<close> decodes, the repaired
  text is valid UTF-8, decodes to the same string, and a second repair changes nothing.
\<close>

section \<open>Steps of the repair\<close>

lemma decode_rune_append:
  "s \<noteq> [] \<Longrightarrow> t = [] \<or> bval (hd t) < 128 \<Longrightarrow> decode_rune (s @ t) = decode_rune s"
proof -
  assume s: "s \<noteq> []" and t: "t = [] \<or> bval (hd t) < 128"
  have "\<not> second_ok c (hd t)" "\<not> cont_byte (hd t)" if "t \<noteq> []" for c
    using t that by (auto simp: second_ok_def second_lo_def cont_byte_def)
  then show ?thesis using s
    by (cases s rule: decode_rune.cases; cases "tl s"; cases "tl (tl s)"; cases "tl (tl (tl s))"; cases t)
      (auto split: list.splits)
qed

lemma validText_loop_Nil [simp]: "validText_loop [] = []"
  by (subst validText_loop.simps) simp

lemma validText_loop_plain:
  "bval c < 128 \<Longrightarrow> c \<noteq> CHR 0x5C \<Longrightarrow> validText_loop (c # t) = c # validText_loop t"
  by (subst validText_loop.simps) simp

lemma validText_loop_rune:
  assumes "valid_rune r"  and "128 \<le> r"
  shows "validText_loop (encode_rune r @ t) = encode_rune r @ validText_loop t"
proof -
  obtain c p where p: "encode_rune r = c # p" by (cases "encode_rune r") auto
  have h: "128 \<le> bval c" using encode_rune_high [OF assms(2), of c] p by simp
  then have "c \<noteq> CHR 0x5C" by (auto simp: bval_def)
  moreover have "snd (decode_rune (encode_rune r @ t)) = length (encode_rune r)"
    using decode_encode [OF assms(1), of t] by simp
  ultimately show ?thesis using h p not_bad_encode [OF assms(1), of t]
    by (subst validText_loop.simps) simp
qed

lemma validText_loop_bad:
  "bad_rune (c # t) \<Longrightarrow> validText_loop (c # t) = fffd_escape @ validText_loop t"
proof -
  assume b: "bad_rune (c # t)"
  then have "128 \<le> bval c" by (rule bad_rune_Cons)
  moreover then have "c \<noteq> CHR 0x5C" by (auto simp: bval_def)
  ultimately show ?thesis using b by (subst validText_loop.simps) simp
qed

lemma validText_loop_escape:
  "surrogate (CHR 0x5C # e # t) = (False, False) \<Longrightarrow>
     validText_loop (CHR 0x5C # e # t) = CHR 0x5C # e # validText_loop t"
  by (subst validText_loop.simps) (simp split: prod.splits)

lemma surrogate_no_u: "e \<noteq> CHR ''u'' \<Longrightarrow> surrogate (CHR 0x5C # e # t) = (False, False)"
  by (simp add: surrogate_def)

section \<open>Surrogates as the decoder sees them\<close>

lemma hex_val_bound: "hex_val c = Some h \<Longrightarrow> h < 16"
  by (auto simp: hex_val_def split: if_splits)

lemma hex_val_plain: "hex_val c = Some h \<Longrightarrow> bval c < 128 \<and> c \<noteq> CHR 0x5C \<and> c \<noteq> CHR 0x22"
  by (auto simp: hex_val_def bval_def split: if_splits)

lemma getu4_cases:
  assumes "getu4 s = Some r"
  obtains a1 a2 a3 a4 t h1 h2 h3 h4 where "s = CHR 0x5C # CHR ''u'' # a1 # a2 # a3 # a4 # t"
    "hex_val a1 = Some h1" "hex_val a2 = Some h2" "hex_val a3 = Some h3" "hex_val a4 = Some h4"
    "r = h1 * 4096 + h2 * 256 + h3 * 16 + h4"
  using assms by (auto simp: getu4_def split: list.splits if_splits option.splits)

lemma lower_hex: "hex_val a = Some h \<Longrightarrow> lower_bit a = (if h < 10 then 48 + h else 87 + h)"
proof -
  assume a: "hex_val a = Some h"
  then consider "48 \<le> bval a" "bval a \<le> 57" "h = bval a - 48" | "97 \<le> bval a" "bval a \<le> 102" "h = bval a - 87"
    | "65 \<le> bval a" "bval a \<le> 70" "h = bval a - 55"
    by (auto simp: hex_val_def split: if_splits)
  then show ?thesis
  proof cases
    case 1
    then have "bval a div 32 = 1" by (intro div_nat_eqI) simp_all
    with 1 show ?thesis by (auto simp: lower_bit_def)
  next
    case 2
    then have "bval a div 32 = 3" by (intro div_nat_eqI) simp_all
    with 2 show ?thesis by (auto simp: lower_bit_def)
  next
    case 3
    then have "bval a div 32 = 2" by (intro div_nat_eqI) simp_all
    with 3 show ?thesis by (auto simp: lower_bit_def)
  qed
qed

definition high_half :: "nat \<Rightarrow> bool" where
  "high_half r \<longleftrightarrow> 55296 \<le> r \<and> r < 56320"

definition low_half :: "nat \<Rightarrow> bool" where
  "low_half r \<longleftrightarrow> 56320 \<le> r \<and> r < 57344"

lemma surrogate_getu4: "getu4 s = Some r \<Longrightarrow> surrogate s = (high_half r, low_half r)"
proof (erule getu4_cases)
  fix a1 a2 a3 a4 t h1 h2 h3 h4
  assume s: "s = CHR 0x5C # CHR ''u'' # a1 # a2 # a3 # a4 # t"
    and h: "hex_val a1 = Some h1" "hex_val a2 = Some h2" "hex_val a3 = Some h3" "hex_val a4 = Some h4"
    and r: "r = h1 * 4096 + h2 * 256 + h3 * 16 + h4"
  note b = hex_val_bound [OF h(1)] hex_val_bound [OF h(2)] hex_val_bound [OF h(3)] hex_val_bound [OF h(4)]
  consider "h1 \<le> 12" | "h1 = 13" "h2 < 8" | "h1 = 13" "8 \<le> h2" "h2 < 12" | "h1 = 13" "12 \<le> h2" | "14 \<le> h1"
    by linarith
  then have "high_half r \<longleftrightarrow> h1 = 13 \<and> 8 \<le> h2 \<and> h2 < 12" and "low_half r \<longleftrightarrow> h1 = 13 \<and> 12 \<le> h2"
    using b by (cases; simp add: high_half_def low_half_def r)+
  moreover have "lower_bit a1 = 100 \<longleftrightarrow> h1 = 13"
    and "lower_bit a2 \<in> {56, 57, 97, 98} \<longleftrightarrow> 8 \<le> h2 \<and> h2 < 12"
    and "lower_bit a2 \<in> {99, 100, 101, 102} \<longleftrightarrow> 12 \<le> h2"
    using lower_hex [OF h(1)] lower_hex [OF h(2)] b by auto
  ultimately show ?thesis using h(3,4)
    by (auto simp: s surrogate_def isHex_def Let_def)
qed

lemma surrogate_low_getu4:
  assumes "snd (surrogate x)"
  shows "getu4 x \<noteq> None"
proof -
  from assms have x: "6 \<le> length x" "x ! 0 = CHR 0x5C" "x ! 1 = CHR ''u''" "lower_bit (x ! 2) = 100"
      "isHex (x ! 4)" "isHex (x ! 5)" "lower_bit (x ! 3) \<in> {99, 100, 101, 102}"
    by (auto simp: surrogate_def Let_def split: if_splits)
  obtain b u a1 a2 a3 a4 t where l: "x = b # u # a1 # a2 # a3 # a4 # t"
    using x(1) by (auto simp: numeral_eq_Suc Suc_le_length_iff)
  have hex: "hex_val c \<noteq> None" if "lower_bit c \<in> {99, 100, 101, 102}" for c
  proof -
    have "bval c = lower_bit c \<or> bval c + 32 = lower_bit c" by (simp add: lower_bit_def)
    then show ?thesis using that by (auto simp: hex_val_def)
  qed
  have "hex_val a1 \<noteq> None" by (rule hex) (use x(4) in \<open>simp add: l\<close>)
  moreover have "hex_val a2 \<noteq> None" by (rule hex) (use x(7) in \<open>simp add: l\<close>)
  ultimately show ?thesis using x by (auto simp: l getu4_def isHex_def)
qed

lemma getu4_append: "getu4 s = Some r \<Longrightarrow> getu4 (s @ t) = Some r"
  by (erule getu4_cases) (simp add: getu4_def)

lemma getu4_take:
  assumes "getu4 s = Some r"
  shows "length (take 6 s) = 6" and "getu4 (take 6 s) = Some r"
  by (rule getu4_cases [OF assms]; simp add: getu4_def)+

lemma unquote_inner_esc:
  "unquote_inner (CHR 0x5C # s) = Some out \<Longrightarrow>
     \<exists>e t. s = e # t \<and> (e = CHR ''u'' \<longrightarrow> getu4 (CHR 0x5C # s) \<noteq> None)"
  by (subst (asm) unquote_inner.simps) (auto split: list.splits if_splits option.splits)

lemma getu4_decodable:
  assumes "unquote_inner s = Some out" and "t = [] \<or> hd t \<noteq> CHR 0x5C"
  shows "getu4 (s @ t) = getu4 s"
proof (cases s)
  case Nil
  then show ?thesis using assms(2) by (cases t) (auto simp: getu4_def split: list.splits)
next
  case (Cons c u)
  show ?thesis
  proof (cases "c = CHR 0x5C")
    case True
    with assms(1) Cons obtain e v where e: "u = e # v" "e = CHR ''u'' \<longrightarrow> getu4 s \<noteq> None"
      using unquote_inner_esc by blast
    show ?thesis
    proof (cases "getu4 s")
      case None
      with e have "e \<noteq> CHR ''u''" by auto
      then show ?thesis using Cons e by (auto simp: getu4_def split: list.splits)
    qed (simp add: getu4_append)
  next
    case False
    then show ?thesis using Cons by (auto simp: getu4_def split: list.splits)
  qed
qed

section \<open>The repair decodes as the text did\<close>

text \<open>A piece of repaired text: it decodes to \<open>out\<close>, is valid UTF-8, and is left as it is.\<close>

definition text_piece :: "bytes \<Rightarrow> bytes \<Rightarrow> bool" where
  "text_piece r out \<longleftrightarrow>
     (\<forall>t. unquote_inner (r @ t) = map_option ((@) out) (unquote_inner t)) \<and> utf8_valid r \<and>
     (\<forall>t. validText_loop (r @ t) = r @ validText_loop t)"

lemma text_piece_Nil: "text_piece [] []"
  by (auto simp: text_piece_def map_option_case split: option.splits)

lemma text_piece_append: "text_piece p a \<Longrightarrow> text_piece q b \<Longrightarrow> text_piece (p @ q) (a @ b)"
  by (auto simp: text_piece_def utf8_valid_append map_option_case split: option.splits)

lemma text_piece_plain:
  assumes "32 \<le> bval c" and "bval c < 128" and "c \<noteq> CHR 0x22" and "c \<noteq> CHR 0x5C"
  shows "text_piece [c] [c]"
  using assms json_piece_plain [OF assms] by (simp add: text_piece_def json_piece_def validText_loop_plain)

lemma text_piece_rune: "valid_rune r \<Longrightarrow> 128 \<le> r \<Longrightarrow> text_piece (encode_rune r) (encode_rune r)"
  using json_piece_rune [of r] by (simp add: text_piece_def json_piece_def validText_loop_rune encode_rune_valid)

lemma text_piece_escape:
  assumes "simple_escape e = Some x"
  shows "text_piece [CHR 0x5C, e] [x]"
proof -
  have e: "e \<noteq> CHR ''u''" "bval e < 128"
    using assms by (auto simp: simple_escape_def bval_def split: if_splits)
  then have "unquote_inner ([CHR 0x5C, e] @ t) = map_option ((@) [x]) (unquote_inner t)" for t
    using assms by (subst unquote_inner.simps) (simp add: map_option_case split: option.splits)
  moreover have "bval (CHR 0x5C) < 128" by (simp add: bval_def)
  ultimately show ?thesis using e by (simp add: text_piece_def validText_loop_escape surrogate_no_u)
qed

lemma hex4_tail:
  assumes "hex_val a1 = Some h1" "hex_val a2 = Some h2" "hex_val a3 = Some h3" "hex_val a4 = Some h4"
  shows "validText_loop (a1 # a2 # a3 # a4 # t) = a1 # a2 # a3 # a4 # validText_loop t"
    and "utf8_valid [CHR 0x5C, CHR ''u'', a1, a2, a3, a4]"
  using hex_val_plain [OF assms(1)] hex_val_plain [OF assms(2)] hex_val_plain [OF assms(3)]
    hex_val_plain [OF assms(4)] by (simp_all add: validText_loop_plain bval_def)

lemma text_piece_u4:
  assumes "getu4 p = Some r" and "length p = 6" and "\<not> is_surrogate r"
  shows "text_piece p (encode_rune r)"
  using assms(1)
proof (rule getu4_cases)
  fix a1 a2 a3 a4 t h1 h2 h3 h4
  assume s: "p = CHR 0x5C # CHR ''u'' # a1 # a2 # a3 # a4 # t"
    and h: "hex_val a1 = Some h1" "hex_val a2 = Some h2" "hex_val a3 = Some h3" "hex_val a4 = Some h4"
    and r: "r = h1 * 4096 + h2 * 256 + h3 * 16 + h4"
  have t: "t = []" using s assms(2) by simp
  have "surrogate (p @ u) = (False, False)" for u
    using surrogate_getu4 [OF getu4_append [OF assms(1)]] assms(3)
    by (auto simp: high_half_def low_half_def is_surrogate_def)
  then have "validText_loop (p @ u) = p @ validText_loop u" for u
    using hex4_tail(1) [OF h] by (simp add: s t validText_loop_escape)
  then show ?thesis using json_piece_u4 [OF h r assms(3)] hex4_tail(2) [OF h]
    by (simp add: text_piece_def json_piece_def s t)
qed

lemma text_piece_fffd: "text_piece fffd_escape (encode_rune rune_error)"
  unfolding fffd_escape_def
  by (rule text_piece_u4) (simp_all add: getu4_def hex_val_def bval_def is_surrogate_def rune_error_def)

lemma validText_loop_pair:
  assumes "getu4 p = Some r" and "getu4 q = Some l" and "length p = 6" and "length q = 6"
    and "high_half r" and "low_half l"
  shows "validText_loop (p @ q @ t) = p @ q @ validText_loop t"
proof -
  have "surrogate (p @ q @ t) = (True, False)" "snd (surrogate (q @ t))"
    using surrogate_getu4 [OF getu4_append [OF assms(1)], of "q @ t"]
      surrogate_getu4 [OF getu4_append [OF assms(2)], of t] assms(5,6)
    by (auto simp: high_half_def low_half_def)
  moreover obtain e u where "p = CHR 0x5C # e # u" using assms(1) by (rule getu4_cases)
  ultimately show ?thesis using assms(3,4)
    by (subst validText_loop.simps) (auto split: prod.splits)
qed

lemma text_piece_pair:
  assumes "getu4 p = Some r" and "getu4 q = Some l" and "length p = 6" and "length q = 6"
    and d: "decode_surrogates r (Some l) = Some d"
  shows "text_piece (p @ q) (encode_rune d)"
proof -
  have h: "high_half r" "low_half l" using d by (auto simp: decode_surrogates_def high_half_def low_half_def split: if_splits)
  then have s: "is_surrogate r" by (auto simp: high_half_def is_surrogate_def)
  obtain a1 a2 a3 a4 t h1 h2 h3 h4 where p: "p = CHR 0x5C # CHR ''u'' # a1 # a2 # a3 # a4 # t"
    "hex_val a1 = Some h1" "hex_val a2 = Some h2" "hex_val a3 = Some h3" "hex_val a4 = Some h4"
    using assms(1) by (rule getu4_cases)
  obtain b1 b2 b3 b4 u k1 k2 k3 k4 where q: "q = CHR 0x5C # CHR ''u'' # b1 # b2 # b3 # b4 # u"
    "hex_val b1 = Some k1" "hex_val b2 = Some k2" "hex_val b3 = Some k3" "hex_val b4 = Some k4"
    using assms(2) by (rule getu4_cases)
  have "t = []" "u = []" using p(1) q(1) assms(3,4) by auto
  then have v: "utf8_valid (p @ q)"
    using hex4_tail(2) [OF p(2-5)] hex4_tail(2) [OF q(2-5)] p(1) q(1) utf8_valid_append [of p q] by simp
  have "unquote_inner ((p @ q) @ t) = map_option ((@) (encode_rune d)) (unquote_inner t)" for t
    using getu4_append [OF assms(1), of "q @ t"] getu4_append [OF assms(2), of t] s d assms(3,4) p(1)
    by (subst unquote_inner.simps) auto
  then show ?thesis using v validText_loop_pair [OF assms(1-4) h] by (simp add: text_piece_def)
qed

lemma validText_loop_lone:
  assumes "surrogate s = (high, low)" and "high \<or> low" and "\<not> (high \<and> snd (surrogate (drop 6 s)))"
  shows "validText_loop s = fffd_escape @ validText_loop (drop 6 s)"
proof -
  have "6 \<le> length s" "s ! 0 = CHR 0x5C"
    using assms(1,2) by (auto simp: surrogate_def split: if_splits)
  moreover from this have "s \<noteq> []" by auto
  moreover have "hd s = CHR 0x5C" using calculation by (simp add: hd_conv_nth)
  ultimately show ?thesis using assms by (subst validText_loop.simps) (auto split: prod.splits)
qed

lemma validText_loop_decodes:
  "unquote_inner s = Some out \<Longrightarrow>
     \<exists>r. text_piece r out \<and>
       (\<forall>t. (t = [] \<or> bval (hd t) < 128 \<and> hd t \<noteq> CHR 0x5C) \<longrightarrow> validText_loop (s @ t) = r @ validText_loop t)"
proof (induction s arbitrary: out rule: length_induct)
  case (1 s)
  have step: ?case
    if "s = p @ u" "p \<noteq> []" "unquote_inner u = Some o2" "out = o1 @ o2" "text_piece r o1"
      "\<And>t. t = [] \<or> bval (hd t) < 128 \<and> hd t \<noteq> CHR 0x5C \<Longrightarrow>
         validText_loop (p @ u @ t) = r @ validText_loop (u @ t)"
    for p u o1 o2 r
  proof -
    have "length u < length s" using that(1,2) by simp
    with "1.IH" that(3) obtain r2 where r2: "text_piece r2 o2"
      "\<And>t. t = [] \<or> bval (hd t) < 128 \<and> hd t \<noteq> CHR 0x5C \<Longrightarrow> validText_loop (u @ t) = r2 @ validText_loop t"
      by blast
    have "text_piece (r @ r2) out" using text_piece_append [OF that(5) r2(1)] that(4) by simp
    then show ?thesis using r2(2) that(1,6) by (intro exI [of _ "r @ r2"]) simp
  qed
  have keep: ?case if "s = p @ u" "p \<noteq> []" "unquote_inner u = Some o2" "out = o1 @ o2" "text_piece p o1"
    for p u o1 o2 using step [OF that] that(5) by (auto simp: text_piece_def)
  show ?case
  proof (cases s)
    case Nil
    with "1.prems" text_piece_Nil show ?thesis by (intro exI [of _ "[]"]) simp
  next
    case (Cons c u)
    note eq = "1.prems" [unfolded unquote_inner.simps [of s]]
    show ?thesis
    proof (cases "c = CHR 0x5C")
      case bs: True
      then obtain e v where u: "u = e # v" using eq Cons by (cases u) auto
      show ?thesis
      proof (cases "e = CHR ''u''")
        case False
        with eq Cons bs u obtain x o2 where "simple_escape e = Some x" "unquote_inner v = Some o2" "out = [x] @ o2"
          by (auto split: option.splits)
        with keep [of "[c, e]" v o2 "[x]"] Cons u bs text_piece_escape show ?thesis by simp
      next
        case True
        obtain r where r: "getu4 s = Some r" using eq Cons bs u True by (auto split: option.splits)
        define p where "p = take 6 s"
        have len: "length p = 6" and rp: "getu4 p = Some r" and s6: "s = p @ drop 6 s"
          unfolding p_def using getu4_take [OF r] by simp_all
        have pn: "p \<noteq> []" using len by auto
        show ?thesis
        proof (cases "is_surrogate r")
          case False
          then obtain o2 where "unquote_inner (drop 6 s) = Some o2" "out = encode_rune r @ o2"
            using eq Cons bs u True r by (auto split: option.splits)
          with keep [OF s6 pn] text_piece_u4 [OF rp len False] show ?thesis by blast
        next
          case surr: True
          show ?thesis
          proof (cases "decode_surrogates r (getu4 (drop 6 s))")
            case (Some d)
            then obtain l where l: "getu4 (drop 6 s) = Some l" "decode_surrogates r (Some l) = Some d"
              by (cases "getu4 (drop 6 s)") (auto simp: decode_surrogates_def)
            define q where "q = take 6 (drop 6 s)"
            have lq: "length q = 6" "getu4 q = Some l"
              unfolding q_def using getu4_take [OF l(1)] by simp_all
            have "drop 6 s = q @ drop 12 s"
              unfolding q_def using append_take_drop_id [of 6 "drop 6 s"] by (simp del: append_take_drop_id)
            with s6 have s12: "s = (p @ q) @ drop 12 s" by (metis append_assoc)
            obtain o2 where "unquote_inner (drop 12 s) = Some o2" "out = encode_rune d @ o2"
              using eq Cons bs u True r surr Some by (auto split: option.splits)
            with keep [OF s12] pn text_piece_pair [OF rp lq(2) len lq(1) l(2)] show ?thesis by blast
          next
            case None
            then obtain o2 where o2: "unquote_inner (drop 6 s) = Some o2" "out = encode_rune rune_error @ o2"
              using eq Cons bs u True r surr by (auto split: option.splits)
            have "validText_loop (p @ drop 6 s @ t) = fffd_escape @ validText_loop (drop 6 s @ t)"
              if t: "t = [] \<or> bval (hd t) < 128 \<and> hd t \<noteq> CHR 0x5C" for t
            proof -
              let ?u = "drop 6 s @ t"
              have g: "getu4 ?u = getu4 (drop 6 s)" using getu4_decodable [OF o2(1)] t by blast
              have "surrogate (p @ ?u) = (high_half r, low_half r)"
                using surrogate_getu4 [OF getu4_append [OF rp]] .
              moreover have "\<not> (high_half r \<and> snd (surrogate ?u))"
              proof
                assume h: "high_half r \<and> snd (surrogate ?u)"
                then obtain l where l: "getu4 ?u = Some l" using surrogate_low_getu4 by blast
                with h surrogate_getu4 [OF l] have "low_half l" by simp
                then have "decode_surrogates r (getu4 (drop 6 s)) \<noteq> None"
                  using h l g by (auto simp: decode_surrogates_def high_half_def low_half_def)
                with None show False by simp
              qed
              moreover have "high_half r \<or> low_half r"
                using surr by (auto simp: is_surrogate_def high_half_def low_half_def)
              ultimately show ?thesis
                using validText_loop_lone [of "p @ ?u" "high_half r" "low_half r"] len by simp
            qed
            from step [OF s6 pn o2 text_piece_fffd this] show ?thesis by blast
          qed
        qed
      qed
    next
      case nbs: False
      show ?thesis
      proof (cases "bval c < 128")
        case True
        with eq Cons nbs obtain o2 where "unquote_inner u = Some o2" "out = [c] @ o2"
          "c \<noteq> CHR 0x22" "32 \<le> bval c" by (auto split: if_splits)
        with keep [of "[c]" u o2 "[c]"] True nbs text_piece_plain [of c] Cons show ?thesis by simp
      next
        case high: False
        let ?d = "decode_rune s"
        obtain o2 where o2: "unquote_inner (drop (snd ?d) s) = Some o2" "out = encode_rune (fst ?d) @ o2"
          using eq Cons nbs high by (auto split: if_splits)
        show ?thesis
        proof (cases "bad_rune s")
          case True
          then have d: "?d = (rune_error, 1)" by (simp add: bad_rune_def prod_eq_iff)
          have "validText_loop ([c] @ u @ t) = fffd_escape @ validText_loop (u @ t)"
            if t: "t = [] \<or> bval (hd t) < 128 \<and> hd t \<noteq> CHR 0x5C" for t
          proof -
            have "decode_rune (s @ t) = decode_rune s"
              using Cons t by (intro decode_rune_append) auto
            then have "bad_rune (c # u @ t)" using True Cons by (simp add: bad_rune_def)
            then show ?thesis using validText_loop_bad by simp
          qed
          from step [of "[c]" u, OF _ _ _ _ text_piece_fffd this] o2 d Cons show ?thesis by simp
        next
          case False
          then obtain r w where r: "valid_rune r" "s = encode_rune r @ w" "?d = (r, length (encode_rune r))"
            using decode_ok [of s] Cons by blast
          have "128 \<le> r"
          proof (rule ccontr)
            assume "\<not> 128 \<le> r"
            then have "encode_rune r = [char_of r]" by (simp add: encode_rune_ascii)
            then have "c = char_of r" using r(2) Cons by simp
            then show False using high \<open>\<not> 128 \<le> r\<close> by (simp add: bval_char_of)
          qed
          then have "text_piece (encode_rune r) (encode_rune r)" by (rule text_piece_rune [OF r(1)])
          moreover have "drop (snd ?d) s = w" "fst ?d = r" using r(2,3) by simp_all
          ultimately show ?thesis using keep [OF r(2)] o2 encode_rune_not_Nil by metis
        qed
      qed
    qed
  qed
qed

lemma utf8_valid_snoc_ascii: "bval c < 128 \<Longrightarrow> utf8_valid (s @ [c]) \<Longrightarrow> utf8_valid s"
proof (induction s rule: utf8_induct)
  case (Bad d s)
  then have "decode_rune ((d # s) @ [c]) = decode_rune (d # s)" by (intro decode_rune_append) simp_all
  with Bad(1) have "bad_rune ((d # s) @ [c])" by (simp add: bad_rune_def del: decode_rune.simps)
  with Bad.prems show ?case using utf8_valid_bad by blast
qed simp_all

lemma unquote_quoted: "unquote (quoted s) = unquote_inner s"
  by (simp add: unquote_def quoted_def butlast_append)

lemma validText_token:
  assumes "unquote (quoted s) = Some out"
  shows "\<exists>r. validText (quoted s) = quoted r \<and> unquote (quoted r) = Some out \<and> utf8_valid r
    \<and> validText (quoted r) = quoted r"
proof (cases "utf8_valid (quoted s) \<and> \<not> surrogateEscapes (quoted s)")
  case True
  then have "utf8_valid (s @ [CHR 0x22])" by (simp add: quoted_def bval_def)
  then have "utf8_valid s" using utf8_valid_snoc_ascii [of "CHR 0x22" s] by (simp add: bval_def)
  with True assms show ?thesis by (intro exI [of _ s]) (simp add: validText_def)
next
  case False
  from validText_loop_decodes assms obtain r where r: "text_piece r out"
    "\<And>t. t = [] \<or> bval (hd t) < 128 \<and> hd t \<noteq> CHR 0x5C \<Longrightarrow> validText_loop (s @ t) = r @ validText_loop t"
    unfolding unquote_quoted by blast
  have q: "validText_loop [CHR 0x22] = [CHR 0x22]" by (simp add: validText_loop_plain bval_def)
  have "validText_loop (quoted s) = quoted r"
    using r(2) [of "[CHR 0x22]"] q by (simp add: quoted_def validText_loop_plain bval_def)
  moreover have "validText_loop (quoted r) = quoted r"
    using r(1) q by (simp add: quoted_def validText_loop_plain bval_def text_piece_def)
  moreover have "unquote (quoted r) = Some out" "utf8_valid r"
    using r(1) by (auto simp: unquote_quoted text_piece_def dest!: spec [of _ "[]"])
  ultimately show ?thesis using False by (intro exI [of _ r]) (auto simp: validText_def)
qed

text \<open>
  The repair copies the byte after a backslash as it is, so a backslash before a multi-byte rune
  splits the rune: the lead byte stays, and the bytes after it are replaced.
\<close>

lemma validText_splits_rune:
  "\<not> utf8_valid (validText [CHR 0x5C, CHR 0xC3, CHR 0xA9, CHR 0xFF])"
proof -
  let ?b = "[CHR 0x5C, CHR 0xC3, CHR 0xA9, CHR 0xFF]"
  have bad: "bad_rune (CHR 0xA9 # t)" "bad_rune (CHR 0xFF # t)" "bad_rune (CHR 0xC3 # CHR 0x5C # t)" for t
    by (simp_all add: bad_rune_def bval_def second_ok_def second_lo_def)
  have ascii: "utf8_valid (CHR 0x5C # t) = utf8_valid t" for t by (simp add: bval_def)
  have "validText_loop ?b = [CHR 0x5C, CHR 0xC3] @ fffd_escape @ fffd_escape"
    by (simp add: validText_loop_escape surrogate_no_u validText_loop_bad bad)
  moreover have "\<not> utf8_valid ?b"
  proof
    assume "utf8_valid ?b"
    moreover have "char_of (195::nat) = CHR 0xC3" "char_of (169::nat) = CHR 0xA9"
      by (rule bval_inject [THEN iffD1]; simp add: bval_char_of; simp add: bval_def)+
    then have "encode_rune 233 = [CHR 0xC3, CHR 0xA9]" by (simp add: encode_rune_def valid_rune_def)
    ultimately have "utf8_valid (encode_rune 233 @ [CHR 0xFF])" by (simp add: ascii)
    then have "utf8_valid [CHR 0xFF]" by (subst (asm) utf8_valid_encode) (simp_all add: valid_rune_def)
    then show False using utf8_valid_bad [OF bad(2)] by simp
  qed
  ultimately show ?thesis
    using utf8_valid_bad [OF bad(3)] by (simp add: validText_def fffd_escape_def ascii)
qed

end
