(* ===== verification/Json_Splice.thy ===== *)
theory Json_Splice
  imports Json_Text
begin

text \<open>
  Edits of a provider body that leave every byte outside the edited span as it came
  (proxy/providers/jsonsplice/jsonsplice.go). Spans are half-open ranges of the body; an error
  is \<open>Inl\<close> with the message's kind. The package's own scanners are those of the translator:
  its forward string scan finds the quote the translator finds by counting backslashes back.
\<close>

section \<open>Data\<close>

definition maxSpliceBytes :: nat where
  "maxSpliceBytes = 1073741824"

record Span =
  Start :: int
  End :: int

record Candidate = Span +
  Original :: bytes

record FieldInsertion =
  Name :: bytes
  Value :: bytes

datatype splice_error =
    CountMismatch | InvalidRange | InvalidReplacement | BodyTooLarge | InvalidObjectRange
  | InvalidFieldInsertion | InvalidArrayRange | InvalidElementInsertion

definition span :: "nat \<Rightarrow> nat \<Rightarrow> Span" where
  "span i j = \<lparr>Start = int i, End = int j\<rparr>"

section \<open>Scanning\<close>

function js_space :: "bytes \<Rightarrow> nat \<Rightarrow> nat" where
  "js_space body i =
     (if i < length body \<and> body ! i \<in> set [CHR '' '', CHR 0x0A, CHR 0x0D, CHR 0x09]
      then js_space body (Suc i) else i)"
  by pat_completeness auto
termination
  by (relation "measure (\<lambda>(b, i). length b - i)") auto

declare js_space.simps [simp del]

function js_string_loop :: "bytes \<Rightarrow> nat \<Rightarrow> nat option" where
  "js_string_loop body i =
     (if i < length body then
        (if body ! i = CHR 0x5C then js_string_loop body (Suc (Suc i))
         else if body ! i = CHR 0x22 then Some (Suc i)
         else js_string_loop body (Suc i))
      else None)"
  by pat_completeness auto
termination
  by (relation "measure (\<lambda>(b, i). length b - i)") auto

declare js_string_loop.simps [simp del]

definition js_stringEnd :: "bytes \<Rightarrow> nat \<Rightarrow> nat option" where
  "js_stringEnd body start =
     (if length body \<le> start \<or> body ! start \<noteq> CHR 0x22 then None
      else js_string_loop body (Suc start))"

lemma js_string_loop_bounds: "js_string_loop b i = Some e \<Longrightarrow> i < e \<and> e \<le> length b"
proof (induction b i rule: js_string_loop.induct)
  case (1 b i)
  then show ?case by (subst (asm) (3) js_string_loop.simps) (fastforce split: if_splits)
qed

lemma js_stringEnd_bounds [scan_bounds]: "js_stringEnd b i = Some e \<Longrightarrow> i < e \<and> e \<le> length b"
  using js_string_loop_bounds [of b "Suc i" e] by (auto simp: js_stringEnd_def split: if_splits)

function js_container :: "bytes \<Rightarrow> nat \<Rightarrow> int \<Rightarrow> nat option" where
  "js_container body j depth =
     (if j < length body then
        (if body ! j = CHR 0x22 then
           (case js_stringEnd body j of None \<Rightarrow> None | Some e \<Rightarrow> js_container body e depth)
         else if body ! j = CHR ''{'' \<or> body ! j = CHR ''['' then js_container body (Suc j) (depth + 1)
         else if body ! j = CHR ''}'' \<or> body ! j = CHR '']'' then
           (if depth - 1 = 0 then Some (Suc j) else js_container body (Suc j) (depth - 1))
         else js_container body (Suc j) depth)
      else None)"
  by pat_completeness auto
termination
  by (relation "measure (\<lambda>(b, j, _). length b - j)") (auto dest!: js_stringEnd_bounds)

declare js_container.simps [simp del]

function js_atomEnd :: "bytes \<Rightarrow> nat \<Rightarrow> nat" where
  "js_atomEnd body j =
     (if j < length body \<and> body ! j \<notin> set [CHR '','', CHR ''}'', CHR '']'', CHR '' '', CHR 0x0A, CHR 0x0D, CHR 0x09]
      then js_atomEnd body (Suc j) else j)"
  by pat_completeness auto
termination
  by (relation "measure (\<lambda>(b, i). length b - i)") auto

declare js_atomEnd.simps [simp del]

definition js_value :: "bytes \<Rightarrow> nat \<Rightarrow> nat option" where
  "js_value body start =
     (let i = js_space body start in
      if length body \<le> i then None
      else if body ! i = CHR 0x22 then js_stringEnd body i
      else if body ! i = CHR ''{'' \<or> body ! i = CHR ''['' then js_container body i 0
      else let j = js_atomEnd body i in if i < j then Some j else None)"

section \<open>The scanners are the translator's\<close>

lemma js_space_eq: "js_space b i = skipSpace b i"
proof (induction b i rule: js_space.induct)
  case (1 b i)
  then show ?case
    by (subst js_space.simps, subst skipSpace.simps) (auto simp: isSpace_def)
qed

lemma js_string_loop_scan: "i \<le> length b \<Longrightarrow> js_string_loop b i = map_option ((+) i) (str_scan (drop i b))"
proof (induction b i rule: js_string_loop.induct)
  case (1 b i)
  show ?case
  proof (cases "drop i b" rule: str_scan.cases)
    case 1
    then show ?thesis using \<open>i \<le> length b\<close> by (subst js_string_loop.simps) simp
  next
    case (2 c)
    have "length b - i = 1" using arg_cong [OF 2, of length] by simp
    with nth_via_drop [OF 2] have i: "i < length b" "b ! i = c" "length b = Suc i" by simp_all
    have "js_string_loop b (Suc i) = None" "js_string_loop b (Suc (Suc i)) = None"
      using i by (subst js_string_loop.simps; simp)+
    with i 2 show ?thesis by (subst js_string_loop.simps) auto
  next
    case (3 c d s)
    have "length b - i = Suc (Suc (length s))" using arg_cong [OF 3, of length] by simp
    with nth_via_drop [OF 3] have i: "Suc (Suc i) \<le> length b" "b ! i = c" by simp_all
    have i': "drop (Suc i) b = d # s" "drop (Suc (Suc i)) b = s"
      using arg_cong [OF 3, of "drop 1"] arg_cong [OF 3, of "drop 2"] by simp_all
    show ?thesis using 3 i i' "1.IH" by (subst js_string_loop.simps) (auto simp: option.map_comp comp_def)
  qed
qed

lemma js_stringEnd_eq: "i < length b \<Longrightarrow> b ! i = CHR 0x22 \<Longrightarrow> js_stringEnd b i = stringEnd b i"
  by (simp add: js_stringEnd_def js_string_loop_scan stringEnd_scan)

lemma js_container_eq: "js_container b j d = containerEnd b j d"
proof (induction b j d rule: js_container.induct)
  case (1 b j d)
  then show ?case
    by (subst js_container.simps, subst containerEnd.simps)
      (auto simp: js_stringEnd_eq split: option.splits)
qed

section \<open>Reading\<close>

lemma js_space_ge: "i \<le> js_space b i"
  by (simp add: js_space_eq skipSpace_ge)

lemma js_atomEnd_le: "j \<le> length b \<Longrightarrow> js_atomEnd b j \<le> length b"
proof (induction b j rule: js_atomEnd.induct)
  case (1 b j)
  then show ?case by (subst js_atomEnd.simps) auto
qed

lemma js_value_bounds [scan_bounds]: "js_value b i = Some e \<Longrightarrow> i < e \<and> e \<le> length b"
  using js_space_ge [of i b] js_atomEnd_le [of "js_space b i" b]
  by (auto simp: js_value_def Let_def js_container_eq split: if_splits
      dest: js_stringEnd_bounds containerEnd_bounds)

definition Root :: "bytes \<Rightarrow> Span option" where
  "Root body =
     (if \<not> json_valid body then None
      else
        let start = js_space body 0 in
        case js_value body start of
          None \<Rightarrow> None
        | Some e \<Rightarrow>
            if start < length body \<and> body ! start = CHR ''{'' \<and> js_space body e = length body
            then Some (span start e) else None)"

text \<open>\<open>ends\<close>: the guard on an object's or an array's span.\<close>

definition ends :: "bytes \<Rightarrow> Span \<Rightarrow> char \<Rightarrow> char \<Rightarrow> bool" where
  "ends body s opn cls \<longleftrightarrow>
     \<not> (Start s < 0 \<or> End s > int (length body) \<or> Start s \<ge> End s \<or>
        body ! nat (Start s) \<noteq> opn \<or> body ! nat (End s - 1) \<noteq> cls)"

function Field_loop :: "bytes \<Rightarrow> nat \<Rightarrow> bytes \<Rightarrow> nat \<Rightarrow> Span option" where
  "Field_loop body objEnd name i =
     (if i < objEnd \<and> body ! i \<noteq> CHR ''}'' then
        (case js_stringEnd body i of
           None \<Rightarrow> None
         | Some keyEnd \<Rightarrow>
             (case unmarshal_string (slice body i keyEnd) of
                None \<Rightarrow> None
              | Some key \<Rightarrow>
                  let c = js_space body keyEnd in
                  if objEnd \<le> c \<or> body ! c \<noteq> CHR '':'' then None
                  else
                    let start = js_space body (Suc c) in
                    (case js_value body start of
                       None \<Rightarrow> None
                     | Some e \<Rightarrow>
                         if key = name then Some (span start e)
                         else
                           let s = js_space body e in
                           Field_loop body objEnd name
                             (if s < objEnd \<and> body ! s = CHR '','' then js_space body (Suc s) else s))))
      else None)"
  by pat_completeness auto
termination
proof (relation "measure (\<lambda>(body, _, _, i). length body - i)", goal_cases)
  case (2 body objEnd name i keyEnd key c start e s)
  have k: "keyEnd \<le> length body" using js_stringEnd_bounds [of body i keyEnd] 2 by auto
  have "i < keyEnd" using js_stringEnd_bounds [of body i keyEnd] 2 by auto
  also have "keyEnd \<le> c" using 2 js_space_ge by simp
  also have "c < start" using 2 js_space_ge [of "Suc c" body] by simp
  also have "start < e" using 2 js_value_bounds [of body start e] by simp
  also have "e \<le> s" using 2 js_space_ge by simp
  finally have "i < (if s < objEnd \<and> body ! s = CHR '','' then js_space body (Suc s) else s)"
    using js_space_ge [of "Suc s" body] by simp
  moreover have "i < length body" using k js_stringEnd_bounds [of body i keyEnd] 2 by auto
  ultimately have "length body - (if s < objEnd \<and> body ! s = CHR '','' then js_space body (Suc s) else s)
      < length body - i" by linarith
  then show ?case by simp
qed simp

declare Field_loop.simps [simp del]

definition Field :: "bytes \<Rightarrow> Span \<Rightarrow> bytes \<Rightarrow> Span option" where
  "Field body ob name =
     (if \<not> ends body ob (CHR ''{'') (CHR ''}'') then None
      else Field_loop body (nat (End ob)) name (js_space body (nat (Start ob + 1))))"

function Elements_loop :: "bytes \<Rightarrow> nat \<Rightarrow> nat \<Rightarrow> Span list \<Rightarrow> Span list option" where
  "Elements_loop body arrEnd i out =
     (if i < arrEnd \<and> body ! i \<noteq> CHR '']'' then
        (case js_value body i of
           None \<Rightarrow> None
         | Some e \<Rightarrow>
             let s = js_space body e in
             Elements_loop body arrEnd
               (if s < arrEnd \<and> body ! s = CHR '','' then js_space body (Suc s) else s)
               (out @ [span i e]))
      else Some out)"
  by pat_completeness auto
termination
proof (relation "measure (\<lambda>(body, _, i, _). length body - i)", goal_cases)
  case (2 body arrEnd i out e s)
  have e: "i < length body" using js_value_bounds [of body i e] 2 by auto
  have "i < e" using js_value_bounds [of body i e] 2 by auto
  also have "e \<le> s" using 2 js_space_ge by simp
  finally have "i < (if s < arrEnd \<and> body ! s = CHR '','' then js_space body (Suc s) else s)"
    using js_space_ge [of "Suc s" body] by simp
  with e have "length body - (if s < arrEnd \<and> body ! s = CHR '','' then js_space body (Suc s) else s)
      < length body - i" by linarith
  then show ?case by simp
qed simp

declare Elements_loop.simps [simp del]

definition Elements :: "bytes \<Rightarrow> Span \<Rightarrow> Span list option" where
  "Elements body arr =
     (if \<not> ends body arr (CHR ''['') (CHR '']'') then None
      else Elements_loop body (nat (End arr)) (js_space body (nat (Start arr + 1))) [])"

definition String :: "bytes \<Rightarrow> Span \<Rightarrow> bytes option" where
  "String body s =
     (if Start s < 0 \<or> End s > int (length body) \<or> Start s \<ge> End s \<or> body ! nat (Start s) \<noteq> CHR 0x22
      then None
      else unmarshal_string (slice body (nat (Start s)) (nat (End s))))"

definition StringField :: "bytes \<Rightarrow> Span \<Rightarrow> bytes \<Rightarrow> bytes option" where
  "StringField body ob name =
     (case Field body ob name of None \<Rightarrow> None | Some s \<Rightarrow> String body s)"

section \<open>Editing\<close>

text \<open>\<open>json.Encoder\<close> without HTML escaping, its final newline trimmed.\<close>

definition quote :: "bytes \<Rightarrow> bytes" where
  "quote v = marshal_string False v"

text \<open>\<open>out\<close> is \<open>None\<close> while it is nil: no candidate has been replaced yet.\<close>

fun Replace_loop :: "bytes \<Rightarrow> (Candidate \<times> bytes option) list \<Rightarrow> bytes option \<Rightarrow> int \<Rightarrow>
    splice_error + (bytes option \<times> int)" where
  "Replace_loop body [] out last_end = Inr (out, last_end)"
| "Replace_loop body ((c, replacement) # rest) out last_end =
     (if Start c < last_end \<or> End c > int (length body) \<or> Start c \<ge> End c then Inl InvalidRange
      else case replacement of
        None \<Rightarrow> Replace_loop body rest out last_end
      | Some r \<Rightarrow>
          if r = Original c then Replace_loop body rest out last_end
          else
            Replace_loop body rest
              (Some ((case out of None \<Rightarrow> [] | Some x \<Rightarrow> x) @ slice body (nat last_end) (nat (Start c)) @ quote r))
              (End c))"

definition Replace :: "bytes \<Rightarrow> Candidate list \<Rightarrow> bytes option list \<Rightarrow> splice_error + bytes" where
  "Replace body candidates replacements =
     (if length candidates \<noteq> length replacements then Inl CountMismatch
      else case Replace_loop body (zip candidates replacements) None 0 of
        Inl e \<Rightarrow> Inl e
      | Inr (None, _) \<Rightarrow> Inr body
      | Inr (Some out, last_end) \<Rightarrow> Inr (out @ drop (nat last_end) body))"

definition ReplaceRaw :: "bytes \<Rightarrow> Span \<Rightarrow> bytes \<Rightarrow> splice_error + bytes" where
  "ReplaceRaw body s replacement =
     (if Start s < 0 \<or> End s > int (length body) \<or> Start s \<ge> End s then Inl InvalidRange
      else if \<not> json_valid replacement then Inl InvalidReplacement
      else if maxSpliceBytes < length body \<or> maxSpliceBytes < length replacement then Inl BodyTooLarge
      else Inr (take (nat (Start s)) body @ replacement @ drop (nat (End s)) body))"

text \<open>Where an insertion goes: before the space that precedes the closing bracket.\<close>

fun insert_at :: "bytes \<Rightarrow> nat \<Rightarrow> nat \<Rightarrow> nat" where
  "insert_at body start 0 = 0"
| "insert_at body start (Suc k) =
     (if start + 1 < Suc k \<and> body ! k \<in> set [CHR '' '', CHR 0x0A, CHR 0x0D, CHR 0x09]
      then insert_at body start k else Suc k)"

definition field_text :: "FieldInsertion \<Rightarrow> bytes" where
  "field_text f = marshal_string True (Name f) @ '':'' @ Value f"

definition AppendObjectFields :: "bytes \<Rightarrow> Span \<Rightarrow> FieldInsertion list \<Rightarrow> splice_error + bytes" where
  "AppendObjectFields body ob fs =
     (if \<not> ends body ob (CHR ''{'') (CHR ''}'') then Inl InvalidObjectRange
      else if fs = [] then Inr body
      else
        let at = insert_at body (nat (Start ob)) (nat (End ob - 1));
            addition = (if nat (Start ob) + 1 < at then '','' else []) @ join_with '','' (map field_text fs)
        in
        if \<exists>f \<in> set fs. Name f = [] \<or> \<not> json_valid (Value f) then Inl InvalidFieldInsertion
        else if maxSpliceBytes < length body \<or> maxSpliceBytes < length addition then Inl BodyTooLarge
        else Inr (take at body @ addition @ drop at body))"

definition AppendArrayElements :: "bytes \<Rightarrow> Span \<Rightarrow> bytes list \<Rightarrow> splice_error + bytes" where
  "AppendArrayElements body arr elements =
     (if \<not> ends body arr (CHR ''['') (CHR '']'') then Inl InvalidArrayRange
      else if elements = [] then Inr body
      else
        let at = insert_at body (nat (Start arr)) (nat (End arr - 1));
            addition = (if nat (Start arr) + 1 < at then '','' else []) @ join_with '','' elements
        in
        if \<exists>e \<in> set elements. \<not> json_valid e then Inl InvalidElementInsertion
        else if maxSpliceBytes < length body \<or> maxSpliceBytes < length addition then Inl BodyTooLarge
        else Inr (take at body @ addition @ drop at body))"

section \<open>Replacing string tokens\<close>

text \<open>A candidate that is a string token of the body, as the validity scanner sees it.\<close>

definition string_token :: "bytes \<Rightarrow> Candidate \<Rightarrow> bool" where
  "string_token body c \<longleftrightarrow>
     0 \<le> Start c \<and> Start c < End c \<and> End c \<le> int (length body) \<and> body ! nat (Start c) = CHR 0x22 \<and>
     (\<exists>st. scan (BeginValue, []) (take (Suc (nat (Start c))) body) = (InString, st) \<and>
           scan (BeginValue, []) (take (nat (End c)) body) = (EndValue, st))"

lemma scan_quote_token: "scan (InString, st) (tl (quote r)) = (EndValue, st)"
  using json_pieceD(2) [OF std_plain.body_piece]
  by (simp add: quote_def marshal_string_def quoted_def scan_append)

lemma quote_head: "quote r = CHR 0x22 # tl (quote r)"
  by (simp add: quote_def marshal_string_def quoted_def)

lemma take_to_slice: "i \<le> j \<Longrightarrow> take i b @ slice b i j = take j b"
  using slice_append [of 0 i j b] by (simp add: slice_def)

lemma Replace_loop_Some: "Replace_loop body cs (Some x) i = Inr (out', j) \<Longrightarrow> out' \<noteq> None"
  by (induction cs arbitrary: x i) (auto split: if_splits option.splits)

lemma Replace_loop_scan:
  assumes "\<And>c. c \<in> fst ` set cs \<Longrightarrow> string_token body c"
    and "Replace_loop body cs out i = Inr (out', j)" and "0 \<le> i" and "i \<le> int (length body)"
    and "scan (BeginValue, []) (case out of None \<Rightarrow> [] | Some x \<Rightarrow> x) = scan (BeginValue, []) (take (nat i) body)"
  shows "0 \<le> j \<and> j \<le> int (length body) \<and>
    scan (BeginValue, []) (case out' of None \<Rightarrow> [] | Some x \<Rightarrow> x) = scan (BeginValue, []) (take (nat j) body) \<and>
    (out' = None \<longrightarrow> j = i)"
  using assms
proof (induction cs arbitrary: out i)
  case Nil
  then show ?case by simp
next
  case (Cons cr cs)
  obtain c r where cr: "cr = (c, r)" by force
  have tok: "string_token body c" using Cons.prems(1) cr by simp
  have guard: "i \<le> Start c" using Cons.prems(2) by (simp add: cr split: if_splits)
  show ?case
  proof (cases "r = None \<or> r = Some (Original c)")
    case True
    then have "Replace_loop body cs out i = Inr (out', j)"
      using Cons.prems(2) by (auto simp: cr split: if_splits)
    with Cons.IH [of out i] Cons.prems show ?thesis by simp
  next
    case False
    then obtain x where x: "r = Some x" "x \<noteq> Original c" by auto
    let ?o = "(case out of None \<Rightarrow> [] | Some x \<Rightarrow> x) @ slice body (nat i) (nat (Start c)) @ quote x"
    have loop: "Replace_loop body cs (Some ?o) (End c) = Inr (out', j)"
      using Cons.prems(2) x by (auto simp: cr split: if_splits)
    from tok obtain st where st: "scan (BeginValue, []) (take (Suc (nat (Start c))) body) = (InString, st)"
        "scan (BeginValue, []) (take (nat (End c)) body) = (EndValue, st)"
      and c: "0 \<le> Start c" "Start c < End c" "End c \<le> int (length body)" "body ! nat (Start c) = CHR 0x22"
      unfolding string_token_def by blast
    have "nat (Start c) < length body" using c by linarith
    then have open_quote: "take (Suc (nat (Start c))) body = take (nat (Start c)) body @ [CHR 0x22]"
      using c(4) by (simp add: take_Suc_conv_app_nth)
    have "scan (BeginValue, []) ?o = scan (scan (BeginValue, []) (take (nat (Start c)) body)) (quote x)"
      using Cons.prems(5) guard Cons.prems(3) take_to_slice [of "nat i" "nat (Start c)" body]
      by (simp add: scan_append) (metis nat_mono scan_append)
    also have "\<dots> = scan (InString, st) (tl (quote x))"
      using st(1) open_quote by (subst quote_head) (simp add: scan_append)
    also have "\<dots> = scan (BeginValue, []) (take (nat (End c)) body)"
      using st(2) scan_quote_token by simp
    finally have s: "scan (BeginValue, []) ?o = scan (BeginValue, []) (take (nat (End c)) body)" .
    have "out' \<noteq> None" using Replace_loop_Some [OF loop] .
    with Cons.IH [OF _ loop] Cons.prems(1) c s show ?thesis by auto
  qed
qed

lemma Replace_keeps_valid:
  assumes "\<And>c. c \<in> set cs \<Longrightarrow> string_token body c" and "Replace body cs rs = Inr out"
  shows "json_valid out = json_valid body"
proof -
  have toks: "\<And>c. c \<in> fst ` set (zip cs rs) \<Longrightarrow> string_token body c"
    using assms(1) by (auto dest: set_zip_leftD)
  from assms(2) consider (same) "out = body"
    | (new) x j where "Replace_loop body (zip cs rs) None 0 = Inr (Some x, j)" "out = x @ drop (nat j) body"
    by (auto simp: Replace_def split: if_splits sum.splits prod.splits option.splits)
  then show ?thesis
  proof cases
    case new
    from Replace_loop_scan [OF toks new(1)] have "scan (BeginValue, []) x = scan (BeginValue, []) (take (nat j) body)"
      by simp
    then have "scan (BeginValue, []) out = scan (BeginValue, []) body"
      unfolding new(2) scan_append by (metis append_take_drop_id scan_append)
    then show ?thesis by (simp add: json_valid_def)
  qed simp
qed

lemma Replace_one:
  assumes "string_token body c" and "r \<noteq> Original c"
  shows "Replace body [c] [Some r] =
    Inr (take (nat (Start c)) body @ quote r @ drop (nat (End c)) body)"
  using assms by (simp add: Replace_def string_token_def slice_def)

lemma Replace_loop_noop:
  assumes "\<And>c r. (c, r) \<in> set cs \<Longrightarrow> string_token body c \<and> (r = None \<or> r = Some (Original c))"
    and "\<And>c r. (c, r) \<in> set cs \<Longrightarrow> i \<le> Start c"
  shows "Replace_loop body cs None i = Inr (None, i)"
  using assms
proof (induction cs)
  case (Cons cr cs)
  obtain c r where cr: "cr = (c, r)" by force
  have tok: "string_token body c" "r = None \<or> r = Some (Original c)" "i \<le> Start c"
    using Cons.prems [of c r] cr by auto
  have "Replace_loop body cs None i = Inr (None, i)" using Cons by auto
  with tok show ?case by (auto simp: cr string_token_def)
qed simp

section \<open>Arrays: the splicer's elements are the translator's\<close>

lemma js_atomEnd_takeWhile: "j \<le> length b \<Longrightarrow>
   js_atomEnd b j = j + length (takeWhile (\<lambda>c. \<not> (c = CHR '','' \<or> c = CHR ''}'' \<or> c = CHR '']'' \<or> isSpace c)) (drop j b))"
proof (induction b j rule: js_atomEnd.induct)
  case (1 b j)
  let ?P = "\<lambda>c. \<not> (c = CHR '','' \<or> c = CHR ''}'' \<or> c = CHR '']'' \<or> isSpace c)"
  have P: "?P c \<longleftrightarrow> c \<notin> set [CHR '','', CHR ''}'', CHR '']'', CHR '' '', CHR 0x0A, CHR 0x0D, CHR 0x09]" for c
    by (auto simp: isSpace_def)
  show ?case
  proof (cases "j < length b \<and> ?P (b ! j)")
    case True
    then have "drop j b = b ! j # drop (Suc j) b" by (simp add: Cons_nth_drop_Suc)
    moreover have "js_atomEnd b j = js_atomEnd b (Suc j)"
      using True unfolding P by (subst js_atomEnd.simps) simp
    moreover have "js_atomEnd b (Suc j) = Suc j + length (takeWhile ?P (drop (Suc j) b))"
      using 1 True unfolding P by simp
    ultimately show ?thesis using True by simp
  next
    case False
    then have "takeWhile ?P (drop j b) = []"
      by (cases "j < length b") (auto simp: Cons_nth_drop_Suc [symmetric])
    moreover have "js_atomEnd b j = j" using False unfolding P by (subst js_atomEnd.simps) auto
    ultimately show ?thesis by simp
  qed
qed

text \<open>The two value readers differ only on a bare word that a colon ends.\<close>

lemma js_value_eq:
  assumes "valueEnd b i = Some e" and "\<not> isSpace (b ! i)" and "e < length b \<Longrightarrow> b ! e \<noteq> CHR '':''"
  shows "js_value b i = Some e"
proof -
  have il: "i < length b" using valueEnd_bounds [OF assms(1)] by simp
  have sp: "js_space b i = i" using skipSpace_id [OF il assms(2)] by (simp add: js_space_eq)
  show ?thesis
  proof (cases "b ! i = CHR 0x22 \<or> b ! i = CHR ''{'' \<or> b ! i = CHR ''[''")
    case True
    then show ?thesis using assms(1) il sp
      by (auto simp: js_value_def valueEnd_def js_stringEnd_eq js_container_eq)
  next
    case False
    let ?P = "\<lambda>c. \<not> (c = CHR '','' \<or> c = CHR ''}'' \<or> c = CHR '']'' \<or> isSpace c)"
    have e: "e = atomEnd b i" "i < e"
      using assms(1) False il valueEnd_bounds [OF assms(1)] by (auto simp: valueEnd_def Let_def split: if_splits)
    have a: "e = i + length (takeWhile (\<lambda>c. \<not> atom_stop c) (drop i b))"
      using e(1) il by (simp add: atomEnd_takeWhile)
    have "takeWhile ?P (drop i b) = takeWhile (\<lambda>c. \<not> atom_stop c) (drop i b)"
    proof -
      let ?w = "takeWhile (\<lambda>c. \<not> atom_stop c) (drop i b)"
      have split: "drop i b = ?w @ drop e b" using a by (metis append_take_drop_id drop_drop takeWhile_eq_take add.commute)
      have "\<forall>c \<in> set ?w. ?P c" by (auto simp: atom_stop_def dest: set_takeWhileD)
      then have "takeWhile ?P (drop i b) = ?w @ takeWhile ?P (drop e b)"
        by (subst split) (rule takeWhile_append2, blast)
      moreover have "takeWhile ?P (drop e b) = []"
      proof (cases "e < length b")
        case True
        have dw: "dropWhile (\<lambda>c. \<not> atom_stop c) (drop i b) = drop e b"
          using split by (metis append_eq_append_conv takeWhile_dropWhile_id)
        have "drop e b \<noteq> []" using True by simp
        then have "atom_stop (hd (drop e b))"
          using hd_dropWhile [of "\<lambda>c. \<not> atom_stop c" "drop i b"] unfolding dw by simp
        then have "atom_stop (b ! e)" using True by (simp add: hd_drop_conv_nth)
        with assms(3) [OF True] True show ?thesis
          by (auto simp: atom_stop_def Cons_nth_drop_Suc [symmetric])
      qed simp
      ultimately show ?thesis by simp
    qed
    then have "js_atomEnd b i = e" using a il by (simp add: js_atomEnd_takeWhile)
    then show ?thesis using False il sp e(2) by (simp add: js_value_def Let_def)
  qed
qed

lemma Elements_loop_items:
  "arrayItems_from b i dst = (xs, True) \<Longrightarrow> i < length b \<Longrightarrow> \<not> isSpace (b ! i) \<Longrightarrow>
   b ! (length b - 1) = CHR '']'' \<Longrightarrow>
     \<exists>ss. Elements_loop b (length b) i out = Some (out @ ss) \<and>
       xs = dst @ map (\<lambda>s. slice b (nat (Start s)) (nat (End s))) ss"
proof (induction b i dst arbitrary: out rule: arrayItems_from.induct)
  case (1 b i dst)
  from "1.prems"(1) obtain e where e: "valueEnd b i = Some e"
    by (subst (asm) arrayItems_from.simps) (auto split: option.splits)
  define s where "s = skipSpace b e"
  define dst' where "dst' = dst @ [slice b i e]"
  have step: "arrayItems_from b i dst =
      (if length b \<le> s then (dst', False)
       else if b ! s = CHR '']'' then (dst', s = length b - 1)
       else if b ! s \<noteq> CHR '','' then (dst', False)
       else arrayItems_from b (skipSpace b (Suc s)) dst')"
    using e by (subst arrayItems_from.simps) (simp add: s_def dst'_def Let_def)
  then have s: "s < length b" "b ! s = CHR '']'' \<or> b ! s = CHR '',''"
    using "1.prems"(1) by (auto split: if_splits)
  have "b ! e \<noteq> CHR '':''"
  proof
    assume c: "b ! e = CHR '':''"
    have "e \<le> s" unfolding s_def by (rule skipSpace_ge)
    then have "e < length b" using s(1) by simp
    then have "s = e" unfolding s_def using c by (intro skipSpace_id) (auto simp: isSpace_def)
    with c s(2) show False by simp
  qed
  with js_value_eq [OF e "1.prems"(3)] have v: "js_value b i = Some e" by simp
  have vb: "valueEnd b i \<noteq> None" using e by simp
  have nb: "b ! i \<noteq> CHR '']''"
  proof
    assume c: "b ! i = CHR '']''"
    then have "atomEnd b i = i" by (subst atomEnd.simps) (simp add: atom_stop_def)
    with c vb show False by (simp add: valueEnd_def split: if_splits)
  qed
  have loop: "Elements_loop b (length b) i out =
      Elements_loop b (length b) (if b ! s = CHR '','' then skipSpace b (Suc s) else s) (out @ [span i e])"
    using v nb "1.prems"(2) s(1) by (subst Elements_loop.simps) (simp add: js_space_eq s_def)
  have sl: "slice b (nat (Start (span i e))) (nat (End (span i e))) = slice b i e" by (simp add: span_def)
  show ?case
  proof (cases "b ! s = CHR '']''")
    case True
    then have "Elements_loop b (length b) s (out @ [span i e]) = Some (out @ [span i e])"
      by (subst Elements_loop.simps) simp
    moreover have "xs = dst'" using True step s(1) "1.prems"(1) by simp
    ultimately show ?thesis using loop True sl by (intro exI [of _ "[span i e]"]) (simp add: dst'_def)
  next
    case False
    then have comma: "b ! s = CHR '',''" using s(2) by simp
    let ?n = "skipSpace b (Suc s)"
    have rec: "arrayItems_from b ?n dst' = (xs, True)" using step comma s(1) "1.prems"(1) by simp
    then have nl: "?n < length b"
      by (subst (asm) arrayItems_from.simps) (auto dest: valueEnd_bounds split: option.splits)
    then have "\<not> isSpace (b ! ?n)" by (rule skipSpace_stop)
    from "1.IH" [OF e dst'_def s_def _ False _ rec nl this "1.prems"(4), of "out @ [span i e]"] s(1) comma
    obtain ss where "Elements_loop b (length b) ?n (out @ [span i e]) = Some ((out @ [span i e]) @ ss)"
      "xs = dst' @ map (\<lambda>s. slice b (nat (Start s)) (nat (End s))) ss" by auto
    then show ?thesis using loop comma sl by (intro exI [of _ "span i e # ss"]) (simp add: dst'_def)
  qed
qed

lemma Elements_items:
  assumes "arrayItems b [] = (xs, True)"
  shows "\<exists>ss. Elements b (span 0 (length b)) = Some ss \<and>
    map (\<lambda>s. slice b (nat (Start s)) (nat (End s))) ss = xs"
proof -
  from assms have b: "2 \<le> length b" "b ! 0 = CHR ''[''" "b ! (length b - 1) = CHR '']''"
    by (auto simp: arrayItems_def split: if_splits)
  have en: "ends b (span 0 (length b)) (CHR ''['') (CHR '']'')"
    using b by (auto simp: ends_def span_def nat_diff_distrib)
  define i where "i = skipSpace b 1"
  have i: "i < length b"
  proof (rule ccontr)
    assume "\<not> i < length b"
    moreover have "i \<le> length b" using b unfolding i_def by (intro skipSpace_le) simp
    ultimately have "i = length b" by simp
    moreover have "i = 1 + length (takeWhile isSpace (drop 1 b))"
      unfolding i_def using b(1) by (intro skipSpace_takeWhile) simp
    ultimately have "length (takeWhile isSpace (drop 1 b)) = length (drop 1 b)"
      by simp
    then have "takeWhile isSpace (drop 1 b) = drop 1 b" by (metis takeWhile_eq_take take_all order_refl)
    then have all: "\<forall>x \<in> set (drop 1 b). isSpace x" by (simp only: takeWhile_eq_all_conv)
    have "b \<noteq> []" using b(1) by auto
    then have "last (drop 1 b) = CHR '']''" using b last_conv_nth [of b] by (simp add: last_drop)
    moreover have "drop 1 b \<noteq> []" using b(1) by simp
    ultimately have "CHR '']'' \<in> set (drop 1 b)" by (metis last_in_set)
    with all have "isSpace (CHR '']'')" by blast
    then show False by (simp add: isSpace_def)
  qed
  have ns: "\<not> isSpace (b ! i)" using i unfolding i_def by (rule skipSpace_stop)
  have e: "Elements b (span 0 (length b)) = Elements_loop b (length b) i []"
    using en by (simp add: Elements_def js_space_eq i_def span_def)
  show ?thesis
  proof (cases "b ! i = CHR '']''")
    case True
    then have "xs = []" using assms b by (simp add: arrayItems_def i_def split: if_splits)
    moreover have "Elements_loop b (length b) i [] = Some []" using True by (subst Elements_loop.simps) simp
    ultimately show ?thesis using e by simp
  next
    case False
    then have "arrayItems_from b i [] = (xs, True)"
      using assms b by (simp add: arrayItems_def i_def Let_def split: if_splits)
    from Elements_loop_items [OF this i ns b(3), of "[]"] show ?thesis using e by auto
  qed
qed

end
