(* ===== verification/Go_Map.thy ===== *)
theory Go_Map
  imports Prelude
begin

text \<open>
  Go maps with ordered keys, and decimal numbers. A map is its members sorted by key, so that
  equal maps are equal values; the locale \<open>go_map\<close> is what the components use of it: an
  assignment updates the lookup, and the lookup determines the map.
\<close>

section \<open>The interface\<close>

locale go_map =
  fixes empty :: 'm and put :: "'k \<Rightarrow> 'v \<Rightarrow> 'm \<Rightarrow> 'm" and lookup :: "'m \<Rightarrow> 'k \<Rightarrow> 'v option"
    and inv :: "'m \<Rightarrow> bool"
  assumes lookup_empty: "lookup empty = Map.empty"
    and lookup_put: "inv m \<Longrightarrow> lookup (put k v m) = (lookup m)(k \<mapsto> v)"
    and inv_empty: "inv empty"
    and inv_put: "inv m \<Longrightarrow> inv (put k v m)"
    and lookup_inj: "inv m \<Longrightarrow> inv m' \<Longrightarrow> lookup m = lookup m' \<Longrightarrow> m = m'"
begin

lemma puts_spec:
  "inv m \<Longrightarrow> inv (foldl (\<lambda>m p. put (fst p) (snd p) m) m kvs) \<and>
     lookup (foldl (\<lambda>m p. put (fst p) (snd p) m) m kvs) = lookup m ++ last_of kvs"
proof (induction kvs rule: rev_induct)
  case (snoc p kvs)
  obtain k v where p: "p = (k, v)" by force
  with snoc show ?case
    by (auto simp: lookup_put inv_put last_of_snoc map_add_def fun_eq_iff split: option.splits)
qed simp

lemma puts_lookup: "lookup (foldl (\<lambda>m p. put (fst p) (snd p) m) empty kvs) = last_of kvs"
  using puts_spec [OF inv_empty, of kvs] by (simp add: lookup_empty)

lemma puts_inv: "inv (foldl (\<lambda>m p. put (fst p) (snd p) m) empty kvs)"
  using puts_spec [OF inv_empty, of kvs] by simp

text \<open>With distinct keys the order of the assignments does not matter.\<close>

lemma puts_order:
  assumes "distinct (map fst kvs)" and "distinct (map fst kvs')" and "set kvs = set kvs'"
  shows "foldl (\<lambda>m p. put (fst p) (snd p) m) empty kvs
    = foldl (\<lambda>m p. put (fst p) (snd p) m) empty kvs'"
proof (rule lookup_inj [OF puts_inv puts_inv])
  have "map_of kvs = map_of kvs'" using map_of_inject_set [OF assms(1,2)] assms(3) by simp
  then show "lookup (foldl (\<lambda>m p. put (fst p) (snd p) m) empty kvs)
      = lookup (foldl (\<lambda>m p. put (fst p) (snd p) m) empty kvs')"
    using assms(1,2) by (simp add: puts_lookup last_of_distinct)
qed

end

section \<open>Members sorted by key\<close>

fun map_put :: "'k::linorder \<Rightarrow> 'v \<Rightarrow> ('k \<times> 'v) list \<Rightarrow> ('k \<times> 'v) list" where
  "map_put k v [] = [(k, v)]"
| "map_put k v ((k', v') # m) =
     (if k < k' then (k, v) # (k', v') # m
      else if k = k' then (k, v) # m
      else (k', v') # map_put k v m)"

definition map_inv :: "('k::linorder \<times> 'v) list \<Rightarrow> bool" where
  "map_inv m \<longleftrightarrow> sorted_wrt (<) (map fst m)"

lemma map_put_keys: "fst ` set (map_put k v m) = insert k (fst ` set m)"
proof (induction m)
  case (Cons p m)
  obtain k' v' where "p = (k', v')" by force
  with Cons show ?case by (cases "k < k'"; cases "k = k'") (simp_all add: insert_commute)
qed simp

lemma map_inv_put: "map_inv m \<Longrightarrow> map_inv (map_put k v m)"
  unfolding map_inv_def
proof (induction m)
  case (Cons p m)
  obtain k' v' where p: "p = (k', v')" by force
  have "\<forall>x \<in> set (map fst (map_put k v m)). k' < x" if "k' < k"
    using that Cons.prems map_put_keys [of k v m] by (auto simp: p)
  then show ?case using Cons by (auto simp: p not_less le_less)
qed simp

lemma map_of_put: "map_of (map_put k v m) = (map_of m)(k \<mapsto> v)"
  by (induction m) (auto split: if_splits)

lemma map_inv_distinct: "map_inv m \<Longrightarrow> distinct (map fst m)"
  by (simp add: map_inv_def strict_sorted_iff)

lemma map_inv_inj:
  assumes "map_inv m" and "map_inv m'" and "map_of m = map_of m'"
  shows "m = m'"
proof -
  have d: "distinct (map fst m)" "distinct (map fst m')" using assms map_inv_distinct by auto
  then have s: "set m = set m'" using assms(3) map_of_inject_set by blast
  have "sorted_wrt (\<lambda>x y. fst x < fst y) m" "sorted_wrt (\<lambda>x y. fst x < fst y) m'"
    using assms(1,2) by (simp_all add: map_inv_def sorted_wrt_map)
  then show ?thesis using s
  proof (induction m arbitrary: m')
    case (Cons p m)
    then obtain q n where m': "m' = q # n" by (cases m') auto
    have "p = q"
    proof (rule ccontr)
      assume "p \<noteq> q"
      with Cons.prems(3) m' have "p \<in> set n" "q \<in> set m" by auto
      with Cons.prems(1,2) m' have "fst q < fst p" "fst p < fst q" by auto
      then show False by simp
    qed
    moreover have "set m = set n"
      using Cons.prems m' \<open>p = q\<close> by fastforce
    ultimately show ?case using Cons m' by simp
  qed simp
qed

interpretation gm: go_map "[]" map_put map_of map_inv
  by unfold_locales (simp_all add: map_of_put map_inv_put map_inv_inj, simp add: map_inv_def)

section \<open>Decimal numbers\<close>

definition digit_char :: "nat \<Rightarrow> char" where
  "digit_char d = char_of (48 + d)"

function itoa :: "nat \<Rightarrow> bytes" where
  "itoa n = (if n < 10 then [digit_char n] else itoa (n div 10) @ [digit_char (n mod 10)])"
  by pat_completeness auto
termination
  by (relation "measure id") auto

declare itoa.simps [simp del]

text \<open>\<open>strconv.Atoi\<close> on digits: out of the range of a 64-bit int it fails.\<close>

definition digits_val :: "bytes \<Rightarrow> nat" where
  "digits_val ds = foldl (\<lambda>a c. 10 * a + (bval c - 48)) 0 ds"

definition max_int :: nat where
  "max_int = 9223372036854775807"

definition atoi :: "bytes \<Rightarrow> nat option" where
  "atoi ds = (if digits_val ds \<le> max_int then Some (digits_val ds) else None)"

lemma bval_digit_char: "d < 10 \<Longrightarrow> bval (digit_char d) = 48 + d"
  by (simp add: digit_char_def bval_char_of)

lemma digits_val_itoa: "digits_val (itoa n) = n"
proof (induction n rule: itoa.induct)
  case (1 n)
  then show ?case
    by (subst itoa.simps) (auto simp: digits_val_def bval_digit_char)
qed

lemma itoa_digits: "c \<in> set (itoa n) \<Longrightarrow> 48 \<le> bval c \<and> bval c \<le> 57"
proof (induction n rule: itoa.induct)
  case (1 n)
  then show ?case
    by (subst (asm) (2) itoa.simps) (auto simp: bval_digit_char split: if_splits)
qed

lemma itoa_not_Nil [simp]: "itoa n \<noteq> []"
  by (subst itoa.simps) simp

lemma atoi_itoa: "n \<le> max_int \<Longrightarrow> atoi (itoa n) = Some n"
  by (simp add: atoi_def digits_val_itoa)

end
