(* ===== verification/Toon.thy ===== *)
theory Toon
  imports Json_Text Go_Map
begin

text \<open>
  The TOON re-encoder (engine/compressors/toon_encode.go, toon_decode.go, toon_eligible.go,
  toon.go): JSON is read token by token into a \<open>toonValue\<close>, written as indented lines, and read
  back by the line decoder.

  A writer returns the text it appends to the builder, \<open>None\<close> when it gives up (the builder is
  then thrown away). The decoder works on the list of the lines still to read, where the code
  has the whole slice and an index.
\<close>

section \<open>Values\<close>

datatype toonValue =
    toonNull
  | toonBool bool
  | toonNumber bytes
  | toonString bytes
  | toonObject "(bytes \<times> toonValue) list"
  | toonArray "toonValue list"

text \<open>
  The dynamic values of type \<open>any\<close> the encoder and the decoder handle; a map is its members
  sorted by key.
\<close>

datatype goval =
    GNil
  | GBool bool
  | GNumber bytes
  | GString bytes
  | GSlice "goval list"
  | GMap "(bytes \<times> goval) list"
  | GToon toonValue
  | GOther

record EncodeOptions =
  Delimiter :: char
  FoldKeys :: bool

fun isScalar :: "toonValue \<Rightarrow> bool" where
  "isScalar toonNull = True"
| "isScalar (toonBool b) = True"
| "isScalar (toonNumber s) = True"
| "isScalar (toonString s) = True"
| "isScalar _ = False"

definition scalarArray :: "toonValue list \<Rightarrow> bool" where
  "scalarArray arr = list_all isScalar arr"

fun asTOONValue :: "goval \<Rightarrow> toonValue option" where
  "asTOONValue (GToon t) = Some t"
| "asTOONValue GNil = Some toonNull"
| "asTOONValue (GBool b) = Some (toonBool b)"
| "asTOONValue (GNumber s) = Some (toonNumber s)"
| "asTOONValue (GString s) = Some (toonString s)"
| "asTOONValue (GSlice t) = map_option toonArray (those (map asTOONValue t))"
| "asTOONValue (GMap t) =
     map_option (\<lambda>vs. toonObject (zip (map fst t) vs)) (those (map (\<lambda>m. asTOONValue (snd m)) t))"
| "asTOONValue GOther = None"

fun toonValueToAny :: "toonValue \<Rightarrow> goval" where
  "toonValueToAny toonNull = GNil"
| "toonValueToAny (toonBool b) = GBool b"
| "toonValueToAny (toonNumber s) = GNumber s"
| "toonValueToAny (toonString s) = GString s"
| "toonValueToAny (toonArray arr) = GSlice (map toonValueToAny arr)"
| "toonValueToAny (toonObject obj) =
     GMap (foldl (\<lambda>m p. map_put (fst p) (snd p) m) [] (map (\<lambda>f. (fst f, toonValueToAny (snd f))) obj))"

section \<open>Scalars and keys\<close>

text \<open>A stream decoder reads exactly one number from \<open>s\<close> (space around it is skipped).\<close>

definition validJSONNumber :: "bytes \<Rightarrow> bool" where
  "validJSONNumber s \<longleftrightarrow>
     json_valid s \<and>
     (let v = strip_json_space s in v \<noteq> [] \<and> (hd v = CHR ''-'' \<or> is_digit (hd v)))"

definition is_letter :: "char \<Rightarrow> bool" where
  "is_letter c \<longleftrightarrow> (65 \<le> bval c \<and> bval c \<le> 90) \<or> (97 \<le> bval c \<and> bval c \<le> 122)"

definition key_start :: "char \<Rightarrow> bool" where
  "key_start c \<longleftrightarrow> is_letter c \<or> c = CHR ''_''"

definition key_char :: "char \<Rightarrow> bool" where
  "key_char c \<longleftrightarrow> is_letter c \<or> is_digit c \<or> c = CHR ''_'' \<or> c = CHR ''.'' \<or> c = CHR ''-''"

text \<open>The pattern \<open>^[A-Za-z_][A-Za-z0-9_.-]*$\<close>.\<close>

definition safeTOONKey :: "bytes \<Rightarrow> bool" where
  "safeTOONKey k \<longleftrightarrow> k \<noteq> [] \<and> key_start (hd k) \<and> list_all key_char (tl k)"

definition needsTOONQuote :: "bytes \<Rightarrow> char \<Rightarrow> bool" where
  "needsTOONQuote s delimiter \<longleftrightarrow>
     s = [] \<or> trim_space s \<noteq> s
     \<or> (\<exists>c \<in> set s. c \<in> set [CHR 0x0A, CHR 0x0D, CHR 0x09, CHR 0x22, CHR '':'']) \<or> delimiter \<in> set s
     \<or> hd s \<in> set [CHR ''['', CHR ''{'', CHR 0x22, CHR ''-'']
     \<or> is_digit (hd s)
     \<or> s = ''true'' \<or> s = ''false'' \<or> s = ''null''
     \<or> validJSONNumber s"

fun encodeTOONScalar :: "toonValue \<Rightarrow> char \<Rightarrow> bytes option" where
  "encodeTOONScalar toonNull d = Some ''null''"
| "encodeTOONScalar (toonBool b) d = Some (if b then ''true'' else ''false'')"
| "encodeTOONScalar (toonNumber s) d = (if validJSONNumber s then Some s else None)"
| "encodeTOONScalar (toonString s) d = Some (if needsTOONQuote s d then marshal_string True s else s)"
| "encodeTOONScalar _ d = None"

section \<open>Writing\<close>

definition writeIndent :: "nat \<Rightarrow> bytes" where
  "writeIndent indent = concat (replicate indent ''  '')"

definition newline :: bytes where
  "newline = [CHR 0x0A]"

text \<open>One row of \<open>tabularRows\<close>: the fields of the first object, in its order.\<close>

fun tabular_row :: "bytes list \<Rightarrow> char \<Rightarrow> toonValue \<Rightarrow> bytes list option" where
  "tabular_row fs d (toonObject obj) =
     (if map fst obj = fs \<and> list_all (\<lambda>f. isScalar (snd f)) obj
      then those (map (\<lambda>f. encodeTOONScalar (snd f) d) obj) else None)"
| "tabular_row fs d _ = None"

definition tabularRows :: "toonValue list \<Rightarrow> char \<Rightarrow> (bytes list \<times> bytes list list) option" where
  "tabularRows arr d =
     (case arr of
        toonObject obj # _ \<Rightarrow>
          if obj = [] \<or> \<not> list_all (\<lambda>f. isScalar (snd f)) obj then None
          else map_option (\<lambda>rows. (map fst obj, rows)) (those (map (tabular_row (map fst obj) d) arr))
      | _ \<Rightarrow> None)"

definition writeTOONArray :: "bytes \<Rightarrow> toonValue list \<Rightarrow> nat \<Rightarrow> EncodeOptions \<Rightarrow> bytes option" where
  "writeTOONArray name arr indent opt =
     (if name \<noteq> [] \<and> \<not> safeTOONKey name then None
      else if arr = [] then
        Some (writeIndent indent @ (if name = [] then ''[]'' else name @ ''[0]: []'') @ newline)
      else if scalarArray arr then
        (case those (map (\<lambda>e. encodeTOONScalar e (Delimiter opt)) arr) of
           None \<Rightarrow> None
         | Some cells \<Rightarrow>
             Some (writeIndent indent @ name @ ''['' @ itoa (length arr) @ '']: '' @
               join_with [Delimiter opt] cells @ newline))
      else case tabularRows arr (Delimiter opt) of
        None \<Rightarrow> None
      | Some (fs, rows) \<Rightarrow>
          if \<not> list_all safeTOONKey fs then None
          else
            Some (writeIndent indent @ name @ ''['' @ itoa (length rows) @ '']{'' @ join_with '','' fs @
              ''}:'' @ newline @
              concat (map (\<lambda>row. writeIndent (indent + 1) @ join_with [Delimiter opt] row @ newline) rows)))"

definition writeTOONScalar :: "toonValue \<Rightarrow> bytes \<Rightarrow> nat \<Rightarrow> EncodeOptions \<Rightarrow> bytes option" where
  "writeTOONScalar v name indent opt =
     (case encodeTOONScalar v (Delimiter opt) of
        None \<Rightarrow> None
      | Some encoded \<Rightarrow>
          if name = [] then Some (writeIndent indent @ encoded @ newline)
          else if \<not> safeTOONKey name then None
          else Some (writeIndent indent @ name @ '': '' @ encoded @ newline))"

lemma size_field: "f \<in> set obj \<Longrightarrow> size (snd f) < size_list (size_prod (\<lambda>_. 0) size) obj"
proof -
  assume "f \<in> set obj"
  then have "size_prod (\<lambda>_. 0) size f \<le> size_list (size_prod (\<lambda>_. 0) size) obj"
    by (intro size_list_estimation') auto
  then show ?thesis by (cases f) simp
qed

text \<open>The fields of an object go out by name; the sort is stable.\<close>

function writeTOONValue :: "toonValue \<Rightarrow> bytes \<Rightarrow> nat \<Rightarrow> EncodeOptions \<Rightarrow> bytes option"
  and writeTOONObject :: "(bytes \<times> toonValue) list \<Rightarrow> nat \<Rightarrow> EncodeOptions \<Rightarrow> bytes option" where
  "writeTOONValue v name indent opt =
     (case v of
        toonObject obj \<Rightarrow>
          if name = [] then
            (if obj = [] then Some (''{}'' @ newline) else writeTOONObject obj indent opt)
          else if \<not> safeTOONKey name then None
          else if obj = [] then Some (writeIndent indent @ name @ '': {}'' @ newline)
          else map_option (\<lambda>t. writeIndent indent @ name @ '':'' @ newline @ t)
                 (writeTOONObject obj (indent + 1) opt)
      | toonArray arr \<Rightarrow> writeTOONArray name arr indent opt
      | _ \<Rightarrow> writeTOONScalar v name indent opt)"
| "writeTOONObject flds indent opt =
     map_option concat
       (those (map (\<lambda>f. if \<not> safeTOONKey (fst f) then None
                       else writeTOONValue (snd f) (fst f) indent opt) (sort_key fst flds)))"
  by pat_completeness auto
termination
  by (relation "measure (\<lambda>x. case x of Inl (v, _) \<Rightarrow> size v
        | Inr (flds, _) \<Rightarrow> size_list (size_prod (\<lambda>_. 0) size) flds)")
    (auto dest: size_field)

declare writeTOONValue.simps [simp del] writeTOONObject.simps [simp del]

definition trim_newlines :: "bytes \<Rightarrow> bytes" where
  "trim_newlines s = rev (dropWhile ((=) (CHR 0x0A)) (rev s))"

definition encodeTOON :: "goval \<Rightarrow> EncodeOptions \<Rightarrow> bytes option" where
  "encodeTOON v opt0 =
     (let opt = (if Delimiter opt0 = CHR 0x00 then opt0\<lparr>Delimiter := CHR '',''\<rparr> else opt0) in
      if Delimiter opt \<noteq> CHR '','' \<and> Delimiter opt \<noteq> CHR 0x09 then None
      else case asTOONValue v of
        None \<Rightarrow> None
      | Some tv \<Rightarrow> map_option trim_newlines (writeTOONValue tv [] 0 opt))"

section \<open>Eligibility\<close>

function countTabularEligibility :: "toonValue \<Rightarrow> nat \<times> nat" where
  "countTabularEligibility v =
     (case v of
        toonArray arr \<Rightarrow>
          foldl (\<lambda>(el, total) (e1, t1). (el + e1, total + t1))
            (if tabularRows arr (CHR '','') \<noteq> None then length arr else 0, length arr)
            (map countTabularEligibility arr)
      | toonObject obj \<Rightarrow>
          foldl (\<lambda>(el, total) (e1, t1). (el + e1, total + t1)) (0, 0)
            (map (\<lambda>f. countTabularEligibility (snd f)) obj)
      | _ \<Rightarrow> (0, 0))"
  by pat_completeness auto
termination
  by (relation "measure size") (auto dest: size_field simp: size_list_estimation' less_Suc_eq_le)

declare countTabularEligibility.simps [simp del]

text \<open>The fraction is the pair of its numerator and denominator, \<open>(0, 1)\<close> when nothing counts.\<close>

definition tabularEligibility :: "goval \<Rightarrow> (nat \<times> nat) \<times> bool" where
  "tabularEligibility v =
     (case asTOONValue v of
        None \<Rightarrow> ((0, 1), False)
      | Some tv \<Rightarrow>
          let (el, total) = countTabularEligibility tv;
              top = (case tv of toonArray arr \<Rightarrow> tabularRows arr (CHR '','') \<noteq> None | _ \<Rightarrow> False)
          in (if total = 0 then (0, 1) else (el, total), top))"

section \<open>Lines and their patterns\<close>

record toonLine =
  line_indent :: nat
  line_text :: bytes

text \<open>\<open>strings.Split\<close> on a one-byte separator.\<close>

fun split_on :: "char \<Rightarrow> bytes \<Rightarrow> bytes list" where
  "split_on d [] = [[]]"
| "split_on d (c # s) =
     (if c = d then [] # split_on d s
      else case split_on d s of [] \<Rightarrow> [[c]] | w # ws \<Rightarrow> (c # w) # ws)"

definition scan_line :: "bytes \<Rightarrow> toonLine option" where
  "scan_line line =
     (if trim_space line = [] then None
      else
        let spaces = length (takeWhile ((=) (CHR '' '')) line) in
        if spaces mod 2 \<noteq> 0 then None
        else Some \<lparr>line_indent = spaces div 2, line_text = drop spaces line\<rparr>)"

definition scanTOONLines :: "bytes \<Rightarrow> toonLine list option" where
  "scanTOONLines s0 =
     (let s = trim_newlines s0 in
      if trim_space s = [] then None else those (map scan_line (split_on (CHR 0x0A) s)))"

text \<open>
  The optional key \<open>([A-Za-z_][A-Za-z0-9_.-]*)?\<close> at the start, then the count \<open>\[(\d+)\]\<close>:
  what they match and what is left. No byte a key may hold can follow it in the patterns, so
  the longest key is the only one that can match.
\<close>

definition key_prefix :: "bytes \<Rightarrow> bytes \<times> bytes" where
  "key_prefix s =
     (if s \<noteq> [] \<and> key_start (hd s) then (takeWhile key_char s, dropWhile key_char s) else ([], s))"

definition count_prefix :: "bytes \<Rightarrow> (bytes \<times> bytes) option" where
  "count_prefix s =
     (case s of
        c # t \<Rightarrow>
          if c = CHR ''['' \<and> takeWhile is_digit t \<noteq> [] \<and> prefix '']'' (dropWhile is_digit t)
          then Some (takeWhile is_digit t, tl (dropWhile is_digit t)) else None
      | [] \<Rightarrow> None)"

text \<open>\<open>:(?: (.*))?$\<close>: the text after the colon and the space, empty without them.\<close>

definition value_suffix :: "bytes \<Rightarrow> bytes option" where
  "value_suffix s =
     (if s = '':'' then Some []
      else if prefix '': '' s \<and> CHR 0x0A \<notin> set (drop 2 s) then Some (drop 2 s)
      else None)"

definition toonTabularLineRe :: "bytes \<Rightarrow> (bytes \<times> bytes \<times> bytes) option" where
  "toonTabularLineRe s =
     (case key_prefix s of (key, r) \<Rightarrow>
        (case count_prefix r of
           None \<Rightarrow> None
         | Some (n, r2) \<Rightarrow>
             if prefix ''{'' r2 \<and> dropWhile ((\<noteq>) (CHR ''}'')) (tl r2) = ''}:''
             then Some (key, n, takeWhile ((\<noteq>) (CHR ''}'')) (tl r2)) else None))"

definition toonArrayLineRe :: "bytes \<Rightarrow> (bytes \<times> bytes \<times> bytes) option" where
  "toonArrayLineRe s =
     (case key_prefix s of (key, r) \<Rightarrow>
        (case count_prefix r of
           None \<Rightarrow> None
         | Some (n, r2) \<Rightarrow> map_option (\<lambda>rest. (key, n, rest)) (value_suffix r2)))"

definition toonKeyLineRe :: "bytes \<Rightarrow> (bytes \<times> bytes) option" where
  "toonKeyLineRe s =
     (case key_prefix s of (key, r) \<Rightarrow>
        if key = [] then None else map_option (Pair key) (value_suffix r))"

section \<open>Decoding\<close>

definition parseTOONScalar :: "bytes \<Rightarrow> goval option" where
  "parseTOONScalar s =
     (if s = [] then None
      else if hd s = CHR 0x22 then map_option GString (unmarshal_string s)
      else if s = ''true'' then Some (GBool True)
      else if s = ''false'' then Some (GBool False)
      else if s = ''null'' then Some GNil
      else if validJSONNumber s then Some (GNumber s)
      else if (\<exists>c \<in> set s. c \<in> set [CHR 0x0A, CHR 0x0D, CHR 0x09]) then None
      else if trim_space s \<noteq> s then None
      else Some (GString s))"

definition splitFields :: "bytes \<Rightarrow> bytes list" where
  "splitFields s =
     (if s = [] then []
      else
        let parts = split_on (CHR '','') s in
        if list_all safeTOONKey parts \<and> distinct parts then parts else [])"

text \<open>The loop of \<open>splitTOONCells\<close>: the cell being built, \<open>inQuote\<close> and \<open>escaped\<close>.\<close>

fun split_cells :: "char \<Rightarrow> bytes \<Rightarrow> bytes list \<Rightarrow> bytes \<Rightarrow> bool \<Rightarrow> bool \<Rightarrow> bytes list option" where
  "split_cells d [] out b inQuote escaped = (if inQuote \<or> escaped then None else Some (out @ [b]))"
| "split_cells d (ch # s) out b inQuote escaped =
     (if escaped then split_cells d s out (b @ [ch]) inQuote False
      else if inQuote \<and> ch = CHR 0x5C then split_cells d s out (b @ [ch]) inQuote True
      else if ch = CHR 0x22 then split_cells d s out (b @ [ch]) (\<not> inQuote) False
      else if \<not> inQuote \<and> ch = d then split_cells d s (out @ [b]) [] False False
      else split_cells d s out (b @ [ch]) inQuote False)"

definition splitTOONCells :: "bytes \<Rightarrow> char \<Rightarrow> bytes list option" where
  "splitTOONCells s d = split_cells d s [] [] False False"

text \<open>One row of a table, and the rows of a table of \<open>n\<close> rows.\<close>

definition parse_row :: "bytes list \<Rightarrow> bytes \<Rightarrow> goval option" where
  "parse_row fs s =
     (case splitTOONCells s (CHR '','') of
        None \<Rightarrow> None
      | Some cells \<Rightarrow>
          if length cells \<noteq> length fs then None
          else map_option (\<lambda>vs. GMap (foldl (\<lambda>m p. map_put (fst p) (snd p) m) [] (zip fs vs)))
                 (those (map parseTOONScalar cells)))"

fun parse_rows :: "bytes list \<Rightarrow> nat \<Rightarrow> nat \<Rightarrow> toonLine list \<Rightarrow> (goval list \<times> toonLine list) option" where
  "parse_rows fs indent 0 lines = Some ([], lines)"
| "parse_rows fs indent (Suc n) lines =
     (case lines of
        [] \<Rightarrow> None
      | l # rest \<Rightarrow>
          if line_indent l \<noteq> indent + 1 then None
          else case parse_row fs (line_text l) of
            None \<Rightarrow> None
          | Some row \<Rightarrow> map_option (\<lambda>(rows, r). (row # rows, r)) (parse_rows fs indent n rest))"

definition parseTOONArray :: "toonLine list \<Rightarrow> nat \<Rightarrow> (goval list \<times> toonLine list) option" where
  "parseTOONArray lines indent =
     (let s = line_text (hd lines); rest = tl lines in
      case toonTabularLineRe s of
        Some (_, digits, names) \<Rightarrow>
          (case atoi digits of
             None \<Rightarrow> None
           | Some n \<Rightarrow>
               let fs = splitFields names in
               if fs = [] then None
               else if length rest < n then None
               else parse_rows fs indent n rest)
      | None \<Rightarrow>
          (case toonArrayLineRe s of
             None \<Rightarrow> None
           | Some (_, digits, cells_text) \<Rightarrow>
               (case atoi digits of
                  None \<Rightarrow> None
                | Some n \<Rightarrow>
                    if n = 0 then (if cells_text \<noteq> ''[]'' then None else Some ([], rest))
                    else case splitTOONCells cells_text (CHR '','') of
                      None \<Rightarrow> None
                    | Some cells \<Rightarrow>
                        if length cells \<noteq> n then None
                        else map_option (\<lambda>vs. (vs, rest)) (those (map parseTOONScalar cells)))))"

lemma parse_rows_length: "parse_rows fs d n lines = Some (rows, r) \<Longrightarrow> length r \<le> length lines"
  by (induction n arbitrary: lines rows r) (auto split: list.splits if_splits option.splits intro: le_SucI)

lemma parseTOONArray_length: "lines \<noteq> [] \<Longrightarrow> parseTOONArray lines d = Some (vs, r) \<Longrightarrow> length r < length lines"
proof -
  assume l: "lines \<noteq> []" and p: "parseTOONArray lines d = Some (vs, r)"
  have "length r \<le> length (tl lines)"
    using p by (auto simp: parseTOONArray_def Let_def split: option.splits if_splits prod.splits
        dest: parse_rows_length)
  with l show ?thesis by (cases lines) auto
qed

text \<open>The name in front of a list or a table, when the line is one.\<close>

definition array_name :: "bytes \<Rightarrow> bytes option" where
  "array_name s =
     (case toonTabularLineRe s of
        Some (key, _) \<Rightarrow> if key \<noteq> [] then Some key else
          (case toonArrayLineRe s of Some (k, _) \<Rightarrow> if k \<noteq> [] then Some k else None | None \<Rightarrow> None)
      | None \<Rightarrow> (case toonArrayLineRe s of Some (k, _) \<Rightarrow> if k \<noteq> [] then Some k else None | None \<Rightarrow> None))"

function parseTOONObject :: "toonLine list \<Rightarrow> nat \<Rightarrow> (bytes \<times> goval) list \<Rightarrow>
    ((bytes \<times> goval) list \<times> toonLine list) option" where
  "parseTOONObject lines indent out =
     (case lines of
        [] \<Rightarrow> Some (out, [])
      | l # rest \<Rightarrow>
          if line_indent l < indent then Some (out, lines)
          else if line_indent l > indent then None
          else (case array_name (line_text l) of
             Some name \<Rightarrow>
               if map_of out name \<noteq> None then None
               else (case parseTOONArray lines indent of
                  None \<Rightarrow> None
                | Some (vs, next_lines) \<Rightarrow>
                    parseTOONObject next_lines indent (map_put name (GSlice vs) out))
           | None \<Rightarrow>
               (case toonKeyLineRe (line_text l) of
                  None \<Rightarrow> None
                | Some (key, value) \<Rightarrow>
                    if map_of out key \<noteq> None then None
                    else if value = ''{}'' then parseTOONObject rest indent (map_put key (GMap []) out)
                    else if value = [] then
                      (if rest = [] \<or> line_indent (hd rest) \<noteq> indent + 1 then None
                       else case parseTOONObject rest (indent + 1) [] of
                         None \<Rightarrow> None
                       | Some (child, next_lines) \<Rightarrow>
                           parseTOONObject next_lines indent (map_put key (GMap child) out))
                    else case parseTOONScalar value of
                      None \<Rightarrow> None
                    | Some v \<Rightarrow> parseTOONObject rest indent (map_put key v out))))"
  by pat_completeness auto

lemma parseTOONObject_length:
  "parseTOONObject_dom (lines, d, out) \<Longrightarrow> parseTOONObject lines d out = Some (m, r) \<Longrightarrow> length r \<le> length lines"
proof (induction arbitrary: m r rule: parseTOONObject.pinduct)
  case (1 lines d out)
  note eq = "1.prems" [unfolded parseTOONObject.psimps [OF "1.hyps"]]
  show ?case
  proof (cases lines)
    case Nil
    with eq show ?thesis by simp
  next
    case (Cons l rest)
    show ?thesis
    proof (cases "line_indent l < d")
      case True
      with Cons eq show ?thesis by simp
    next
      case False
      then have d: "\<not> line_indent l > d" using Cons eq by (auto split: if_splits)
      note IH = "1.IH" [OF Cons False d]
      show ?thesis
      proof (cases "array_name (line_text l)")
        case (Some name)
        then obtain vs n where n: "parseTOONArray lines d = Some (vs, n)" "map_of out name = None"
            "parseTOONObject n d (map_put name (GSlice vs) out) = Some (m, r)"
          using Cons False d eq
          by (auto split: if_splits option.splits)
        from IH(5) [OF Some _ n(1) refl n(3)] n(2) have "length r \<le> length n" by simp
        with parseTOONArray_length [OF _ n(1)] Cons show ?thesis by simp
      next
        case None
        then obtain key v where k: "toonKeyLineRe (line_text l) = Some (key, v)" "map_of out key = None"
          using Cons False d eq
          by (auto split: if_splits option.splits)
        consider (empty) "v = ''{}''" "parseTOONObject rest d (map_put key (GMap []) out) = Some (m, r)"
          | (nested) child n where "v \<noteq> ''{}''" "v = []" "\<not> (rest = [] \<or> line_indent (hd rest) \<noteq> d + 1)"
              "parseTOONObject rest (d + 1) [] = Some (child, n)"
              "parseTOONObject n d (map_put key (GMap child) out) = Some (m, r)"
          | (scalar) x where "v \<noteq> ''{}''" "v \<noteq> []" "parseTOONScalar v = Some x"
              "parseTOONObject rest d (map_put key x out) = Some (m, r)"
          using Cons False d None k eq
          by (auto split: if_splits option.splits)
        then show ?thesis
        proof cases
          case empty
          from IH(1) [OF None k(1) refl _ empty] k(2) Cons show ?thesis by simp
        next
          case nested
          from IH(2) [OF None k(1) refl _ nested(1,2,3,4)] k(2) have "length n \<le> length rest" by simp
          moreover from IH(3) [OF None k(1) refl _ nested(1,2,3,4) refl nested(5)] k(2)
          have "length r \<le> length n" by simp
          ultimately show ?thesis using Cons by simp
        next
          case scalar
          from IH(4) [OF None k(1) refl _ scalar] k(2) Cons show ?thesis by simp
        qed
      qed
    qed
  qed
qed

termination parseTOONObject
  by (relation "measure (\<lambda>(lines, _). length lines)")
    (auto dest: parseTOONArray_length [rotated] parseTOONObject_length)

declare parseTOONObject.simps [simp del]

definition parseTOONRoot :: "toonLine list \<Rightarrow> (goval \<times> toonLine list) option" where
  "parseTOONRoot lines =
     (let s = line_text (hd lines); rest = tl lines in
      if s = ''{}'' then Some (GMap [], rest)
      else if s = ''[]'' then Some (GSlice [], rest)
      else if prefix [CHR 0x22] s then map_option (\<lambda>v. (v, rest)) (parseTOONScalar s)
      else if prefix ''['' s then map_option (\<lambda>(vs, r). (GSlice vs, r)) (parseTOONArray lines 0)
      else if CHR '':'' \<notin> set s then map_option (\<lambda>v. (v, rest)) (parseTOONScalar s)
      else map_option (\<lambda>(m, r). (GMap m, r)) (parseTOONObject lines 0 []))"

definition decodeTOON :: "bytes \<Rightarrow> goval option" where
  "decodeTOON inp =
     (case scanTOONLines inp of
        None \<Rightarrow> None
      | Some lines \<Rightarrow>
          if lines = [] \<or> line_indent (hd lines) \<noteq> 0 then None
          else (case parseTOONRoot lines of
             Some (v, []) \<Rightarrow> Some v
           | _ \<Rightarrow> None))"

definition DecodeTOON :: "bytes \<Rightarrow> goval option" where
  "DecodeTOON inp = decodeTOON inp"

section \<open>Reading JSON token by token\<close>

text \<open>
  \<open>json.Decoder\<close> as \<open>Token\<close>, \<open>More\<close> and the scalars of \<open>Decode\<close> use it: the token state with
  its stack, and the bytes not yet read. A scalar ends at the first byte that cannot continue it.
\<close>

datatype tokenState =
    tokenTopValue | tokenArrayStart | tokenArrayValue | tokenArrayComma | tokenObjectStart
  | tokenObjectKey | tokenObjectColon | tokenObjectValue | tokenObjectComma

datatype token = Delim char | TokNull | TokBool bool | TokNumber bytes | TokString bytes

datatype token_error = TokenEOF | TokenSyntax

record decoder =
  tok_state :: tokenState
  tok_stack :: "tokenState list"
  unread :: bytes

definition tokenValueAllowed :: "tokenState \<Rightarrow> bool" where
  "tokenValueAllowed st \<longleftrightarrow> st \<in> {tokenTopValue, tokenArrayStart, tokenArrayValue, tokenObjectValue}"

definition tokenValueEnd :: "tokenState \<Rightarrow> tokenState" where
  "tokenValueEnd st =
     (if st = tokenArrayStart \<or> st = tokenArrayValue then tokenArrayComma
      else if st = tokenObjectValue then tokenObjectComma else st)"

definition final_step :: "jstep \<Rightarrow> bool" where
  "final_step p \<longleftrightarrow> p \<in> {EndValue, State0, State1, Dot0, StateE0}"

fun scalar_length :: "jstep \<Rightarrow> bytes \<Rightarrow> nat option" where
  "scalar_length p [] = (if final_step p then Some 0 else None)"
| "scalar_length p (c # s) =
     (case fst (scan_step (p, []) c) of
        ScanError \<Rightarrow> (if final_step p then Some 0 else None)
      | EndTop \<Rightarrow> (if final_step p then Some 0 else None)
      | q \<Rightarrow> map_option Suc (scalar_length q s))"

definition scalar_token :: "bytes \<Rightarrow> token option" where
  "scalar_token w =
     (if w = [] then None
      else if hd w = CHR 0x22 then map_option TokString (unquote w)
      else if w = ''true'' then Some (TokBool True)
      else if w = ''false'' then Some (TokBool False)
      else if w = ''null'' then Some TokNull
      else Some (TokNumber w))"

definition dec_scalar :: "bytes \<Rightarrow> (token \<times> bytes) option" where
  "dec_scalar s =
     (case scalar_length BeginValue s of
        None \<Rightarrow> None
      | Some n \<Rightarrow> map_option (\<lambda>t. (t, drop n s)) (scalar_token (take n s)))"

definition pop_value :: "decoder \<Rightarrow> bytes \<Rightarrow> decoder" where
  "pop_value dec s =
     \<lparr>tok_state = tokenValueEnd (hd (tok_stack dec)), tok_stack = tl (tok_stack dec), unread = s\<rparr>"

definition push_value :: "decoder \<Rightarrow> tokenState \<Rightarrow> bytes \<Rightarrow> decoder" where
  "push_value dec st s = \<lparr>tok_state = st, tok_stack = tok_state dec # tok_stack dec, unread = s\<rparr>"

lemma unread_shorter:
  assumes "dropWhile is_json_space u = c # s"
  shows "length s < length u"
proof -
  have "length (c # s) \<le> length u" by (simp only: assms [symmetric] length_dropWhile_le)
  then show ?thesis by simp
qed

function Token :: "decoder \<Rightarrow> token_error + (token \<times> decoder)" where
  "Token dec =
     (case dropWhile is_json_space (unread dec) of
        [] \<Rightarrow> Inl TokenEOF
      | c # s \<Rightarrow>
          if c = CHR ''['' then
            (if \<not> tokenValueAllowed (tok_state dec) then Inl TokenSyntax
             else Inr (Delim c, push_value dec tokenArrayStart s))
          else if c = CHR '']'' then
            (if tok_state dec \<noteq> tokenArrayStart \<and> tok_state dec \<noteq> tokenArrayComma then Inl TokenSyntax
             else Inr (Delim c, pop_value dec s))
          else if c = CHR ''{'' then
            (if \<not> tokenValueAllowed (tok_state dec) then Inl TokenSyntax
             else Inr (Delim c, push_value dec tokenObjectStart s))
          else if c = CHR ''}'' then
            (if tok_state dec \<noteq> tokenObjectStart \<and> tok_state dec \<noteq> tokenObjectComma then Inl TokenSyntax
             else Inr (Delim c, pop_value dec s))
          else if c = CHR '':'' then
            (if tok_state dec \<noteq> tokenObjectColon then Inl TokenSyntax
             else Token (dec\<lparr>tok_state := tokenObjectValue, unread := s\<rparr>))
          else if c = CHR '','' then
            (if tok_state dec = tokenArrayComma then Token (dec\<lparr>tok_state := tokenArrayValue, unread := s\<rparr>)
             else if tok_state dec = tokenObjectComma then Token (dec\<lparr>tok_state := tokenObjectKey, unread := s\<rparr>)
             else Inl TokenSyntax)
          else if c = CHR 0x22 \<and> (tok_state dec = tokenObjectStart \<or> tok_state dec = tokenObjectKey) then
            (case dec_scalar (c # s) of
               None \<Rightarrow> Inl TokenSyntax
             | Some (t, r) \<Rightarrow> Inr (t, dec\<lparr>tok_state := tokenObjectColon, unread := r\<rparr>))
          else if \<not> tokenValueAllowed (tok_state dec) then Inl TokenSyntax
          else
            (case dec_scalar (c # s) of
               None \<Rightarrow> Inl TokenSyntax
             | Some (t, r) \<Rightarrow> Inr (t, dec\<lparr>tok_state := tokenValueEnd (tok_state dec), unread := r\<rparr>)))"
  by pat_completeness auto
termination
  by (relation "measure (\<lambda>dec. length (unread dec))") (auto intro: unread_shorter)

declare Token.simps [simp del]

definition More :: "decoder \<Rightarrow> bool" where
  "More dec =
     (case dropWhile is_json_space (unread dec) of
        [] \<Rightarrow> False
      | c # _ \<Rightarrow> c \<noteq> CHR '']'' \<and> c \<noteq> CHR ''}'')"

lemma dec_scalar_shorter: "dec_scalar s = Some (t, r) \<Longrightarrow> length r < length s"
proof -
  assume "dec_scalar s = Some (t, r)"
  then obtain n where n: "scalar_length BeginValue s = Some n" "r = drop n s" "take n s \<noteq> []"
    by (auto simp: dec_scalar_def scalar_token_def split: option.splits if_splits)
  then show ?thesis by auto
qed

lemma Token_shorter: "Token dec = Inr (t, d) \<Longrightarrow> length (unread d) < length (unread dec)"
proof (induction dec arbitrary: t d rule: Token.induct)
  case (1 dec)
  obtain c s where cs: "dropWhile is_json_space (unread dec) = c # s"
    using "1.prems" by (subst (asm) Token.simps) (auto split: list.splits)
  note sh = unread_shorter [OF cs]
  have le: "length (c # s) \<le> length (unread dec)" using sh by simp
  show ?case using "1.prems" "1.IH" [OF cs] sh le
    by (subst (asm) Token.simps)
      (fastforce simp: cs push_value_def pop_value_def split: if_splits option.splits
        dest: dec_scalar_shorter)
qed

function readJSONTOONValue :: "decoder \<Rightarrow> (toonValue \<times> decoder) option"
  and read_fields :: "decoder \<Rightarrow> (bytes \<times> toonValue) list \<Rightarrow> (toonValue \<times> decoder) option"
  and read_elements :: "decoder \<Rightarrow> toonValue list \<Rightarrow> (toonValue \<times> decoder) option" where
  "readJSONTOONValue dec =
     (case Token dec of
        Inl _ \<Rightarrow> None
      | Inr (t, d) \<Rightarrow>
          (case t of
             Delim c \<Rightarrow>
               if c = CHR ''{'' then read_fields d []
               else if c = CHR ''['' then read_elements d []
               else None
           | TokNull \<Rightarrow> Some (toonNull, d)
           | TokBool b \<Rightarrow> Some (toonBool b, d)
           | TokNumber s \<Rightarrow> Some (toonNumber s, d)
           | TokString s \<Rightarrow> Some (toonString s, d)))"
| "read_fields dec flds =
     (if More dec then
        (case Token dec of
           Inr (TokString key, d) \<Rightarrow>
             if key \<in> fst ` set flds then None
             else (case readJSONTOONValue d of
                None \<Rightarrow> None
              | Some (v, d2) \<Rightarrow> read_fields d2 (flds @ [(key, v)]))
         | _ \<Rightarrow> None)
      else
        (case Token dec of
           Inr (Delim c, d) \<Rightarrow> if c = CHR ''}'' then Some (toonObject flds, d) else None
         | _ \<Rightarrow> None))"
| "read_elements dec arr =
     (if More dec then
        (case readJSONTOONValue dec of
           None \<Rightarrow> None
         | Some (v, d) \<Rightarrow> read_elements d (arr @ [v]))
      else
        (case Token dec of
           Inr (Delim c, d) \<Rightarrow> if c = CHR '']'' then Some (toonArray arr, d) else None
         | _ \<Rightarrow> None))"
  by pat_completeness auto

lemma read_shorter:
  "readJSONTOONValue_read_fields_read_elements_dom (Inl dec) \<Longrightarrow>
     (\<forall>v d. readJSONTOONValue dec = Some (v, d) \<longrightarrow> length (unread d) < length (unread dec))"
  "readJSONTOONValue_read_fields_read_elements_dom (Inr (Inl (dec, flds))) \<Longrightarrow>
     (\<forall>v d. read_fields dec flds = Some (v, d) \<longrightarrow> length (unread d) < length (unread dec))"
  "readJSONTOONValue_read_fields_read_elements_dom (Inr (Inr (dec, arr))) \<Longrightarrow>
     (\<forall>v d. read_elements dec arr = Some (v, d) \<longrightarrow> length (unread d) < length (unread dec))"
proof (induction rule: readJSONTOONValue_read_fields_read_elements.pinduct)
  case (1 dec)
  show ?case
  proof (intro allI impI)
    fix v d
    assume eq: "readJSONTOONValue dec = Some (v, d)"
    note eq' = eq [unfolded readJSONTOONValue.psimps [OF "1.hyps"]]
    then obtain t d1 where t: "Token dec = Inr (t, d1)" by (auto split: sum.splits)
    show "length (unread d) < length (unread dec)"
    proof (cases t)
      case (Delim c)
      consider "c = CHR ''{''" "read_fields d1 [] = Some (v, d)"
        | "c \<noteq> CHR ''{''" "c = CHR ''[''" "read_elements d1 [] = Some (v, d)"
        using eq' t Delim by (auto split: if_splits)
      then have "length (unread d) < length (unread d1)"
        using "1.IH"(1) [OF t refl Delim] "1.IH"(2) [OF t refl Delim] by cases blast+
      then show ?thesis using Token_shorter [OF t] by linarith
    qed (use eq' t Token_shorter [OF t] in auto)
  qed
next
  case (2 dec flds)
  show ?case
  proof (intro allI impI)
    fix v d
    assume eq: "read_fields dec flds = Some (v, d)"
    note eq' = eq [unfolded read_fields.psimps [OF "2.hyps"]]
    then obtain t d1 where t: "Token dec = Inr (t, d1)" by (auto split: sum.splits if_splits)
    show "length (unread d) < length (unread dec)"
    proof (cases "More dec")
      case False
      then have "d = d1" using eq' t by (auto split: token.splits if_splits)
      then show ?thesis using Token_shorter [OF t] by simp
    next
      case True
      then obtain key w d2 where key: "t = TokString key" "key \<notin> fst ` set flds"
          and r: "readJSONTOONValue d1 = Some (w, d2)" "read_fields d2 (flds @ [(key, w)]) = Some (v, d)"
        using eq' t by (auto split: token.splits if_splits option.splits)
      have "length (unread d2) < length (unread d1)"
        using "2.IH"(1) [OF True t refl key(1,2)] r(1) by blast
      moreover have "length (unread d) < length (unread d2)"
        using "2.IH"(2) [OF True t refl key(1,2) r(1) refl] r(2) by blast
      ultimately show ?thesis using Token_shorter [OF t] by linarith
    qed
  qed
next
  case (3 dec arr)
  show ?case
  proof (intro allI impI)
    fix v d
    assume eq: "read_elements dec arr = Some (v, d)"
    note eq' = eq [unfolded read_elements.psimps [OF "3.hyps"]]
    show "length (unread d) < length (unread dec)"
    proof (cases "More dec")
      case False
      then obtain c where "Token dec = Inr (Delim c, d)"
        using eq' by (auto split: sum.splits token.splits if_splits)
      then show ?thesis by (rule Token_shorter)
    next
      case True
      then obtain w d2 where r: "readJSONTOONValue dec = Some (w, d2)" "read_elements d2 (arr @ [w]) = Some (v, d)"
        using eq' by (auto split: option.splits)
      then show ?thesis using "3.IH"(1) [OF True] "3.IH"(2) [OF True r(1) refl] by (meson less_trans)
    qed
  qed
qed

lemma read_total: "All readJSONTOONValue_read_fields_read_elements_dom"
  by (relation "measure (\<lambda>x. case x of Inl dec \<Rightarrow> 2 * length (unread dec)
        | Inr (Inl (dec, _)) \<Rightarrow> 2 * length (unread dec)
        | Inr (Inr (dec, _)) \<Rightarrow> Suc (2 * length (unread dec)))")
    (auto dest!: Token_shorter read_shorter(1))

termination readJSONTOONValue
  by (rule read_total)

lemma readJSONTOONValue_shorter:
  "readJSONTOONValue dec = Some (v, d) \<Longrightarrow> length (unread d) < length (unread dec)"
  using read_shorter(1) read_total by blast

declare readJSONTOONValue.simps [simp del] read_fields.simps [simp del] read_elements.simps [simp del]

definition parseJSONTOON :: "bytes \<Rightarrow> toonValue option" where
  "parseJSONTOON inp =
     (case readJSONTOONValue \<lparr>tok_state = tokenTopValue, tok_stack = [], unread = inp\<rparr> of
        None \<Rightarrow> None
      | Some (v, dec) \<Rightarrow> (case Token dec of Inl TokenEOF \<Rightarrow> Some v | _ \<Rightarrow> None))"

definition canonicalJSONValue :: "bytes \<Rightarrow> goval option" where
  "canonicalJSONValue inp = map_option toonValueToAny (parseJSONTOON inp)"

definition DecodeJSONForTOONGrader :: "bytes \<Rightarrow> goval option" where
  "DecodeJSONForTOONGrader inp = canonicalJSONValue inp"

section \<open>The compressor\<close>

definition NewTOON :: EncodeOptions where
  "NewTOON = \<lparr>Delimiter = CHR '','', FoldKeys = False\<rparr>"

definition toon_Compress :: "EncodeOptions \<Rightarrow> bytes \<Rightarrow> bytes option" where
  "toon_Compress c inp =
     (case parseJSONTOON inp of
        None \<Rightarrow> None
      | Some v \<Rightarrow> encodeTOON (GToon v) c)"

end
