(* ===== verification/Toon_Facts.thy ===== *)
theory Toon_Facts
  imports Toon
begin

text \<open>
  The TOON re-encoder is lossless: what the encoder writes for a well-formed value the decoder
  reads back as that value. Cells first (one scalar inside a line), then single lines and the
  patterns that recognise them, then whole blocks of lines.
\<close>

section \<open>Well-formed values\<close>

text \<open>
  What the JSON reader produces: numbers as the grammar has them, valid UTF-8 strings, distinct
  names, lists no longer than an int can count.
\<close>

fun toon_wf :: "toonValue \<Rightarrow> bool" where
  "toon_wf toonNull = True"
| "toon_wf (toonBool b) = True"
| "toon_wf (toonNumber s) = (validJSONNumber s \<and> strip_json_space s = s)"
| "toon_wf (toonString s) = utf8_valid s"
| "toon_wf (toonObject obj) = (distinct (map fst obj) \<and> (\<forall>f \<in> set obj. toon_wf (snd f)))"
| "toon_wf (toonArray arr) = (length arr \<le> max_int \<and> (\<forall>e \<in> set arr. toon_wf e))"

section \<open>Blank text\<close>

definition starts_text :: "bytes \<Rightarrow> bool" where
  "starts_text s \<longleftrightarrow> s \<noteq> [] \<and> \<not> is_space_rune (fst (decode_rune s))"

lemma starts_text_append: "starts_text s \<Longrightarrow> t = [] \<or> bval (hd t) < 128 \<Longrightarrow> starts_text (s @ t)"
  using decode_rune_append [of s t] by (auto simp: starts_text_def)

lemma starts_text_ascii: "bval c < 128 \<Longrightarrow> \<not> is_space_rune (bval c) \<Longrightarrow> starts_text (c # s)"
  by (simp add: starts_text_def)

lemma starts_text_hd: "starts_text s \<Longrightarrow> hd s \<noteq> CHR '' ''"
  by (cases s) (auto simp: starts_text_def is_space_rune_def bval_def)

lemma trim_left_text: "starts_text s \<Longrightarrow> trim_left_space s = s"
  by (subst trim_left_space.simps) (simp add: starts_text_def)

lemma trim_left_indent: "trim_left_space (CHR '' '' # s) = trim_left_space s"
  by (subst trim_left_space.simps) (simp add: is_space_rune_def bval_def)

lemma decode_last_cases:
  "s \<noteq> [] \<Longrightarrow> \<not> bval (last s) < 128 \<Longrightarrow> decode_last_rune s = (rune_error, 1) \<or>
     (\<exists>start. decode_rune (drop start s) = decode_last_rune s \<and> start + snd (decode_last_rune s) = length s)"
  by (auto simp: decode_last_rune_def Let_def split: prod.splits)

lemma trim_right_blank:
  "trim_right_space s = [] \<Longrightarrow> s \<noteq> [] \<Longrightarrow> is_space_rune (fst (decode_rune s))"
proof (induction s rule: trim_right_space.induct)
  case (1 s)
  have sp: "is_space_rune (fst (decode_last_rune s))"
    using "1.prems" by (subst (asm) trim_right_space.simps) (auto split: if_splits)
  define n where "n = max 1 (snd (decode_last_rune s))"
  define y where "y = take (length s - n) s"
  have rec: "trim_right_space y = []"
    using "1.prems" sp by (subst (asm) trim_right_space.simps) (simp add: y_def n_def)
  show ?case
  proof (cases "y = []")
    case False
    then have "is_space_rune (fst (decode_rune y))" using "1.IH" "1.prems" sp rec by (simp add: y_def n_def)
    moreover have "fst (decode_rune y) \<noteq> rune_error"
      using calculation by (auto simp: is_space_rune_def rune_error_def)
    then have "\<not> bad_rune y" by (auto simp: bad_rune_def)
    then obtain r z where r: "valid_rune r" "y = encode_rune r @ z" "decode_rune y = (r, length (encode_rune r))"
      using decode_ok [of y] False by blast
    moreover have "s = encode_rune r @ (z @ drop (length s - n) s)"
      using r(2) append_take_drop_id [of "length s - n" s] by (simp add: y_def del: append_take_drop_id)
    then have "decode_rune s = (r, length (encode_rune r))" using decode_encode [OF r(1)] by metis
    ultimately show ?thesis by simp
  next
    case True
    then have n: "length s \<le> n" using "1.prems" by (auto simp: y_def)
    show ?thesis
    proof (cases "bval (last s) < 128")
      case True
      then have "n = 1" using "1.prems" by (simp add: n_def decode_last_rune_def)
      with n "1.prems"(2) obtain c where "s = [c]" by (cases s) auto
      with sp True show ?thesis by (simp add: decode_last_rune_def)
    next
      case False
      have "decode_last_rune s \<noteq> (rune_error, 1)" using sp by (auto simp: is_space_rune_def rune_error_def)
      with decode_last_cases [OF "1.prems"(2) False] obtain start where
        d: "decode_rune (drop start s) = decode_last_rune s" "start + snd (decode_last_rune s) = length s"
        by blast
      have "start = 0"
      proof (cases "drop start s = []")
        case True
        then have "fst (decode_last_rune s) = rune_error" using d(1) by (metis decode_rune.simps(1) fst_conv)
        with sp show ?thesis by (simp add: is_space_rune_def rune_error_def)
      next
        case False
        then have "1 \<le> snd (decode_last_rune s)" using decode_rune_size [OF False] d(1) by simp
        then show ?thesis using n d(2) by (simp add: n_def)
      qed
      then show ?thesis using d(1) sp by simp
    qed
  qed
qed

lemma trim_space_text: "starts_text s \<Longrightarrow> trim_space s \<noteq> []"
  using trim_right_blank [of s] by (auto simp: trim_space_def trim_left_text starts_text_def)

lemma trim_space_indent: "trim_space (replicate n (CHR '' '') @ s) = trim_space s"
  by (induction n) (simp_all add: trim_space_def trim_left_indent)

lemma trimmed_starts_text:
  assumes "trim_space s = s" and "s \<noteq> []"
  shows "starts_text s"
proof (rule ccontr)
  assume "\<not> starts_text s"
  then have sp: "is_space_rune (fst (decode_rune s))" using assms(2) by (simp add: starts_text_def)
  have "length (trim_left_space s) < length s"
  proof -
    have "trim_left_space s = trim_left_space (drop (snd (decode_rune s)) s)"
      using sp assms(2) by (subst trim_left_space.simps) simp
    moreover have "length (trim_left_space (drop (snd (decode_rune s)) s)) \<le> length (drop (snd (decode_rune s)) s)"
      using trim_left_space_suffix suffix_length_le by blast
    ultimately show ?thesis using decode_rune_shrinks [OF assms(2)] by simp
  qed
  moreover have "length (trim_space s) \<le> length (trim_left_space s)"
    unfolding trim_space_def using trim_right_space_prefix prefix_length_le by blast
  ultimately show False using assms(1) by simp
qed

section \<open>Cells\<close>

text \<open>A cell: it holds no line break, and the cell splitter passes over it whole.\<close>

definition cell_ok :: "bytes \<Rightarrow> bool" where
  "cell_ok w \<longleftrightarrow> starts_text w \<and> CHR 0x0A \<notin> set w \<and> hd w \<noteq> CHR ''{'' \<and> hd w \<noteq> CHR ''['' \<and>
     (hd w = CHR 0x22 \<or> CHR '':'' \<notin> set w) \<and>
     (\<forall>t out b. split_cells (CHR '','') (w @ t) out b False False =
        split_cells (CHR '','') t out (b @ w) False False)"

lemma split_plain:
  "CHR 0x22 \<notin> set w \<Longrightarrow> d \<notin> set w \<Longrightarrow>
     split_cells d (w @ t) out b False False = split_cells d t out (b @ w) False False"
  by (induction w arbitrary: b) auto

lemma split_quoted:
  "str_scan s = Some n \<Longrightarrow>
     split_cells d s out b True False = split_cells d (drop n s) out (b @ take n s) False False"
proof (induction s arbitrary: n b rule: str_scan.induct)
  case (2 c)
  then show ?case by (auto split: if_splits)
next
  case (3 c e s)
  show ?case
  proof (cases "c = CHR 0x5C")
    case True
    then obtain m where m: "str_scan s = Some m" "n = m + 2" using "3.prems" by auto
    from "3.IH"(1) [OF True m(1), of "b @ [c, e]"] True m(2) show ?thesis by simp
  next
    case False
    show ?thesis
    proof (cases "c = CHR 0x22")
      case True
      with "3.prems" show ?thesis by auto
    next
      case plain: False
      then obtain m where m: "str_scan (e # s) = Some m" "n = Suc m" using "3.prems" False by auto
      from "3.IH"(2) [OF False plain m(1), of "b @ [c]"] False plain m(2) show ?thesis by simp
    qed
  qed
qed simp

lemma write_body_no_control:
  "c \<in> set (write_body (std_escape h) std_wide s) \<Longrightarrow> 32 \<le> bval c"
proof (induction s rule: utf8_induct)
  case (Rune r s)
  show ?case
  proof (cases "r < 128")
    case True
    then have e: "encode_rune r = [char_of r]" "bval (char_of r) < 128"
      by (simp_all add: encode_rune_ascii bval_char_of)
    have hex: "32 \<le> bval (hex_digit n)" if "n < 16" for n
      using that by (simp add: hex_digit_def bval_char_of)
    have b: "bval (char_of r) div 16 < 16" "bval (char_of r) mod 16 < 16" using e(2) by auto
    have "c \<in> set (std_escape h (char_of r)) \<Longrightarrow> 32 \<le> bval c"
      using hex [OF b(1)] hex [OF b(2)]
      by (auto simp: std_escape_def bval_def not_less split: if_splits)
    with Rune e show ?thesis by (auto simp: write_body_ascii)
  next
    case False
    have "c \<in> set (std_wide r) \<Longrightarrow> 32 \<le> bval c"
      using encode_rune_high [of r c] False by (auto simp: std_wide_def bval_def split: if_splits)
    with Rune False show ?thesis by (auto simp: write_body_wide)
  qed
next
  case (Bad d s)
  then show ?case by (auto simp: write_body_bad bval_def)
qed simp

lemma cell_quoted: "cell_ok (marshal_string h s)"
proof -
  let ?p = "write_body (std_escape h) std_wide s"
  have m: "marshal_string h s = CHR 0x22 # ?p @ [CHR 0x22]" by (simp add: marshal_string_def quoted_def)
  have scan: "str_scan (?p @ CHR 0x22 # t) = Some (Suc (length ?p))" for t
    using std_html.token_scan std_plain.token_scan by (cases h) simp_all
  have "split_cells (CHR '','') (marshal_string h s @ t) out b False False =
      split_cells (CHR '','') t out (b @ marshal_string h s) False False" for t out b
    using split_quoted [OF scan, of "CHR '',''" t out "b @ [CHR 0x22]"] by (simp add: m)
  moreover have "CHR 0x0A \<notin> set (marshal_string h s)"
    using write_body_no_control [of "CHR 0x0A" h s] by (auto simp: m bval_def)
  ultimately show ?thesis
    by (simp add: cell_ok_def m starts_text_def is_space_rune_def bval_def)
qed

lemma clean_atom:
  assumes "clean_value v" and "hd v = CHR ''-'' \<or> is_digit (hd v)"
  shows "c \<in> set v \<Longrightarrow> \<not> atom_stop c \<and> plain_byte c"
proof -
  note cv = clean_value_reads [OF assms(1)]
  obtain x u where v: "v = x # u" using cv(2) by (cases v) auto
  have "x = CHR ''-'' \<or> is_digit x" using assms(2) v by simp
  then have "x \<noteq> CHR 0x22 \<and> \<not> open_byte x \<and> \<not> close_byte x \<and> \<not> atom_stop x"
    using bval_digit [of x] by (cases "is_digit x") (simp_all add: open_byte_def close_byte_def atom_stop_def isSpace_def)
  then have x: "x \<noteq> CHR 0x22" "\<not> open_byte x" "\<not> atom_stop x" "plain_byte x"
    by (simp_all add: plain_byte_def)
  have "length (takeWhile (\<lambda>c. \<not> atom_stop c) v) = length v"
    using cv(1) x v by (auto simp: value_len_def open_byte_def Let_def split: if_splits)
  then have stop: "takeWhile (\<lambda>c. \<not> atom_stop c) v = v" by (metis takeWhile_eq_take take_all order_refl)
  have acc: "accepts (scan (begin_value [] x) u)"
    using assms(1) by (simp add: clean_value_def json_valid_accepts v)
  have "fst (begin_value [] x) \<noteq> ScanError" using acc by (rule accepts_scanD)
  from begin_value_cases [OF this] cv(3) v x obtain p where
    p: "in_atom p" "begin_value [] x = (p, [])" by auto
  have "list_all plain_byte (takeWhile (\<lambda>c. \<not> atom_stop c) u)" using atom_plain [OF p(1)] acc p(2) by simp
  moreover have "takeWhile (\<lambda>c. \<not> atom_stop c) u = u" using stop v x(3) by simp
  ultimately have "list_all plain_byte v" using v x(4) by simp
  moreover assume "c \<in> set v"
  ultimately show ?thesis using stop by (metis list_all_iff set_takeWhileD)
qed

lemma number_clean: "validJSONNumber s \<Longrightarrow> strip_json_space s = s \<Longrightarrow>
    clean_value s \<and> s \<noteq> [] \<and> (hd s = CHR ''-'' \<or> is_digit (hd s))"
  by (auto simp: validJSONNumber_def clean_value_def Let_def)

lemma cell_number:
  assumes "validJSONNumber s" and "strip_json_space s = s"
  shows "cell_ok s"
proof -
  note n = number_clean [OF assms]
  have c: "\<not> atom_stop c \<and> plain_byte c" if "c \<in> set s" for c using clean_atom n that by blast
  obtain x t where s: "s = x # t" using n by (cases s) auto
  have "starts_text s" unfolding s using n s
    by (intro starts_text_ascii) (auto simp: is_digit_def bval_def is_space_rune_def)
  moreover have "CHR 0x0A \<notin> set s" "CHR '':'' \<notin> set s" "CHR '','' \<notin> set s" "CHR 0x22 \<notin> set s"
    using c by (auto simp: atom_stop_def isSpace_def plain_byte_def)
  moreover have "hd s \<noteq> CHR ''{''" "hd s \<noteq> CHR ''[''"
    using n by (auto simp: is_digit_def bval_def)
  ultimately show ?thesis by (simp add: cell_ok_def split_plain)
qed

lemma cell_word:
  "starts_text w \<Longrightarrow> CHR 0x0A \<notin> set w \<Longrightarrow> CHR 0x22 \<notin> set w \<Longrightarrow> CHR '','' \<notin> set w \<Longrightarrow> CHR '':'' \<notin> set w \<Longrightarrow>
     hd w \<noteq> CHR ''{'' \<Longrightarrow> hd w \<noteq> CHR ''['' \<Longrightarrow> cell_ok w"
  by (simp add: cell_ok_def split_plain)

lemma cell_encode:
  assumes "toon_wf v" and "encodeTOONScalar v (CHR '','') = Some w"
  shows "cell_ok w \<and> parseTOONScalar w = Some (toonValueToAny v)"
proof (cases v)
  case toonNull
  then have "w = ''null''" using assms(2) by simp
  then show ?thesis using toonNull
    by (auto intro!: cell_word starts_text_ascii simp: parseTOONScalar_def bval_def is_space_rune_def)
next
  case (toonBool b)
  then have "w = (if b then ''true'' else ''false'')" using assms(2) by simp
  then show ?thesis using toonBool
    by (auto intro!: cell_word starts_text_ascii simp: parseTOONScalar_def bval_def is_space_rune_def)
next
  case (toonNumber s)
  then have w: "w = s" "validJSONNumber s" "strip_json_space s = s"
    using assms by (auto split: if_splits)
  note n = number_clean [OF w(2,3)]
  have "hd s \<noteq> CHR 0x22" using n by (auto simp: is_digit_def bval_def)
  moreover have "s \<noteq> ''true''" "s \<noteq> ''false''" "s \<noteq> ''null''"
    using n by (auto simp: is_digit_def bval_def)
  ultimately show ?thesis using w n toonNumber cell_number by (simp add: parseTOONScalar_def)
next
  case (toonString s)
  have valid: "utf8_valid s" using assms(1) toonString by simp
  show ?thesis
  proof (cases "needsTOONQuote s (CHR '','')")
    case True
    then have w: "w = marshal_string True s" using assms(2) toonString by simp
    have "unmarshal_string w = Some s"
      unfolding w marshal_string_def using std_html.token_roundtrip [OF valid] .
    then have "parseTOONScalar w = Some (GString s)"
      by (simp add: parseTOONScalar_def w) (simp add: marshal_string_def quoted_def)
    then show ?thesis using toonString cell_quoted w by simp
  next
    case False
    then have w: "w = s" using assms(2) toonString by simp
    have q: "s \<noteq> []" "trim_space s = s" "CHR 0x0A \<notin> set s" "CHR 0x0D \<notin> set s" "CHR 0x09 \<notin> set s"
        "CHR 0x22 \<notin> set s" "CHR '':'' \<notin> set s" "CHR '','' \<notin> set s"
        "hd s \<noteq> CHR ''['' " "hd s \<noteq> CHR ''{''" "hd s \<noteq> CHR 0x22"
        "s \<noteq> ''true''" "s \<noteq> ''false''" "s \<noteq> ''null''" "\<not> validJSONNumber s"
      using False by (auto simp: needsTOONQuote_def)
    have "cell_ok s" using q trimmed_starts_text by (intro cell_word) auto
    moreover have "parseTOONScalar s = Some (GString s)"
      using q by (auto simp: parseTOONScalar_def)
    ultimately show ?thesis using w toonString by simp
  qed
qed (use assms in simp_all)

section \<open>Lists of cells and of names\<close>

lemma join_Cons: "join_with sep (x # y # xs) = x @ sep @ join_with sep (y # xs)"
  by (simp add: join_with_def)

lemma join_single [simp]: "join_with sep [x] = x" and join_Nil [simp]: "join_with sep [] = []"
  by (simp_all add: join_with_def)

lemma split_cells_join:
  "cells \<noteq> [] \<Longrightarrow> (\<And>w. w \<in> set cells \<Longrightarrow> cell_ok w) \<Longrightarrow>
     split_cells (CHR '','') (join_with '','' cells) out [] False False = Some (out @ cells)"
proof (induction cells arbitrary: out)
  case (Cons w cells)
  have split: "split_cells (CHR '','') (w @ t) out [] False False = split_cells (CHR '','') t out w False False" for t out
    using Cons.prems(2) [of w] by (simp add: cell_ok_def)
  show ?case
  proof (cases cells)
    case Nil
    with split [of "[]" out] show ?thesis by simp
  next
    case (Cons w2 ws)
    with Cons.IH [of "out @ [w]"] Cons.prems split show ?thesis by (simp add: join_Cons)
  qed
qed simp

lemma splitTOONCells_join:
  "cells \<noteq> [] \<Longrightarrow> (\<And>w. w \<in> set cells \<Longrightarrow> cell_ok w) \<Longrightarrow>
     splitTOONCells (join_with '','' cells) (CHR '','') = Some cells"
  using split_cells_join [of cells "[]"] by (simp add: splitTOONCells_def)

lemma join_in: "c \<in> set (join_with sep ws) \<Longrightarrow> c \<in> set sep \<or> (\<exists>w \<in> set ws. c \<in> set w)"
  by (cases ws) (auto simp: join_with_def split: if_splits)

lemma starts_text_join: "ws \<noteq> [] \<Longrightarrow> starts_text (hd ws) \<Longrightarrow> starts_text (join_with '','' ws)"
proof -
  assume "ws \<noteq> []" and "starts_text (hd ws)"
  then show ?thesis
    using starts_text_append [of "hd ws" "'','' @ join_with '','' (tl ws)"]
    by (cases ws; cases "tl ws") (simp_all add: join_Cons bval_def)
qed

lemma those_map_Some: "those (map f xs) = Some ys \<Longrightarrow> list_all2 (\<lambda>x y. f x = Some y) xs ys"
  by (induction xs arbitrary: ys) (auto split: option.splits)

lemma those_map_intro: "list_all2 (\<lambda>x y. f x = Some y) xs ys \<Longrightarrow> those (map f xs) = Some ys"
  by (induction rule: list_all2_induct) auto

lemma cells_encode:
  assumes "\<And>v. v \<in> set arr \<Longrightarrow> toon_wf v" and "those (map (\<lambda>e. encodeTOONScalar e (CHR '','')) arr) = Some cells"
  shows "length cells = length arr \<and> (\<forall>w \<in> set cells. cell_ok w) \<and>
     those (map parseTOONScalar cells) = Some (map toonValueToAny arr)"
  using those_map_Some [OF assms(2)] assms(1)
proof (induction rule: list_all2_induct)
  case (Cons x xs y ys)
  then show ?case using cell_encode [of x y] by simp
qed simp

lemma split_on_no: "d \<notin> set s \<Longrightarrow> split_on d s = [s]"
  by (induction s) auto

lemma split_on_append: "d \<notin> set s \<Longrightarrow> split_on d (s @ d # t) = s # split_on d t"
  by (induction s) auto

lemma split_on_join:
  "ws \<noteq> [] \<Longrightarrow> (\<And>w. w \<in> set ws \<Longrightarrow> d \<notin> set w) \<Longrightarrow> split_on d (join_with [d] ws) = ws"
proof (induction ws)
  case (Cons w ws)
  then show ?case by (cases ws) (auto simp: split_on_no join_Cons split_on_append)
qed simp

section \<open>Keys and the line patterns\<close>

lemma key_start_char: "key_start c \<Longrightarrow> key_char c"
  by (auto simp: key_start_def key_char_def)

lemma safe_chars: "safeTOONKey k \<Longrightarrow> list_all key_char k"
  by (cases k) (auto simp: safeTOONKey_def key_start_char)

lemma key_char_bytes: "key_char c \<Longrightarrow> bval c < 128 \<and> \<not> is_space_rune (bval c) \<and>
    c \<notin> set [CHR '':'', CHR '','', CHR ''['', CHR ''{'', CHR ''}'', CHR 0x0A, CHR 0x22, CHR '' '']"
  by (auto simp: key_char_def is_letter_def is_digit_def is_space_rune_def bval_def)

lemma safe_no: "safeTOONKey k \<Longrightarrow> c \<in> set [CHR '':'', CHR '','', CHR ''['', CHR ''{'', CHR ''}'', CHR 0x0A, CHR 0x22, CHR '' ''] \<Longrightarrow>
    c \<notin> set k"
  using safe_chars [of k] key_char_bytes [of c] by (auto simp: list_all_iff)

lemma safe_starts: "safeTOONKey k \<Longrightarrow> starts_text (k @ t)"
  using key_char_bytes [of "hd k"] by (cases k) (auto simp: safeTOONKey_def key_start_char intro!: starts_text_ascii)

lemma key_prefix_safe: "safeTOONKey k \<Longrightarrow> t \<noteq> [] \<Longrightarrow> \<not> key_char (hd t) \<Longrightarrow> key_prefix (k @ t) = (k, t)"
proof -
  assume k: "safeTOONKey k" and t: "t \<noteq> []" "\<not> key_char (hd t)"
  have all: "\<And>x. x \<in> set k \<Longrightarrow> key_char x" using safe_chars [OF k] by (simp add: list_all_iff)
  have "takeWhile key_char (k @ t) = k" "dropWhile key_char (k @ t) = t"
    using all t by (cases t; simp add: takeWhile_append2 dropWhile_append2)+
  then show ?thesis using k by (simp add: key_prefix_def safeTOONKey_def)
qed

lemma key_prefix_bracket: "key_prefix (CHR ''['' # t) = ([], CHR ''['' # t)"
  by (simp add: key_prefix_def key_start_def is_letter_def bval_def)

lemma key_prefix_name:
  "name = [] \<or> safeTOONKey name \<Longrightarrow> key_prefix (name @ CHR ''['' # t) = (name, CHR ''['' # t)"
  using key_prefix_safe [of name "CHR ''['' # t"] key_prefix_bracket
  by (auto simp: key_char_def is_letter_def is_digit_def bval_def)

lemma itoa_is_digit: "c \<in> set (itoa n) \<Longrightarrow> is_digit c"
  using itoa_digits by (auto simp: is_digit_def)

lemma count_prefix_itoa: "count_prefix (CHR ''['' # itoa n @ CHR '']'' # r) = Some (itoa n, r)"
proof -
  have "takeWhile is_digit (itoa n @ CHR '']'' # r) = itoa n"
    "dropWhile is_digit (itoa n @ CHR '']'' # r) = CHR '']'' # r"
    using itoa_is_digit by (simp_all add: takeWhile_append2 dropWhile_append2 is_digit_def bval_def)
  then show ?thesis by (simp add: count_prefix_def)
qed

lemma count_prefix_no: "s = [] \<or> hd s \<noteq> CHR ''['' \<Longrightarrow> count_prefix s = None"
  by (cases s) (auto simp: count_prefix_def)

lemma tabular_line:
  assumes "name = [] \<or> safeTOONKey name" and "\<And>f. f \<in> set fs \<Longrightarrow> safeTOONKey f"
  shows "toonTabularLineRe (name @ ''['' @ itoa n @ '']{'' @ join_with '','' fs @ ''}:'') =
    Some (name, itoa n, join_with '','' fs)"
proof -
  let ?j = "join_with '','' fs"
  have "CHR ''}'' \<notin> set f" if "f \<in> set fs" for f
    using safe_no [OF assms(2) [OF that], of "CHR ''}''"] by simp
  then have "CHR ''}'' \<notin> set ?j" using join_in [of "CHR ''}''" "'',''" fs] by auto
  then have j: "\<And>x. x \<in> set ?j \<Longrightarrow> CHR ''}'' \<noteq> x" by auto
  have "takeWhile ((\<noteq>) (CHR ''}'')) (?j @ ''}:'') = ?j @ takeWhile ((\<noteq>) (CHR ''}'')) ''}:''"
    by (rule takeWhile_append2) (rule j)
  moreover have "dropWhile ((\<noteq>) (CHR ''}'')) (?j @ ''}:'') = dropWhile ((\<noteq>) (CHR ''}'')) ''}:''"
    by (rule dropWhile_append2) (rule j)
  ultimately have "takeWhile ((\<noteq>) (CHR ''}'')) (?j @ ''}:'') = ?j"
    "dropWhile ((\<noteq>) (CHR ''}'')) (?j @ ''}:'') = ''}:''" by simp_all
  then show ?thesis
    using key_prefix_name [OF assms(1)] by (simp add: toonTabularLineRe_def count_prefix_itoa)
qed

lemma array_line:
  assumes "name = [] \<or> safeTOONKey name" and "CHR 0x0A \<notin> set w"
  shows "toonTabularLineRe (name @ ''['' @ itoa n @ '']: '' @ w) = None"
    and "toonArrayLineRe (name @ ''['' @ itoa n @ '']: '' @ w) = Some (name, itoa n, w)"
  using key_prefix_name [OF assms(1)] assms(2)
  by (simp_all add: toonTabularLineRe_def toonArrayLineRe_def count_prefix_itoa value_suffix_def)

lemma key_line:
  assumes "safeTOONKey name" and "CHR 0x0A \<notin> set w"
  shows "array_name (name @ '':'' @ (if w = [] then [] else CHR '' '' # w)) = None"
    and "toonKeyLineRe (name @ '':'' @ (if w = [] then [] else CHR '' '' # w)) = Some (name, w)"
proof -
  let ?t = "'':'' @ (if w = [] then [] else CHR '' '' # w)"
  have k: "key_prefix (name @ ?t) = (name, ?t)"
    using assms(1) by (intro key_prefix_safe) (simp_all add: key_char_def is_letter_def is_digit_def bval_def)
  then show "array_name (name @ ?t) = None"
    by (simp add: array_name_def toonTabularLineRe_def toonArrayLineRe_def count_prefix_no)
  have "name \<noteq> []" using assms(1) by (simp add: safeTOONKey_def)
  then show "toonKeyLineRe (name @ ?t) = Some (name, w)"
    using k assms(2) by (simp add: toonKeyLineRe_def value_suffix_def)
qed

section \<open>Lines as text\<close>

definition line :: "nat \<Rightarrow> bytes \<Rightarrow> toonLine" where
  "line d w = \<lparr>line_indent = d, line_text = w\<rparr>"

lemma line_sel [simp]: "line_indent (line d w) = d" "line_text (line d w) = w"
  by (simp_all add: line_def)

definition render :: "toonLine list \<Rightarrow> bytes" where
  "render ls = concat (map (\<lambda>l. writeIndent (line_indent l) @ line_text l @ newline) ls)"

definition line_ok :: "toonLine \<Rightarrow> bool" where
  "line_ok l \<longleftrightarrow> starts_text (line_text l) \<and> CHR 0x0A \<notin> set (line_text l)"

lemma render_simps [simp]:
  "render [] = []" "render (l # ls) = writeIndent (line_indent l) @ line_text l @ newline @ render ls"
  "render (ls @ ls') = render ls @ render ls'"
  by (simp_all add: render_def)

lemma writeIndent_spaces: "writeIndent d = replicate (2 * d) (CHR '' '')"
  by (induction d) (simp_all add: writeIndent_def)

lemma takeWhile_replicate_append:
  "takeWhile ((=) c) (replicate n c @ s) = replicate n c @ takeWhile ((=) c) s"
  by (induction n) simp_all

lemma scan_line_ok:
  assumes "line_ok l"
  shows "scan_line (writeIndent (line_indent l) @ line_text l) = Some l"
proof -
  let ?t = "line_text l" and ?d = "line_indent l"
  have t: "starts_text ?t" using assms by (simp add: line_ok_def)
  then have "trim_space (writeIndent ?d @ ?t) \<noteq> []"
    by (simp add: writeIndent_spaces trim_space_indent trim_space_text)
  moreover have "takeWhile ((=) (CHR '' '')) (writeIndent ?d @ ?t) = writeIndent ?d"
    using starts_text_hd [OF t] by (cases ?t) (simp_all add: writeIndent_spaces takeWhile_replicate_append)
  moreover have "length (writeIndent ?d) = 2 * ?d" by (simp add: writeIndent_spaces)
  ultimately show ?thesis by (simp add: scan_line_def Let_def)
qed

lemma render_split:
  assumes "\<And>x. x \<in> set (ls @ [l]) \<Longrightarrow> line_ok x"
  shows "split_on (CHR 0x0A) (render ls @ writeIndent (line_indent l) @ line_text l) =
    map (\<lambda>l. writeIndent (line_indent l) @ line_text l) (ls @ [l])"
  using assms
proof (induction ls)
  case Nil
  then show ?case by (simp add: split_on_no line_ok_def writeIndent_spaces)
next
  case (Cons x ls)
  let ?w = "writeIndent (line_indent x) @ line_text x"
  have "CHR 0x0A \<notin> set ?w" using Cons.prems [of x] by (simp add: line_ok_def writeIndent_spaces)
  from split_on_append [OF this] Cons show ?case by (simp add: newline_def)
qed

lemma scan_render:
  assumes "ls \<noteq> []" and "\<And>x. x \<in> set ls \<Longrightarrow> line_ok x" and "line_indent (hd ls) = 0"
  shows "scanTOONLines (trim_newlines (render ls)) = Some ls"
proof -
  obtain ks l where ls: "ls = ks @ [l]" using assms(1) by (cases ls rule: rev_cases) auto
  let ?w = "writeIndent (line_indent l) @ line_text l"
  have l: "line_ok l" using assms(2) ls by simp
  then have lt: "line_text l \<noteq> []" "CHR 0x0A \<notin> set (line_text l)" by (auto simp: line_ok_def starts_text_def)
  then have w: "?w \<noteq> []" "last ?w \<noteq> CHR 0x0A" using last_in_set [OF lt(1)] by (simp, metis last_appendR)
  have tr: "trim_newlines (x @ ?w @ newline) = x @ ?w" "trim_newlines (x @ ?w) = x @ ?w" for x
    using w by (cases "line_text l" rule: rev_cases; cases "writeIndent (line_indent l)" rule: rev_cases;
        auto simp: trim_newlines_def newline_def)+
  then have text_eq: "trim_newlines (render ls) = render ks @ ?w" by (simp add: ls)
  have "starts_text (render ks @ ?w)"
  proof (cases ks)
    case Nil
    then show ?thesis using assms(3) l by (simp add: ls line_ok_def writeIndent_spaces)
  next
    case (Cons k ks')
    then have "starts_text (line_text k)" "line_indent k = 0"
      using assms(2,3) by (auto simp: ls line_ok_def)
    then show ?thesis
      using starts_text_append [of "line_text k" "newline @ render ks' @ ?w"]
      by (simp add: Cons writeIndent_spaces newline_def bval_def)
  qed
  then have nb: "trim_space (render ks @ ?w) \<noteq> []" by (rule trim_space_text)
  have "those (map scan_line (map (\<lambda>l. writeIndent (line_indent l) @ line_text l) ls)) = Some ls"
    using assms(2) scan_line_ok
    by (intro those_map_intro) (simp add: list_all2_conv_all_nth)
  moreover have "split_on (CHR 0x0A) (render ks @ ?w) = map (\<lambda>l. writeIndent (line_indent l) @ line_text l) ls"
    using render_split [of ks l] assms(2) unfolding ls by simp
  ultimately show ?thesis unfolding text_eq scanTOONLines_def Let_def tr(2) using nb by simp
qed

section \<open>Lists and tables\<close>

lemma digit_char_0: "digit_char 0 = CHR ''0''"
  using bval_inject [of "digit_char 0" "CHR ''0''"] by (simp add: bval_digit_char, simp add: bval_def)

lemma tabular_row_cells:
  assumes "toon_wf (toonObject obj)" and "tabular_row fs (CHR '','') (toonObject obj) = Some cells" and "fs \<noteq> []"
  shows "cells \<noteq> [] \<and> (\<forall>w \<in> set cells. cell_ok w) \<and>
    parse_row fs (join_with '','' cells) = Some (toonValueToAny (toonObject obj))"
proof -
  have names: "map fst obj = fs" and cs: "those (map (\<lambda>f. encodeTOONScalar (snd f) (CHR '','')) obj) = Some cells"
    using assms(2) by (auto split: if_splits)
  then have "those (map (\<lambda>e. encodeTOONScalar e (CHR '','')) (map snd obj)) = Some cells" by (simp add: comp_def)
  with cells_encode [of "map snd obj" cells] assms(1) have
    c: "length cells = length obj" "\<forall>w \<in> set cells. cell_ok w"
      "those (map parseTOONScalar cells) = Some (map toonValueToAny (map snd obj))" by auto
  have ne: "cells \<noteq> []" using c(1) names assms(3) by auto
  have "zip fs (map toonValueToAny (map snd obj)) = map (\<lambda>f. (fst f, toonValueToAny (snd f))) obj"
    unfolding names [symmetric] by (simp add: zip_map_map zip_same_conv_map)
  then have "parse_row fs (join_with '','' cells) = Some (toonValueToAny (toonObject obj))"
    using splitTOONCells_join [OF ne] c arg_cong [OF names, of length] by (simp add: parse_row_def)
  with ne c(2) show ?thesis by simp
qed

lemma parse_rows_written:
  assumes "\<And>v. v \<in> set arr \<Longrightarrow> toon_wf v" and "those (map (tabular_row fs (CHR '','')) arr) = Some rows" and "fs \<noteq> []"
  shows "(\<forall>l \<in> set (map (\<lambda>row. line (Suc d) (join_with '','' row)) rows). line_ok l) \<and>
    length rows = length arr \<and>
    parse_rows fs d (length arr) (map (\<lambda>row. line (Suc d) (join_with '','' row)) rows @ R)
      = Some (map toonValueToAny arr, R)"
  using those_map_Some [OF assms(2)] assms(1)
proof (induction rule: list_all2_induct)
  case (Cons v vs cells rows)
  then obtain obj where v: "v = toonObject obj" by (cases v) auto
  have wf: "toon_wf (toonObject obj)" using Cons.prems [of v] unfolding v by simp
  have tr: "tabular_row fs (CHR '','') (toonObject obj) = Some cells" using Cons.hyps(1) v by simp
  from tabular_row_cells [OF wf tr assms(3)] have c: "cells \<noteq> []" "\<forall>w \<in> set cells. cell_ok w"
    "parse_row fs (join_with '','' cells) = Some (toonValueToAny v)" by (auto simp: v)
  have "line_ok (line (Suc d) (join_with '','' cells))"
    using starts_text_join [of cells] c(1,2) join_in [of "CHR 0x0A" "'',''" cells]
    by (cases cells) (auto simp: line_ok_def cell_ok_def)
  then show ?case using Cons c by simp
qed simp

lemma array_written:
  assumes "toon_wf (toonArray arr)" and "writeTOONArray name arr d opt = Some w"
    and "Delimiter opt = CHR '',''" and "name = [] \<or> safeTOONKey name"
  shows "\<exists>h ls. w = render (line d h # ls) \<and> (\<forall>l \<in> set (line d h # ls). line_ok l) \<and>
    (name \<noteq> [] \<longrightarrow> array_name h = Some name) \<and>
    (name = [] \<longrightarrow> (if arr = [] then h = ''[]'' \<and> ls = [] else prefix ''['' h \<and> h \<noteq> ''[]'')) \<and>
    (arr \<noteq> [] \<or> name \<noteq> [] \<longrightarrow> (\<forall>R. parseTOONArray ((line d h # ls) @ R) d = Some (map toonValueToAny arr, R)))"
proof (cases "arr = []")
  case True
  show ?thesis
  proof (cases "name = []")
    case True
    have "line_ok (line d ''[]'')" by (simp add: line_ok_def starts_text_def is_space_rune_def bval_def)
    then show ?thesis using assms(2) True \<open>arr = []\<close>
      by (intro exI [of _ "''[]''"] exI [of _ "[]"]) (simp add: writeTOONArray_def)
  next
    case False
    then have safe: "safeTOONKey name" using assms(4) by simp
    let ?h = "name @ ''['' @ itoa 0 @ '']: '' @ ''[]''"
    have i0: "itoa 0 = ''0''" by (subst itoa.simps) (simp add: digit_char_0)
    have l: "line_ok (line d ?h)"
      using safe_starts [OF safe, of "''['' @ itoa 0 @ '']: '' @ ''[]''"] safe_no [OF safe, of "CHR 0x0A"]
      by (simp add: line_ok_def i0)
    note re = array_line [OF assms(4), of "''[]''" 0]
    have an: "array_name ?h = Some name" using re False by (simp add: array_name_def)
    have "parseTOONArray (line d ?h # R) d = Some ([], R)" for R
      using re by (simp add: parseTOONArray_def Let_def atoi_itoa max_int_def)
    then show ?thesis using assms(2) False \<open>arr = []\<close> safe l an i0
      by (intro exI [of _ ?h] exI [of _ "[]"]) (simp add: writeTOONArray_def)
  qed
next
  case ne: False
  have len: "length arr \<le> max_int" using assms(1) by simp
  show ?thesis
  proof (cases "scalarArray arr")
    case True
    then obtain cells where cells: "those (map (\<lambda>e. encodeTOONScalar e (CHR '','')) arr) = Some cells"
        "w = writeIndent d @ name @ ''['' @ itoa (length arr) @ '']: '' @ join_with '','' cells @ newline"
      using assms(2,3) ne by (auto simp: writeTOONArray_def split: if_splits option.splits)
    from cells_encode [OF _ cells(1)] assms(1) have c: "length cells = length arr" "\<forall>w \<in> set cells. cell_ok w"
      "those (map parseTOONScalar cells) = Some (map toonValueToAny arr)" by auto
    have cne: "cells \<noteq> []" using c(1) ne by auto
    let ?j = "join_with '','' cells"
    let ?h = "name @ ''['' @ itoa (length arr) @ '']: '' @ ?j"
    have nl: "CHR 0x0A \<notin> set ?j" using join_in [of "CHR 0x0A" "'',''" cells] c(2) by (auto simp: cell_ok_def)
    note re = array_line [OF assms(4) nl, of "length arr"]
    have "starts_text ?h"
      using assms(4) safe_starts by (auto intro!: starts_text_ascii simp: bval_def is_space_rune_def)
    moreover have "CHR 0x0A \<notin> set ?h"
      using nl assms(4) safe_no [of name "CHR 0x0A"] itoa_is_digit [of "CHR 0x0A" "length arr"]
      by (auto simp: is_digit_def bval_def)
    ultimately have l: "line_ok (line d ?h)" by (simp add: line_ok_def)
    have "parseTOONArray (line d ?h # R) d = Some (map toonValueToAny arr, R)" for R
      using re c ne cne splitTOONCells_join [OF cne] atoi_itoa [OF len]
      by (simp add: parseTOONArray_def Let_def)
    moreover have "?h \<noteq> ''[]''" if "name = []"
    proof
      assume "?h = ''[]''"
      then have "itoa (length arr) @ '']: '' @ ?j = '']''" using that by simp
      then show False using itoa_is_digit [of "hd (itoa (length arr))" "length arr"]
        by (cases "itoa (length arr)") (auto simp: is_digit_def bval_def)
    qed
    ultimately show ?thesis using l cells(2) re ne
      by (intro exI [of _ ?h] exI [of _ "[]"]) (simp add: array_name_def)
  next
    case False
    then obtain fs rows where t: "tabularRows arr (CHR '','') = Some (fs, rows)" "list_all safeTOONKey fs"
        "w = writeIndent d @ name @ ''['' @ itoa (length rows) @ '']{'' @ join_with '','' fs @ ''}:'' @ newline @
          concat (map (\<lambda>row. writeIndent (d + 1) @ join_with '','' row @ newline) rows)"
      using assms(2,3) ne by (auto simp: writeTOONArray_def split: if_splits option.splits)
    then obtain obj rest where arr: "arr = toonObject obj # rest" "fs = map fst obj" "obj \<noteq> []"
        "those (map (tabular_row fs (CHR '','')) arr) = Some rows"
      by (auto simp: tabularRows_def split: list.splits toonValue.splits if_splits)
    have fne: "fs \<noteq> []" using arr by simp
    have safe: "\<And>f. f \<in> set fs \<Longrightarrow> safeTOONKey f" using t(2) by (simp add: list_all_iff)
    have dist: "distinct fs" using assms(1) arr by simp
    let ?h = "name @ ''['' @ itoa (length rows) @ '']{'' @ join_with '','' fs @ ''}:''"
    let ?ls = "map (\<lambda>row. line (Suc d) (join_with '','' row)) rows"
    from parse_rows_written [OF _ arr(4) fne, of d] assms(1) have
      rows: "\<forall>l \<in> set ?ls. line_ok l" "length rows = length arr"
        "\<And>R. parse_rows fs d (length arr) (?ls @ R) = Some (map toonValueToAny arr, R)" by auto
    have sf: "splitFields (join_with '','' fs) = fs"
    proof -
      have "split_on (CHR '','') (join_with '','' fs) = fs"
        using fne safe_no [OF safe, of _ "CHR '',''"] by (intro split_on_join) simp_all
      moreover have "join_with '','' fs \<noteq> []"
        using fne safe [of "hd fs"] by (cases fs) (auto simp: join_with_def safeTOONKey_def)
      ultimately show ?thesis using dist t(2) by (simp add: splitFields_def Let_def)
    qed
    note re = tabular_line [OF assms(4) safe, of fs "length rows"]
    have "starts_text ?h"
      using assms(4) safe_starts by (auto intro!: starts_text_ascii simp: bval_def is_space_rune_def)
    moreover have "CHR 0x0A \<notin> set (join_with '','' fs)"
      using join_in [of "CHR 0x0A" "'',''" fs] safe_no [OF safe, of _ "CHR 0x0A"] by auto
    then have "CHR 0x0A \<notin> set ?h"
      using assms(4) safe_no [of name "CHR 0x0A"] itoa_is_digit [of "CHR 0x0A" "length rows"]
      by (auto simp: is_digit_def bval_def)
    ultimately have l: "line_ok (line d ?h)" by (simp add: line_ok_def)
    have "parseTOONArray ((line d ?h # ?ls) @ R) d = Some (map toonValueToAny arr, R)" for R
      using re sf fne rows len by (simp add: parseTOONArray_def Let_def atoi_itoa)
    moreover have "w = render (line d ?h # ?ls)" using t(3) by (simp add: render_def comp_def)
    ultimately show ?thesis using l rows(1) re ne
      by (intro exI [of _ ?h] exI [of _ ?ls]) (auto simp: array_name_def)
  qed
qed

section \<open>Objects\<close>

definition field_block :: "nat \<Rightarrow> bytes \<Rightarrow> toonValue \<Rightarrow> bytes \<Rightarrow> bool" where
  "field_block d name v w \<longleftrightarrow>
     (\<exists>ls. ls \<noteq> [] \<and> w = render ls \<and> (\<forall>l \<in> set ls. line_ok l) \<and> line_indent (hd ls) = d \<and>
       (\<forall>R out. (R = [] \<or> line_indent (hd R) \<le> d) \<longrightarrow> map_of out name = None \<longrightarrow>
          parseTOONObject (ls @ R) d out = parseTOONObject R d (map_put name (toonValueToAny v) out)))"

abbreviation any_fields :: "(bytes \<times> toonValue) list \<Rightarrow> (bytes \<times> goval) list" where
  "any_fields fs \<equiv> map (\<lambda>f. (fst f, toonValueToAny (snd f))) fs"

abbreviation puts :: "(bytes \<times> goval) list \<Rightarrow> (bytes \<times> goval) list \<Rightarrow> (bytes \<times> goval) list" where
  "puts out kvs \<equiv> foldl (\<lambda>m p. map_put (fst p) (snd p) m) out kvs"

definition object_block :: "nat \<Rightarrow> (bytes \<times> toonValue) list \<Rightarrow> bytes \<Rightarrow> bool" where
  "object_block d fs w \<longleftrightarrow>
     (\<exists>ls. w = render ls \<and> (\<forall>l \<in> set ls. line_ok l) \<and> (fs \<noteq> [] \<longrightarrow> ls \<noteq> [] \<and> line_indent (hd ls) = d) \<and>
       (\<forall>R. (R = [] \<or> line_indent (hd R) < d) \<longrightarrow>
          parseTOONObject (ls @ R) d [] = Some (puts [] (any_fields fs), R)))"

lemma parse_done: "R = [] \<or> line_indent (hd R) < d \<Longrightarrow> parseTOONObject R d out = Some (out, R)"
  by (subst parseTOONObject.simps) (auto split: list.splits)

lemma fields_written:
  "list_all2 (\<lambda>g w. field_block d (fst g) (snd g) w) gs ws \<Longrightarrow> distinct (map fst gs) \<Longrightarrow>
     \<exists>ls. concat ws = render ls \<and> (\<forall>l \<in> set ls. line_ok l) \<and> (gs \<noteq> [] \<longrightarrow> ls \<noteq> []) \<and>
       (ls \<noteq> [] \<longrightarrow> line_indent (hd ls) = d) \<and>
       (\<forall>R out. (R = [] \<or> line_indent (hd R) \<le> d) \<longrightarrow> (\<forall>g \<in> set gs. map_of out (fst g) = None) \<longrightarrow>
          parseTOONObject (ls @ R) d out = parseTOONObject R d (puts out (any_fields gs)))"
proof (induction rule: list_all2_induct)
  case Nil
  then show ?case by (intro exI [of _ "[]"]) simp
next
  case (Cons g gs w ws)
  from Cons.hyps(1) obtain l1 where l1: "l1 \<noteq> []" "w = render l1" "\<forall>l \<in> set l1. line_ok l" "line_indent (hd l1) = d"
    "\<And>R out. R = [] \<or> line_indent (hd R) \<le> d \<Longrightarrow> map_of out (fst g) = None \<Longrightarrow>
       parseTOONObject (l1 @ R) d out = parseTOONObject R d (map_put (fst g) (toonValueToAny (snd g)) out)"
    unfolding field_block_def by blast
  have "distinct (map fst gs)" using Cons.prems by simp
  from Cons.IH [OF this] obtain l2 where l2: "concat ws = render l2" "\<forall>l \<in> set l2. line_ok l"
    "l2 \<noteq> [] \<longrightarrow> line_indent (hd l2) = d"
    "\<And>R out. R = [] \<or> line_indent (hd R) \<le> d \<Longrightarrow> \<forall>g \<in> set gs. map_of out (fst g) = None \<Longrightarrow>
       parseTOONObject (l2 @ R) d out = parseTOONObject R d (puts out (any_fields gs))"
    by blast
  have "parseTOONObject ((l1 @ l2) @ R) d out = parseTOONObject R d (puts out (any_fields (g # gs)))"
    if R: "R = [] \<or> line_indent (hd R) \<le> d" and out: "\<forall>g' \<in> set (g # gs). map_of out (fst g') = None" for R out
  proof -
    let ?out = "map_put (fst g) (toonValueToAny (snd g)) out"
    have "l2 @ R = [] \<or> line_indent (hd (l2 @ R)) \<le> d" using R l2(3) by (cases l2) auto
    then have "parseTOONObject ((l1 @ l2) @ R) d out = parseTOONObject (l2 @ R) d ?out"
      using l1(5) [of "l2 @ R" out] out by simp
    also have "\<dots> = parseTOONObject R d (puts ?out (any_fields gs))"
      using Cons.prems out by (intro l2(4) [OF R]) (auto simp: map_of_put intro: rev_image_eqI)
    finally show ?thesis by simp
  qed
  then show ?case using l1(1-4) l2(1,2) by (intro exI [of _ "l1 @ l2"]) (auto simp del: foldl_Cons)
qed

lemma list_all2_map_those:
  assumes "those (map f xs) = Some ys" and "\<And>x y. x \<in> set xs \<Longrightarrow> f x = Some y \<Longrightarrow> P x y"
  shows "list_all2 P xs ys"
  using those_map_Some [OF assms(1)] assms(2) by (induction rule: list_all2_induct) auto

lemma object_written:
  assumes "writeTOONObject fs d opt = Some w" and "distinct (map fst fs)"
    and "\<And>f x. f \<in> set fs \<Longrightarrow> safeTOONKey (fst f) \<Longrightarrow> writeTOONValue (snd f) (fst f) d opt = Some x \<Longrightarrow>
      field_block d (fst f) (snd f) x"
  shows "object_block d fs w"
proof -
  let ?gs = "sort_key fst fs"
  let ?F = "\<lambda>f. if \<not> safeTOONKey (fst f) then None else writeTOONValue (snd f) (fst f) d opt"
  obtain ws where ws: "those (map ?F ?gs) = Some ws" "w = concat ws"
    using assms(1) by (auto simp: writeTOONObject.simps)
  have blocks: "list_all2 (\<lambda>g w. field_block d (fst g) (snd g) w) ?gs ws"
    using ws(1) assms(3) by (intro list_all2_map_those [of ?F]) (auto split: if_splits)
  have dist: "distinct (map fst ?gs)" using assms(2) by (simp add: distinct_map)
  from fields_written [OF blocks dist] obtain ls where ls: "concat ws = render ls" "\<forall>l \<in> set ls. line_ok l"
    "?gs \<noteq> [] \<longrightarrow> ls \<noteq> []" "ls \<noteq> [] \<longrightarrow> line_indent (hd ls) = d"
    "\<forall>R out. (R = [] \<or> line_indent (hd R) \<le> d) \<longrightarrow> (\<forall>g \<in> set ?gs. map_of out (fst g) = None) \<longrightarrow>
       parseTOONObject (ls @ R) d out = parseTOONObject R d (puts out (any_fields ?gs))"
    by blast
  have "puts [] (any_fields ?gs) = puts [] (any_fields fs)"
    using dist assms(2) by (intro gm.puts_order) (simp_all add: comp_def)
  then have "parseTOONObject (ls @ R) d [] = Some (puts [] (any_fields fs), R)"
    if "R = [] \<or> line_indent (hd R) < d" for R
    using ls(5) [rule_format, of R "[]"] parse_done [OF that] that by auto
  moreover have "fs \<noteq> [] \<longrightarrow> ls \<noteq> [] \<and> line_indent (hd ls) = d"
    using ls(3,4) by (metis set_sort set_empty)
  ultimately show ?thesis using ls(1,2) ws(2) unfolding object_block_def by blast
qed

lemma value_line:
  assumes "safeTOONKey name" and "CHR 0x0A \<notin> set x" and "x \<noteq> []"
  shows "line_ok (line d (name @ '': '' @ x))"
    and "array_name (name @ '': '' @ x) = None" and "toonKeyLineRe (name @ '': '' @ x) = Some (name, x)"
proof -
  show "line_ok (line d (name @ '': '' @ x))"
    using safe_starts [OF assms(1), of "'': '' @ x"] safe_no [OF assms(1), of "CHR 0x0A"] assms(2)
    by (simp add: line_ok_def)
  show "array_name (name @ '': '' @ x) = None" "toonKeyLineRe (name @ '': '' @ x) = Some (name, x)"
    using key_line [OF assms(1,2)] assms(3) by simp_all
qed

lemma field_scalar:
  assumes "toon_wf v" and "safeTOONKey name" and "Delimiter opt = CHR '',''"
    and "writeTOONScalar v name d opt = Some w"
  shows "field_block d name v w"
proof -
  have ne: "name \<noteq> []" using assms(2) by (simp add: safeTOONKey_def)
  then obtain x where x: "encodeTOONScalar v (CHR '','') = Some x" "w = writeIndent d @ name @ '': '' @ x @ newline"
    using assms(2-4) by (auto simp: writeTOONScalar_def split: option.splits)
  from cell_encode [OF assms(1) x(1)] have c: "cell_ok x" "parseTOONScalar x = Some (toonValueToAny v)" by auto
  then have xs: "x \<noteq> []" "CHR 0x0A \<notin> set x" "x \<noteq> ''{}''" by (auto simp: cell_ok_def starts_text_def)
  note l = value_line [OF assms(2) xs(2,1)]
  have "parseTOONObject (line d (name @ '': '' @ x) # R) d out = parseTOONObject R d (map_put name (toonValueToAny v) out)"
    if "map_of out name = None" for R out
    using l(2,3) xs(1,3) c(2) that by (subst parseTOONObject.simps) simp
  then show ?thesis using l(1) x(2) unfolding field_block_def
    by (intro exI [of _ "[line d (name @ '': '' @ x)]"]) simp
qed

lemma field_array:
  assumes "toon_wf (toonArray arr)" and "safeTOONKey name" and "Delimiter opt = CHR '',''"
    and "writeTOONArray name arr d opt = Some w"
  shows "field_block d name (toonArray arr) w"
proof -
  have ne: "name \<noteq> []" using assms(2) by (simp add: safeTOONKey_def)
  from array_written [OF assms(1,4,3)] assms(2) ne obtain h ls where
    h: "w = render (line d h # ls)" "\<forall>l \<in> set (line d h # ls). line_ok l" "array_name h = Some name"
      "\<And>R. parseTOONArray ((line d h # ls) @ R) d = Some (map toonValueToAny arr, R)" by blast
  have "parseTOONObject ((line d h # ls) @ R) d out = parseTOONObject R d (map_put name (toonValueToAny (toonArray arr)) out)"
    if "map_of out name = None" for R out
    using h(3,4) that by (subst parseTOONObject.simps) simp
  then show ?thesis using h(1,2) unfolding field_block_def
    by (intro exI [of _ "line d h # ls"]) auto
qed

lemma field_object:
  assumes "safeTOONKey name" and "object_block (Suc d) obj t" and "obj \<noteq> []"
  shows "field_block d name (toonObject obj) (writeIndent d @ name @ '':'' @ newline @ t)"
proof -
  from assms(2,3) obtain ls where ls: "t = render ls" "\<forall>l \<in> set ls. line_ok l" "ls \<noteq> []" "line_indent (hd ls) = Suc d"
    "\<And>R. R = [] \<or> line_indent (hd R) < Suc d \<Longrightarrow> parseTOONObject (ls @ R) (Suc d) [] = Some (puts [] (any_fields obj), R)"
    unfolding object_block_def by blast
  let ?h = "name @ '':''"
  have re: "array_name ?h = None" "toonKeyLineRe ?h = Some (name, [])"
    using key_line [OF assms(1), of "[]"] by simp_all
  have ok: "line_ok (line d ?h)"
    using safe_starts [OF assms(1), of "'':''"] safe_no [OF assms(1), of "CHR 0x0A"] by (simp add: line_ok_def)
  have "parseTOONObject ((line d ?h # ls) @ R) d out = parseTOONObject R d (map_put name (toonValueToAny (toonObject obj)) out)"
    if "R = [] \<or> line_indent (hd R) \<le> d" "map_of out name = None" for R out
  proof -
    have "hd (ls @ R) = hd ls" "ls @ R \<noteq> []" using ls(3) by auto
    moreover have "parseTOONObject (ls @ R) (Suc d) [] = Some (puts [] (any_fields obj), R)"
      using that(1) by (intro ls(5)) auto
    ultimately show ?thesis using re that(2) ls(3,4) by (subst parseTOONObject.simps) simp
  qed
  then show ?thesis using ls(1,2) ok unfolding field_block_def
    by (intro exI [of _ "line d ?h # ls"]) simp
qed

lemma value_written:
  "toon_wf v \<Longrightarrow> safeTOONKey name \<Longrightarrow> Delimiter opt = CHR '','' \<Longrightarrow> writeTOONValue v name d opt = Some w \<Longrightarrow>
     field_block d name v w"
proof (induction v arbitrary: name d w)
  case (toonObject obj)
  have ne: "name \<noteq> []" using toonObject.prems(2) by (simp add: safeTOONKey_def)
  show ?case
  proof (cases "obj = []")
    case True
    then have w: "w = writeIndent d @ name @ '': {}'' @ newline"
      using toonObject.prems ne by (simp add: writeTOONValue.simps)
    note l = value_line [OF toonObject.prems(2), of "''{}''"]
    have "parseTOONObject (line d (name @ '': {}'') # R) d out = parseTOONObject R d (map_put name (GMap []) out)"
      if "map_of out name = None" for R out
      using l(2,3) that by (subst parseTOONObject.simps) simp
    then show ?thesis using True l(1) w unfolding field_block_def
      by (intro exI [of _ "[line d (name @ '': {}'')]"]) simp
  next
    case False
    then obtain t where t: "writeTOONObject obj (Suc d) opt = Some t" "w = writeIndent d @ name @ '':'' @ newline @ t"
      using toonObject.prems ne by (auto simp: writeTOONValue.simps)
    have "object_block (Suc d) obj t"
    proof (rule object_written [OF t(1)])
      show "distinct (map fst obj)" using toonObject.prems(1) by simp
      fix f x assume f: "f \<in> set obj" "safeTOONKey (fst f)" "writeTOONValue (snd f) (fst f) (Suc d) opt = Some x"
      have "snd f \<in> Basic_BNFs.snds f" by (cases f) simp
      from toonObject.IH [OF f(1) this _ f(2) _ f(3)] f(1) toonObject.prems(1,3)
      show "field_block (Suc d) (fst f) (snd f) x" by simp
    qed
    from field_object [OF toonObject.prems(2) this False] t(2) show ?thesis by simp
  qed
next
  case (toonArray arr)
  then show ?case using field_array by (simp add: writeTOONValue.simps)
qed (use field_scalar in \<open>simp_all add: writeTOONValue.simps\<close>)

section \<open>The round trip\<close>

lemma key_prefix_name_start:
  assumes "key_prefix h = (k, r)" and "k \<noteq> []"
  shows "h \<noteq> [] \<and> key_start (hd h) \<and> set r \<subseteq> set h"
  using assms set_dropWhileD [of _ key_char h] by (auto simp: key_prefix_def split: if_splits)

lemma set_tl_subset: "set (tl xs) \<subseteq> set xs"
  by (cases xs) auto

lemma count_prefix_set: "count_prefix r = Some (n, r2) \<Longrightarrow> set r2 \<subseteq> set r"
proof -
  assume "count_prefix r = Some (n, r2)"
  then obtain t where r: "r = CHR ''['' # t" "r2 = tl (dropWhile is_digit t)"
    by (cases r) (auto simp: count_prefix_def split: if_splits)
  have "set r2 \<subseteq> set (dropWhile is_digit t)" unfolding r(2) by (rule set_tl_subset)
  then show ?thesis using set_dropWhileD [of _ is_digit t] by (auto simp: r(1))
qed

lemma value_suffix_colon: "value_suffix r = Some x \<Longrightarrow> CHR '':'' \<in> set r"
  by (auto simp: value_suffix_def prefix_def split: if_splits)

text \<open>A line an object accepts starts with a key and holds a colon.\<close>

lemma object_line:
  assumes "array_name h \<noteq> None \<or> toonKeyLineRe h \<noteq> None"
  shows "h \<noteq> [] \<and> key_start (hd h) \<and> CHR '':'' \<in> set h"
proof -
  obtain k r where k: "key_prefix h = (k, r)" by force
  have "k \<noteq> [] \<and> CHR '':'' \<in> set r"
  proof (cases "toonKeyLineRe h")
    case (Some a)
    then show ?thesis using k value_suffix_colon by (auto simp: toonKeyLineRe_def split: if_splits)
  next
    case None
    then consider n fs where "toonTabularLineRe h = Some (k, n, fs)" "k \<noteq> []"
      | n w where "toonArrayLineRe h = Some (k, n, w)" "k \<noteq> []"
      using assms k
      by (auto simp: array_name_def toonTabularLineRe_def toonArrayLineRe_def split: option.splits if_splits prod.splits)
    then show ?thesis
    proof cases
      case 1
      then obtain r2 where r2: "count_prefix r = Some (n, r2)" "dropWhile ((\<noteq>) (CHR ''}'')) (tl r2) = ''}:''"
        using k by (auto simp: toonTabularLineRe_def split: option.splits if_splits)
      have "CHR '':'' \<in> set (tl r2)" using set_dropWhileD [of "CHR '':''" "(\<noteq>) (CHR ''}'')" "tl r2"] r2(2) by simp
      then have "CHR '':'' \<in> set r2" by (cases r2) auto
      then show ?thesis using 1 count_prefix_set [OF r2(1)] by auto
    next
      case 2
      then obtain r2 where r2: "count_prefix r = Some (n, r2)" "value_suffix r2 = Some w"
        using k by (auto simp: toonArrayLineRe_def split: option.splits)
      then show ?thesis using 2 count_prefix_set [OF r2(1)] value_suffix_colon by auto
    qed
  qed
  with key_prefix_name_start [OF k] show ?thesis by auto
qed

lemma root_written:
  assumes "toon_wf v" and "Delimiter opt = CHR '',''" and "writeTOONValue v [] 0 opt = Some w"
  shows "\<exists>ls. ls \<noteq> [] \<and> w = render ls \<and> (\<forall>l \<in> set ls. line_ok l) \<and> line_indent (hd ls) = 0 \<and>
    parseTOONRoot ls = Some (toonValueToAny v, [])"
proof -
  have scalar: ?thesis if s: "writeTOONScalar v [] 0 opt = Some w"
  proof -
    from s obtain x where x: "encodeTOONScalar v (CHR '','') = Some x" "w = x @ newline"
      using assms(2) by (auto simp: writeTOONScalar_def writeIndent_def split: option.splits)
    from cell_encode [OF assms(1) x(1)] have c: "cell_ok x" "parseTOONScalar x = Some (toonValueToAny v)" by auto
    then obtain a y where y: "x = a # y" by (cases x) (auto simp: cell_ok_def starts_text_def)
    have "parseTOONRoot [line 0 x] = Some (toonValueToAny v, [])"
      using c y by (auto simp: parseTOONRoot_def cell_ok_def Let_def)
    then show ?thesis using c(1) x(2)
      by (intro exI [of _ "[line 0 x]"]) (simp add: line_ok_def cell_ok_def writeIndent_def)
  qed
  show ?thesis
  proof (cases v)
    case (toonObject obj)
    show ?thesis
    proof (cases "obj = []")
      case True
      then have "w = ''{}'' @ newline" using assms(3) toonObject by (simp add: writeTOONValue.simps)
      then show ?thesis using True toonObject
        by (intro exI [of _ "[line 0 ''{}'']"])
          (simp add: line_ok_def starts_text_def bval_def is_space_rune_def parseTOONRoot_def writeIndent_def)
    next
      case False
      then have w: "writeTOONObject obj 0 opt = Some w" using assms(3) toonObject by (simp add: writeTOONValue.simps)
      have "object_block 0 obj w"
        using w assms(1,2) toonObject value_written by (intro object_written) auto
      then obtain ls where ls: "w = render ls" "\<forall>l \<in> set ls. line_ok l" "ls \<noteq> []" "line_indent (hd ls) = 0"
        "parseTOONObject ls 0 [] = Some (puts [] (any_fields obj), [])"
        using False unfolding object_block_def by (metis append_Nil2)
      obtain l rest where l: "ls = l # rest" using ls(3) by (cases ls) auto
      have "array_name (line_text l) \<noteq> None \<or> toonKeyLineRe (line_text l) \<noteq> None"
      proof (rule ccontr)
        assume "\<not> ?thesis"
        then have "array_name (line_text l) = None" "toonKeyLineRe (line_text l) = None" by blast+
        then have "parseTOONObject ls 0 [] = None" using ls(4) by (subst parseTOONObject.simps) (simp add: l)
        with ls(5) show False by simp
      qed
      from object_line [OF this] have h: "line_text l \<noteq> []" "key_start (hd (line_text l))" "CHR '':'' \<in> set (line_text l)"
        by auto
      then have "parseTOONRoot ls = Some (toonValueToAny v, [])"
        using ls(5) l toonObject key_char_bytes [OF key_start_char [OF h(2)]]
        by (cases "line_text l") (auto simp: parseTOONRoot_def Let_def)
      with ls(1-4) show ?thesis by blast
    qed
  next
    case (toonArray arr)
    then have w: "writeTOONArray [] arr 0 opt = Some w" using assms(3) by (simp add: writeTOONValue.simps)
    from array_written [OF _ w assms(2)] assms(1) toonArray obtain h ls where
      h: "w = render (line 0 h # ls)" "\<forall>l \<in> set (line 0 h # ls). line_ok l"
        "if arr = [] then h = ''[]'' \<and> ls = [] else prefix ''['' h \<and> h \<noteq> ''[]''"
        "arr \<noteq> [] \<longrightarrow> (\<forall>R. parseTOONArray ((line 0 h # ls) @ R) 0 = Some (map toonValueToAny arr, R))"
      by blast
    have "parseTOONRoot (line 0 h # ls) = Some (toonValueToAny v, [])"
    proof (cases "arr = []")
      case True
      then show ?thesis using h(3) toonArray by (simp add: parseTOONRoot_def)
    next
      case False
      then have "parseTOONArray (line 0 h # ls) 0 = Some (map toonValueToAny arr, [])"
        using h(4) by (metis append_Nil2)
      then show ?thesis using False h(3) toonArray by (auto simp: parseTOONRoot_def prefix_def)
    qed
    with h(1,2) show ?thesis by (intro exI [of _ "line 0 h # ls"]) simp
  qed (use scalar assms(3) in \<open>simp_all add: writeTOONValue.simps\<close>)
qed

lemma decode_encode_toon:
  assumes "toon_wf v" and "encodeTOON (GToon v) opt = Some w" and "Delimiter opt \<in> {CHR 0x00, CHR '',''}"
  shows "decodeTOON w = Some (toonValueToAny v)"
proof -
  obtain x opt' where x: "writeTOONValue v [] 0 opt' = Some x" "w = trim_newlines x" "Delimiter opt' = CHR '',''"
    using assms(2,3) by (auto simp: encodeTOON_def Let_def split: if_splits)
  from root_written [OF assms(1) x(3,1)] obtain ls where
    ls: "ls \<noteq> []" "x = render ls" "\<forall>l \<in> set ls. line_ok l" "line_indent (hd ls) = 0"
      "parseTOONRoot ls = Some (toonValueToAny v, [])" by blast
  then have "scanTOONLines w = Some ls" using scan_render x(2) by simp
  then show ?thesis using ls by (simp add: decodeTOON_def)
qed

end
