(* ===== verification/Toon_Lossless.thy ===== *)
theory Toon_Lossless
  imports Toon_Facts
begin

text \<open>
  What the JSON reader of the TOON compressor returns is well formed, so the compressor is
  lossless on every input it accepts: its output decodes to the value of its input.
\<close>

section \<open>Scalars of the token stream\<close>

lemma unquote_inner_utf8: "unquote_inner s = Some out \<Longrightarrow> utf8_valid out"
proof (induction s arbitrary: out rule: unquote_inner.induct)
  case (1 s)
  note eq = "1.prems" [unfolded unquote_inner.simps [of s]]
  have ascii: "bval x < 128" if "simple_escape e = Some x" for e x
    using that by (auto simp: simple_escape_def bval_def split: if_splits)
  have app: "utf8_valid (encode_rune r @ o2) = utf8_valid o2" for r o2
    by (simp add: utf8_valid_append encode_rune_valid)
  show ?case
  proof (cases "s = []")
    case True
    with eq show ?thesis by simp
  next
    case ne: False
    show ?thesis
    proof (cases "hd s = CHR 0x5C")
      case bs: True
      then obtain e t where et: "tl s = e # t" using eq ne by (auto split: list.splits)
      show ?thesis
      proof (cases "e = CHR ''u''")
        case True
        then obtain r where r: "getu4 s = Some r" using eq ne bs et by (auto split: option.splits)
        note IH = "1.IH"(1) [OF ne bs et True r] "1.IH"(2) [OF ne bs et True r] "1.IH"(3) [OF ne bs et True r]
        show ?thesis using eq ne bs et True r IH app
          by (auto split: if_splits option.splits)
      next
        case False
        then show ?thesis using eq ne bs et "1.IH"(4) [OF ne bs et False] ascii
          by (auto split: option.splits)
      qed
    next
      case False
      then show ?thesis using eq ne "1.IH"(5,6) [OF ne False] app
        by (auto split: if_splits)
    qed
  qed
qed

lemma unquote_utf8: "unquote w = Some s \<Longrightarrow> utf8_valid s"
  by (auto simp: unquote_def split: if_splits dest: unquote_inner_utf8)

fun scalar_state :: "jstep \<Rightarrow> bool" where
  "scalar_state InString = True"
| "scalar_state InStringEsc = True"
| "scalar_state (InStringEscU n) = True"
| "scalar_state EndValue = True"
| "scalar_state p = in_atom p"

lemma scalar_step:
  assumes "scalar_state p" and "scan_step (p, []) c = (q, st)" and "q \<noteq> ScanError" and "q \<noteq> EndTop"
  shows "scalar_state q \<and> st = [] \<and> (in_atom p \<longrightarrow> (in_atom q \<or> q = EndValue) \<and> \<not> atom_stop c)"
proof (cases "in_atom p")
  case True
  have ns: "\<not> atom_stop c"
  proof
    assume "atom_stop c"
    from atom_step_stop [OF True this, of "[]"] assms(2-4) show False
      by (auto simp: end_value_def end_top_def split: if_splits)
  qed
  from atom_step_go [OF True ns, of "[]"] assms(2,3) have "st = [] \<and> (in_atom q \<or> q = EndValue)" by auto
  moreover then have "scalar_state q" by (cases q) auto
  ultimately show ?thesis using ns by simp
next
  case False
  then show ?thesis using assms
    by (cases p) (auto simp: end_value_def end_top_def split: if_splits)
qed

lemma scalar_length_Cons:
  assumes "scan_step (p, []) c = (q, st)"
  shows "scalar_length p (c # s) =
    (if q = ScanError \<or> q = EndTop then (if final_step p then Some 0 else None)
     else map_option Suc (scalar_length q s))"
  using assms by (cases q) auto

declare scalar_length.simps(2) [simp del]

lemma scalar_scan:
  "scalar_state p \<Longrightarrow> scalar_length p s = Some n \<Longrightarrow>
     n \<le> length s \<and> (\<exists>q. scan (p, []) (take n s) = (q, []) \<and> final_step q) \<and>
     (in_atom p \<or> p = EndValue \<longrightarrow> (\<forall>c \<in> set (take n s). \<not> atom_stop c))"
proof (induction s arbitrary: p n)
  case Nil
  then show ?case by (auto split: if_splits)
next
  case (Cons c s)
  obtain q st where q: "scan_step (p, []) c = (q, st)" by force
  show ?case
  proof (cases "q = ScanError \<or> q = EndTop")
    case True
    then show ?thesis using Cons.prems(2) by (auto simp: scalar_length_Cons [OF q] split: if_splits)
  next
    case False
    then obtain m where m: "scalar_length q s = Some m" "n = Suc m"
      using Cons.prems(2) by (auto simp: scalar_length_Cons [OF q])
    have st: "scalar_state q" "st = []" "in_atom p \<longrightarrow> (in_atom q \<or> q = EndValue) \<and> \<not> atom_stop c"
      using scalar_step [OF Cons.prems(1) q] False by auto
    have "p \<noteq> EndValue" using q False by (auto simp: end_value_def end_top_def split: if_splits)
    with Cons.IH [OF st(1) m(1)] m(2) q st show ?thesis by auto
  qed
qed

lemma scalar_length_begin:
  assumes "scalar_length BeginValue (c # s) = Some n" and "\<not> is_json_space c" and "\<not> open_byte c"
  obtains m p where "n = Suc m" "begin_value [] c = (p, [])" "scalar_length p s = Some m" "scalar_state p"
    "c = CHR 0x22 \<or> in_atom p" "c \<noteq> CHR 0x22 \<longrightarrow> \<not> atom_stop c"
proof -
  obtain p st where p: "begin_value [] c = (p, st)" by force
  have q: "scan_step (BeginValue, []) c = (p, st)" using p by simp
  have ne: "p \<noteq> ScanError \<and> p \<noteq> EndTop"
    using assms(1) by (auto simp: scalar_length_Cons [OF q] final_step_def split: if_splits)
  then obtain m where m: "scalar_length p s = Some m" "n = Suc m"
    using assms(1) by (auto simp: scalar_length_Cons [OF q])
  have "fst (begin_value [] c) \<noteq> ScanError" using p ne by simp
  from begin_value_cases [OF this assms(2)] assms(3) consider "c = CHR 0x22"
    | "c \<noteq> CHR 0x22" "\<not> atom_stop c" "in_atom p" "st = []" using p by auto
  then show ?thesis
  proof cases
    case 1
    then have "p = InString" "st = []" using p by (auto simp: begin_value_def is_json_space_def)
    then show ?thesis using that [OF m(2)] p m(1) 1 by simp
  next
    case 2
    moreover then have "scalar_state p" by (cases p) auto
    ultimately show ?thesis using that [OF m(2)] p m(1) by simp
  qed
qed

lemma final_accepts: "final_step q \<Longrightarrow> accepts (q, [])"
  by (auto simp: final_step_def accepts_def state0_def end_value_def end_top_def is_json_space_def
      is_digit_def bval_def)

text \<open>A number token is a number of the grammar with no space around it.\<close>

lemma number_token:
  assumes "dec_scalar (c # s) = Some (TokNumber w, r)" and "\<not> is_json_space c" and "\<not> open_byte c"
  shows "validJSONNumber w \<and> strip_json_space w = w"
proof -
  from assms(1) obtain n where n: "scalar_length BeginValue (c # s) = Some n" "w = take n (c # s)"
      "scalar_token w = Some (TokNumber w)"
    by (auto simp: dec_scalar_def scalar_token_def split: option.splits if_splits)
  from n(3) have w: "w \<noteq> []" "hd w \<noteq> CHR 0x22" "w \<noteq> ''true''" "w \<noteq> ''false''" "w \<noteq> ''null''"
    by (auto simp: scalar_token_def split: if_splits)
  obtain m p where m: "n = Suc m" "begin_value [] c = (p, [])" "scalar_length p s = Some m" "scalar_state p"
      "c = CHR 0x22 \<or> in_atom p" "c \<noteq> CHR 0x22 \<longrightarrow> \<not> atom_stop c"
    using n(1) assms(2,3) by (rule scalar_length_begin)
  have wc: "w = c # take m s" using n(2) m(1) by simp
  have c: "c \<noteq> CHR 0x22" using w(2) wc by simp
  with m(5) have at: "in_atom p" by simp
  from scalar_scan [OF m(4,3)] at obtain q where q: "scan (p, []) (take m s) = (q, [])" "final_step q"
      and ns: "\<forall>x \<in> set (take m s). \<not> atom_stop x" by blast
  have "scan (BeginValue, []) w = (q, [])" using q(1) m(2) by (simp add: wc)
  then have valid: "json_valid w" using final_accepts [OF q(2)] by (simp add: json_valid_accepts)
  have nst: "\<forall>x \<in> set w. \<not> atom_stop x" using ns m(6) c by (simp add: wc)
  then have nsp: "\<forall>x \<in> set w. \<not> is_json_space x" by (auto simp: atom_stop_def isSpace_json)
  have strip: "strip_json_space w = w"
    using strip_json_space_decomp [of "[]" "[]" w] w(1) nsp by simp
  have "clean_value w" using valid strip by (simp add: clean_value_def)
  then have "value_len w = Some (length w)" by (rule clean_value_reads(1))
  moreover have tw: "takeWhile (\<lambda>c. \<not> atom_stop c) (take m s) = take m s"
    using ns by (intro takeWhile_eq_all_conv [THEN iffD2])
  ultimately have "atom_word w"
    using c assms(3) nst
    by (auto simp: value_len_def wc open_byte_def Let_def tw split: if_splits)
  then have "hd w = CHR ''-'' \<or> is_digit (hd w)" using w by (simp add: atom_word_def)
  then show ?thesis using valid strip w(1) by (simp add: validJSONNumber_def)
qed

section \<open>The reader's values are well formed\<close>

definition token_ok :: "token \<Rightarrow> bool" where
  "token_ok t = (case t of TokNumber w \<Rightarrow> validJSONNumber w \<and> strip_json_space w = w
     | TokString s \<Rightarrow> utf8_valid s | _ \<Rightarrow> True)"

lemma dec_scalar_ok:
  assumes "dec_scalar (c # s) = Some (t, r)" and "\<not> is_json_space c" and "\<not> open_byte c"
  shows "token_ok t"
proof (cases t)
  case (TokNumber w)
  then show ?thesis using number_token assms by (simp add: token_ok_def)
next
  case (TokString x)
  then have "\<exists>w. unquote w = Some x"
    using assms(1) by (auto simp: dec_scalar_def scalar_token_def split: option.splits if_splits)
  then show ?thesis using TokString unquote_utf8 by (auto simp: token_ok_def)
qed (simp_all add: token_ok_def)

lemma Token_ok: "Token dec = Inr (t, d) \<Longrightarrow> token_ok t"
proof (induction dec arbitrary: t d rule: Token.induct)
  case (1 dec)
  obtain c s where cs: "dropWhile is_json_space (unread dec) = c # s"
    using "1.prems" by (subst (asm) Token.simps) (auto split: list.splits)
  have nsp: "\<not> is_json_space c" using hd_dropWhile [of is_json_space "unread dec"] cs by simp
  show ?case
  proof (cases "c = CHR ''['' \<or> c = CHR '']'' \<or> c = CHR ''{'' \<or> c = CHR ''}''")
    case True
    then show ?thesis using "1.prems"
      by (subst (asm) Token.simps) (auto simp: cs token_ok_def split: if_splits)
  next
    case False
    then have no: "\<not> open_byte c" by (simp add: open_byte_def)
    note eq = "1.prems" [unfolded Token.simps [of dec]]
    consider (colon) "c = CHR '':''" | (comma) "c = CHR '',''" | (other) "c \<noteq> CHR '':''" "c \<noteq> CHR '',''" by blast
    then show ?thesis
    proof cases
      case colon
      then show ?thesis using eq "1.IH"(1) [OF cs] by (simp add: cs split: if_splits)
    next
      case comma
      consider (a) "tok_state dec = tokenArrayComma" "Token (dec\<lparr>tok_state := tokenArrayValue, unread := s\<rparr>) = Inr (t, d)"
        | (o) "tok_state dec = tokenObjectComma" "Token (dec\<lparr>tok_state := tokenObjectKey, unread := s\<rparr>) = Inr (t, d)"
        using eq comma by (simp add: cs split: if_splits)
      then show ?thesis
      proof cases
        case a
        show ?thesis by (rule "1.IH"(2) [OF cs _ _ _ _ _ comma a]) (simp_all add: comma)
      next
        case o
        show ?thesis by (rule "1.IH"(3) [OF cs _ _ _ _ _ comma _ o]) (simp_all add: comma o)
      qed
    next
      case other
      then have "\<exists>r. dec_scalar (c # s) = Some (t, r)"
        using eq False by (simp add: cs split: if_splits option.splits prod.splits)
      then show ?thesis using dec_scalar_ok nsp no by blast
    qed
  qed
qed

lemma read_wf:
  "\<forall>v d. length (unread dec) \<le> max_int \<longrightarrow> readJSONTOONValue dec = Some (v, d) \<longrightarrow> toon_wf v"
  "\<forall>v d. length (unread dec) \<le> max_int \<longrightarrow> distinct (map fst flds) \<longrightarrow> (\<forall>f \<in> set flds. toon_wf (snd f)) \<longrightarrow>
     read_fields dec flds = Some (v, d) \<longrightarrow> toon_wf v"
  "\<forall>v d. length arr + length (unread dec) \<le> max_int \<longrightarrow> (\<forall>e \<in> set arr. toon_wf e) \<longrightarrow>
     read_elements dec arr = Some (v, d) \<longrightarrow> toon_wf v"
proof (induction dec and dec flds and dec arr
    rule: readJSONTOONValue_read_fields_read_elements.induct)
  case (1 dec)
  show ?case
  proof (intro allI impI)
    fix v d
    assume len: "length (unread dec) \<le> max_int" and eq: "readJSONTOONValue dec = Some (v, d)"
    then obtain t d1 where t: "Token dec = Inr (t, d1)"
      by (auto simp: readJSONTOONValue.simps [of dec] split: sum.splits)
    have l1: "length (unread d1) \<le> max_int" using Token_shorter [OF t] len by simp
    have ok: "token_ok t" using Token_ok [OF t] .
    show "toon_wf v"
    proof (cases t)
      case (Delim c)
      consider "c = CHR ''{''" "read_fields d1 [] = Some (v, d)"
        | "c \<noteq> CHR ''{''" "c = CHR ''[''" "read_elements d1 [] = Some (v, d)"
        using eq [unfolded readJSONTOONValue.simps [of dec]] t Delim by (auto split: if_splits)
      then show ?thesis
      proof cases
        case 1
        show ?thesis
          by (rule "1.IH"(1) [OF t refl Delim 1(1), rule_format, OF l1 _ _ 1(2)]) auto
      next
        case 2
        show ?thesis
          by (rule "1.IH"(2) [OF t refl Delim 2(1,2), rule_format, OF _ _ 2(3)]) (use l1 in auto)
      qed
    qed (use eq [unfolded readJSONTOONValue.simps [of dec]] t ok in \<open>auto simp: token_ok_def\<close>)
  qed
next
  case (2 dec flds)
  show ?case
  proof (intro allI impI)
    fix v d
    assume len: "length (unread dec) \<le> max_int" and dist: "distinct (map fst flds)"
      and wf: "\<forall>f \<in> set flds. toon_wf (snd f)" and eq: "read_fields dec flds = Some (v, d)"
    note eq' = eq [unfolded read_fields.simps [of dec flds]]
    show "toon_wf v"
    proof (cases "More dec")
      case False
      then have "v = toonObject flds" using eq' by (auto split: sum.splits token.splits if_splits)
      then show ?thesis using dist wf by simp
    next
      case True
      then obtain key d1 w d2 where t: "Token dec = Inr (TokString key, d1)" "key \<notin> fst ` set flds"
          and r: "readJSONTOONValue d1 = Some (w, d2)" "read_fields d2 (flds @ [(key, w)]) = Some (v, d)"
        using eq' by (auto split: sum.splits token.splits if_splits option.splits)
      have l1: "length (unread d1) \<le> max_int" using Token_shorter [OF t(1)] len by simp
      then have "toon_wf w" using "2.IH"(1) [OF True t(1) refl refl t(2)] r(1) by blast
      moreover have "length (unread d2) \<le> max_int"
        using readJSONTOONValue_shorter [OF r(1)] l1 by simp
      ultimately show ?thesis using dist wf t(2)
        by (intro "2.IH"(2) [OF True t(1) refl refl t(2) r(1) refl, rule_format, OF _ _ _ r(2)]) auto
    qed
  qed
next
  case (3 dec arr)
  show ?case
  proof (intro allI impI)
    fix v d
    assume len: "length arr + length (unread dec) \<le> max_int" and wf: "\<forall>e \<in> set arr. toon_wf e"
      and eq: "read_elements dec arr = Some (v, d)"
    note eq' = eq [unfolded read_elements.simps [of dec arr]]
    show "toon_wf v"
    proof (cases "More dec")
      case False
      then have "v = toonArray arr" using eq' by (auto split: sum.splits token.splits if_splits)
      then show ?thesis using len wf by simp
    next
      case True
      then obtain w d2 where r: "readJSONTOONValue dec = Some (w, d2)" "read_elements d2 (arr @ [w]) = Some (v, d)"
        using eq' by (auto split: option.splits)
      have "toon_wf w" using "3.IH"(1) [OF True] r(1) len by auto
      moreover have "length (unread d2) < length (unread dec)"
        using readJSONTOONValue_shorter [OF r(1)] .
      ultimately show ?thesis using len wf
        by (intro "3.IH"(2) [OF True r(1) refl, rule_format, OF _ _ r(2)]) auto
    qed
  qed
qed

text \<open>An input no longer than an int can count gives a well-formed value.\<close>

lemma parseJSONTOON_wf:
  "length inp \<le> max_int \<Longrightarrow> parseJSONTOON inp = Some v \<Longrightarrow> toon_wf v"
  using read_wf(1) [of "\<lparr>tok_state = tokenTopValue, tok_stack = [], unread = inp\<rparr>"]
  by (auto simp: parseJSONTOON_def split: option.splits sum.splits token_error.splits)

lemma Compress_lossless:
  assumes "length inp \<le> max_int" and "Delimiter opt \<in> {CHR 0x00, CHR '',''}"
    and "toon_Compress opt inp = Some out"
  shows "DecodeTOON out = canonicalJSONValue inp \<and> canonicalJSONValue inp \<noteq> None"
proof -
  from assms(3) obtain v where v: "parseJSONTOON inp = Some v" "encodeTOON (GToon v) opt = Some out"
    by (auto simp: toon_Compress_def split: option.splits)
  have "decodeTOON out = Some (toonValueToAny v)"
    using parseJSONTOON_wf [OF assms(1) v(1)] v(2) assms(2) by (rule decode_encode_toon)
  then show ?thesis by (simp add: DecodeTOON_def canonicalJSONValue_def v(1))
qed

end
