(* ===== verification/Json_Properties.thy ===== *)
theory Json_Properties
  imports Json_Splice Toon_Lossless
begin

text \<open>
  The properties of the JSON readers, writers and splicers and of the TOON re-encoder, each with its
  example.
\<close>

text \<open>
  C1. A body written by \<open>rawObject\<close> from a map with valid UTF-8 keys and clean JSON values is
  read back by \<open>topFields\<close> as that same map.
\<close>

theorem rawObject_topFields:
  assumes "distinct (map fst flds)" and "\<forall>k \<in> fst ` set flds. utf8_valid k"
    and "\<forall>v \<in> snd ` set flds. clean_value v"
  shows "topFields (rawObject flds) = Some (map_of flds)"
  using assms by (intro topFields_rawObject) auto

lemma clean_true: "clean_value ''true''"
  by (simp add: clean_value_def json_valid_def begin_value_def is_json_space_def is_digit_def
      strip_json_space_def end_value_def end_top_def)

lemma utf8_valid_a: "utf8_valid ''a''"
  by (simp add: bval_def)

theorem rawObject_topFields_witness:
  "topFields (rawObject [(''a'', ''true'')]) = Some (map_of [(''a'', ''true'')])"
  using rawObject_topFields [of "[(''a'', ''true'')]"] clean_true utf8_valid_a by simp

text \<open>
  C2. The TOON compressor is lossless: whatever it emits for an input, the TOON decoder reads back
  as the value the JSON reader reads from that input.
\<close>

theorem toon_lossless:
  assumes "length inp \<le> max_int" and "toon_Compress NewTOON inp = Some out"
  shows "DecodeTOON out = canonicalJSONValue inp \<and> canonicalJSONValue inp \<noteq> None"
  using assms by (intro Compress_lossless [of inp NewTOON out]) (simp_all add: NewTOON_def)

lemma toon_list_example: "toon_Compress NewTOON ''[1,2]'' = Some ''[2]: 1,2''"
  by code_simp

theorem toon_lossless_witness:
  "DecodeTOON ''[2]: 1,2'' = canonicalJSONValue ''[1,2]'' \<and> canonicalJSONValue ''[1,2]'' \<noteq> None"
  using toon_lossless [OF _ toon_list_example] by (simp add: max_int_def)

text \<open>
  C3. A string written by \<open>appendString\<close> is read back by \<open>jstr\<close>, for every valid UTF-8 string.
\<close>

theorem appendString_jstr:
  assumes "utf8_valid s"
  shows "jstr (appendString [] s) = s"
  using assms by (rule jstr_appendString)

theorem appendString_jstr_witness: "jstr (appendString [] [CHR 0x22, CHR 0x5C]) = [CHR 0x22, CHR 0x5C]"
  using appendString_jstr [of "[CHR 0x22, CHR 0x5C]"] by (simp add: bval_def)

text \<open>
  C4. On every valid document \<open>trimValue\<close> returns the one value there is, without the space around
  it.
\<close>

theorem trimValue_complete:
  assumes "json_valid b"
  shows "trimValue b = Some (strip_json_space b)"
  using trimValue_reads [OF assms] by metis

theorem trimValue_complete_witness: "trimValue '' [1] '' = Some ''[1]''"
  using trimValue_complete [of "'' [1] ''"] by code_simp

text \<open>
  On every valid document that is an object \<open>topFields\<close> returns its fields.
\<close>

theorem topFields_total:
  assumes "json_valid b" and "hd (strip_json_space b) = CHR ''{''"
  shows "topFields b \<noteq> None"
  using assms by (rule topFields_reads)

lemma empty_object: "json_valid '' {} ''" "hd (strip_json_space '' {} '') = CHR ''{''"
  by code_simp+

theorem topFields_total_witness: "topFields '' {} '' \<noteq> None"
  using topFields_total [OF empty_object] .

text \<open>
  C5. The scan of \<open>topMember\<close> for one key agrees with parsing every member and looking the key up,
  the last of duplicates included.
\<close>

theorem topMember_lookup:
  assumes "objectKVs b [] = (kvs, True)"
  shows "topMember b key = obj_get kvs key"
  using assms by (rule topMember_get)

abbreviation dup_body :: bytes where
  "dup_body \<equiv> ''{'' @ quoted ''a'' @ '':1,'' @ quoted ''a'' @ '':2}''"

lemma dup_body_kvs: "objectKVs dup_body [] = ([\<lparr>kv_key = ''a'', kv_val = ''1''\<rparr>, \<lparr>kv_key = ''a'', kv_val = ''2''\<rparr>], True)"
  by code_simp

theorem topMember_lookup_witness: "topMember dup_body ''a'' = Some ''2''"
  using topMember_lookup [OF dup_body_kvs, of "''a''"] by code_simp

text \<open>
  C6. Splicing new text into string values of a body never changes whether the body is valid JSON.
\<close>

theorem Replace_valid:
  assumes "\<And>c. c \<in> set cs \<Longrightarrow> string_token body c" and "Replace body cs rs = Inr out"
  shows "json_valid out = json_valid body"
  using assms by (rule Replace_keeps_valid)

abbreviation two_strings :: bytes where
  "two_strings \<equiv> ''['' @ quoted ''ab'' @ '']''"

abbreviation ab_candidate :: Candidate where
  "ab_candidate \<equiv> \<lparr>Start = 1, End = 5, Original = ''ab''\<rparr>"

lemma ab_candidate_token: "string_token two_strings ab_candidate"
proof -
  have "scan (BeginValue, []) (take (Suc (nat 1)) two_strings) = (InString, [ArrayValue])"
    and "scan (BeginValue, []) (take (nat 5) two_strings) = (EndValue, [ArrayValue])" by code_simp+
  then show ?thesis by (auto simp: string_token_def quoted_def)
qed

lemma ab_replaced: "Replace two_strings [ab_candidate] [Some [CHR 0x22]] =
    Inr [CHR ''['', CHR 0x22, CHR 0x5C, CHR 0x22, CHR 0x22, CHR '']'']"
  by code_simp

theorem Replace_valid_witness:
  "json_valid [CHR ''['', CHR 0x22, CHR 0x5C, CHR 0x22, CHR 0x22, CHR '']''] = json_valid two_strings"
  using Replace_valid [OF _ ab_replaced] ab_candidate_token by simp

text \<open>
  The two string scanners of the proxy (byte by byte in jsonsplice, quote by quote with a count of
  the backslashes before it in jsonfast) find the same end.
\<close>

theorem string_scanners_agree:
  assumes "i < length b" and "b ! i = CHR 0x22"
  shows "js_stringEnd b i = stringEnd b i"
  using assms by (rule js_stringEnd_eq)

theorem string_scanners_agree_witness: "js_stringEnd two_strings 1 = stringEnd two_strings 1"
  using string_scanners_agree [of 1 two_strings] by (simp add: quoted_def)

text \<open>
  C7. The spans \<open>Elements\<close> returns for an array are the elements \<open>arrayItems\<close> returns.
\<close>

theorem Elements_arrayItems:
  assumes "arrayItems b [] = (xs, True)"
  shows "\<exists>ss. Elements b (span 0 (length b)) = Some ss \<and>
    map (\<lambda>s. slice b (nat (Start s)) (nat (End s))) ss = xs"
  using assms by (rule Elements_items)

lemma two_items: "arrayItems ''[1, 2]'' [] = ([''1'', ''2''], True)"
  by code_simp

theorem Elements_arrayItems_witness:
  "\<exists>ss. Elements ''[1, 2]'' (span 0 6) = Some ss \<and>
    map (\<lambda>s. slice ''[1, 2]'' (nat (Start s)) (nat (End s))) ss = [''1'', ''2'']"
  using Elements_arrayItems [OF two_items] by (simp add: numeral_eq_Suc)

text \<open>
  C8. \<open>validText\<close> repairs a string token: the result decodes to the same text, is valid UTF-8 and is
  left alone by a second pass.
\<close>

theorem validText_repairs:
  assumes "unquote (quoted s) = Some out"
  shows "\<exists>r. validText (quoted s) = quoted r \<and> unquote (quoted r) = Some out \<and> utf8_valid r
    \<and> validText (quoted r) = quoted r"
  using assms by (rule validText_token)

lemma unquote_a: "unquote (quoted ''a'') = Some ''a''"
  by code_simp

theorem validText_repairs_witness:
  "\<exists>r. validText (quoted ''a'') = quoted r \<and> unquote (quoted r) = Some ''a'' \<and> utf8_valid r
    \<and> validText (quoted r) = quoted r"
  using validText_repairs [OF unquote_a] .

text \<open>
  Outside string tokens the promise of \<open>validText\<close> fails: a backslash in front of a two-byte rune
  makes it keep the first byte of the rune alone, and the result is not valid UTF-8.
\<close>

theorem validText_breaks_rune:
  "\<not> utf8_valid (validText [CHR 0x5C, CHR 0xC3, CHR 0xA9, CHR 0xFF])"
  by (rule validText_splits_rune)

end
