(* ===== verification/Fifo_Map.thy ===== *)
theory Fifo_Map
  imports Prelude
begin

text \<open>
  Maps bounded by oldest-first eviction. The cache guard and the prefix monitor both keep, next to
  a map, the order in which its keys came in and a cap: a key that is new is appended to the order,
  and while the order is longer than the cap its first key leaves both. The locale \<open>fifo_store\<close>
  states what their \<open>put\<close> does and proves what both rely on.
\<close>

text \<open>The eviction loop.\<close>

fun evict :: "nat \<Rightarrow> 'k list \<Rightarrow> ('k \<rightharpoonup> 'v) \<Rightarrow> 'k list \<times> ('k \<rightharpoonup> 'v)" where
  "evict n [] m = ([], m)"
| "evict n (oldest # ord) m =
     (if length (oldest # ord) > n then evict n ord (m(oldest := None)) else (oldest # ord, m))"

lemma evict_eq:
  "evict n ord m = (drop (length ord - n) ord, m |` (- set (take (length ord - n) ord)))"
proof (induction n ord m rule: evict.induct)
  case (2 n oldest ord m)
  show ?case
  proof (cases "length (oldest # ord) > n")
    case True
    then have n: "length (oldest # ord) - n = Suc (length ord - n)" by simp
    have "evict n (oldest # ord) m = evict n ord (m(oldest := None))" using True by simp
    also have "\<dots> = (drop (length ord - n) ord, (m(oldest := None)) |` (- set (take (length ord - n) ord)))"
      by (rule "2.IH" [OF True])
    also have "\<dots> = (drop (length (oldest # ord) - n) (oldest # ord),
        m |` (- set (take (length (oldest # ord) - n) (oldest # ord))))"
      unfolding n by (auto simp: restrict_map_def fun_eq_iff)
    finally show ?thesis .
  qed (auto simp: restrict_map_def)
qed (auto simp: restrict_map_def)

definition fifo_inv :: "('k \<rightharpoonup> 'v) \<Rightarrow> 'k list \<Rightarrow> nat \<Rightarrow> bool" where
  "fifo_inv m ord n \<longleftrightarrow> 0 < n \<and> distinct ord \<and> set ord = dom m \<and> length ord \<le> n"

locale fifo_store =
  fixes get :: "'s \<Rightarrow> 'k \<Rightarrow> 'v option"
    and ord :: "'s \<Rightarrow> 'k list"
    and cap :: "'s \<Rightarrow> nat"
    and put :: "'k \<Rightarrow> 'v \<Rightarrow> 's \<Rightarrow> 's"
  assumes put_old: "get s k \<noteq> None \<Longrightarrow> ord (put k v s) = ord s \<and> get (put k v s) = (get s)(k \<mapsto> v)"
    and put_new: "get s k = None \<Longrightarrow>
      (ord (put k v s), get (put k v s)) =
        (case evict (cap s) (ord s @ [k]) (get s) of (o', m) \<Rightarrow> (o', m(k \<mapsto> v)))"
    and put_cap: "cap (put k v s) = cap s"
begin

lemma get_put_same [simp]: "get (put k v s) k = Some v"
  using put_old [of s k v] put_new [of s k v] by (cases "get s k") (auto simp: evict_eq)

text \<open>Another key keeps its value or is evicted: a put never changes it.\<close>

lemma get_put_other: "k' \<noteq> k \<Longrightarrow> get (put k v s) k' = get s k' \<or> get (put k v s) k' = None"
  using put_old [of s k v] put_new [of s k v]
  by (cases "get s k") (auto simp: evict_eq restrict_map_def)

lemma put_inv: "fifo_inv (get s) (ord s) (cap s) \<Longrightarrow>
    fifo_inv (get (put k v s)) (ord (put k v s)) (cap (put k v s))"
proof (cases "get s k")
  case (Some x)
  assume "fifo_inv (get s) (ord s) (cap s)"
  with Some put_old [of s k v] show ?thesis by (auto simp: fifo_inv_def put_cap)
next
  case None
  assume inv: "fifo_inv (get s) (ord s) (cap s)"
  let ?all = "ord s @ [k]" and ?n = "Suc (length (ord s)) - cap s"
  have k: "k \<notin> set (ord s)" using inv None by (auto simp: fifo_inv_def)
  have n: "?n \<le> length (ord s)" "length (ord s) \<le> cap s" "0 < cap s" using inv by (auto simp: fifo_inv_def)
  have o: "ord (put k v s) = drop ?n ?all"
    and g: "get (put k v s) = (get s |` (- set (take ?n ?all)))(k \<mapsto> v)"
    using put_new [OF None, of v] by (auto simp: evict_eq)
  have dist: "distinct ?all" using inv k by (auto simp: fifo_inv_def)
  have "set ?all = set (take ?n ?all) \<union> set (drop ?n ?all)" by (metis append_take_drop_id set_append)
  moreover have "set (take ?n ?all) \<inter> set (drop ?n ?all) = {}"
    using dist by (metis append_take_drop_id distinct_append)
  moreover have "k \<in> set (drop ?n ?all)" using n by simp
  moreover have "dom (get s) = set (ord s)" using inv by (simp add: fifo_inv_def)
  ultimately have "set (drop ?n ?all) = dom (get (put k v s))" unfolding g by auto
  moreover have "length (drop ?n ?all) \<le> cap s" using n by simp
  ultimately show ?thesis using distinct_drop [OF dist, of ?n] n by (simp only: fifo_inv_def o put_cap simp_thms)
qed

text \<open>Below the cap nothing is lost; at the cap it is the oldest key that goes.\<close>

lemma put_room:
  "length (ord s) < cap s \<or> get s k \<noteq> None \<Longrightarrow> get (put k v s) = (get s)(k \<mapsto> v)"
  using put_old [of s k v] put_new [of s k v] by (cases "get s k") (auto simp: evict_eq restrict_map_def)

lemma put_full:
  assumes "fifo_inv (get s) (ord s) (cap s)" and "length (ord s) = cap s" and "get s k = None"
  shows "get (put k v s) = ((get s)(hd (ord s) := None))(k \<mapsto> v)" and "ord (put k v s) = tl (ord s) @ [k]"
proof -
  obtain x xs where x: "ord s = x # xs" using assms by (cases "ord s") (auto simp: fifo_inv_def)
  then show "get (put k v s) = ((get s)(hd (ord s) := None))(k \<mapsto> v)" "ord (put k v s) = tl (ord s) @ [k]"
    using put_new [OF assms(3), of v] assms(2) by (auto simp: evict_eq restrict_map_def fun_eq_iff)
qed

lemma length_put: "fifo_inv (get s) (ord s) (cap s) \<Longrightarrow> length (ord (put k v s)) \<le> Suc (length (ord s))"
  using put_old [of s k v] put_new [of s k v] by (cases "get s k") (auto simp: evict_eq)

end

end
