(* ===== verification/Regexp.thy ===== *)
theory Regexp
  imports Prelude
begin

text \<open>
  The part of Go's \<open>regexp\<close> the modelled sources use: byte classes, sequence, choice, greedy
  repetition and the ASCII word boundary. \<open>rx_ends r b i\<close> lists where a match of \<open>r\<close> that starts at
  offset \<open>i\<close> of \<open>b\<close> can end, in the order of preference of the leftmost-first rule, so its head
  is the match Go reports.
\<close>

datatype rx =
    Class "char list"
  | NotClass "char list"
  | Bound
  | Seq "rx list"
  | Alt "rx list"
  | Opt rx
  | Star rx

definition word_byte :: "char \<Rightarrow> bool" where
  "word_byte c \<longleftrightarrow> (48 \<le> bval c \<and> bval c \<le> 57) \<or> (65 \<le> bval c \<and> bval c \<le> 90)
     \<or> c = CHR ''_'' \<or> (97 \<le> bval c \<and> bval c \<le> 122)"

definition word_at :: "bytes \<Rightarrow> nat \<Rightarrow> bool" where
  "word_at b i \<longleftrightarrow> i < length b \<and> word_byte (b ! i)"

function rx_ends :: "rx \<Rightarrow> bytes \<Rightarrow> nat \<Rightarrow> nat list" where
  "rx_ends (Class cs) b i = (if i < length b \<and> b ! i \<in> set cs then [Suc i] else [])"
| "rx_ends (NotClass cs) b i = (if i < length b \<and> b ! i \<notin> set cs then [Suc i] else [])"
| "rx_ends Bound b i = (if (0 < i \<and> word_at b (i - 1)) \<noteq> word_at b i then [i] else [])"
| "rx_ends (Seq []) b i = [i]"
| "rx_ends (Seq (r # rs)) b i = concat (map (rx_ends (Seq rs) b) (rx_ends r b i))"
| "rx_ends (Alt rs) b i = concat (map (\<lambda>r. rx_ends r b i) rs)"
| "rx_ends (Opt r) b i = rx_ends r b i @ [i]"
| "rx_ends (Star r) b i =
     concat (map (\<lambda>j. if i < j \<and> j \<le> length b then rx_ends (Star r) b j else []) (rx_ends r b i)) @ [i]"
  by pat_completeness auto
termination
  by (relation "measures [\<lambda>(r, b, i). size r, \<lambda>(r, b, i). Suc (length b) - i]")
    (auto simp: size_list_estimation' less_Suc_eq_le)

declare rx_ends.simps(8) [simp del]

text \<open>The first match at or after \<open>i\<close>, and all matches from there, none overlapping.\<close>

function rx_find :: "rx \<Rightarrow> bytes \<Rightarrow> nat \<Rightarrow> (nat \<times> nat) option" where
  "rx_find r b i =
     (if i > length b then None
      else case rx_ends r b i of
        e # _ \<Rightarrow> Some (i, e)
      | [] \<Rightarrow> rx_find r b (Suc i))"
  by pat_completeness auto
termination
  by (relation "measure (\<lambda>(r, b, i). Suc (length b) - i)") auto

declare rx_find.simps [simp del]

function rx_all :: "rx \<Rightarrow> bytes \<Rightarrow> nat \<Rightarrow> (nat \<times> nat) list" where
  "rx_all r b i =
     (case rx_find r b i of
        None \<Rightarrow> []
      | Some (s, e) \<Rightarrow> if i < e \<and> e \<le> length b then (s, e) # rx_all r b e else [(s, e)])"
  by pat_completeness auto
termination
  by (relation "measure (\<lambda>(r, b, i). length b - i)") auto

declare rx_all.simps [simp del]

text \<open>A literal, and a literal under \<open>(?i)\<close>: the letter s also folds to U+017F.\<close>

definition rx_lit :: "bytes \<Rightarrow> rx" where
  "rx_lit s = Seq (map (\<lambda>c. Class [c]) s)"

definition upper :: "char \<Rightarrow> char" where
  "upper c = (if 97 \<le> bval c \<and> bval c \<le> 122 then char_of (bval c - 32) else c)"

definition rx_fold :: "char \<Rightarrow> rx" where
  "rx_fold c =
     (if c = CHR ''s'' then Alt [Class [c, upper c], Seq [Class [CHR 0xC5], Class [CHR 0xBF]]]
      else Class [c, upper c])"

definition rx_ilit :: "bytes \<Rightarrow> rx" where
  "rx_ilit s = Seq (map rx_fold s)"

definition rx_rep :: "nat \<Rightarrow> rx \<Rightarrow> rx" where
  "rx_rep n r = Seq (replicate n r)"

definition rx_plus :: "rx \<Rightarrow> rx" where
  "rx_plus r = Seq [r, Star r]"

text \<open>A range of bytes and \<open>\s\<close>.\<close>

definition byte_range :: "char \<Rightarrow> char \<Rightarrow> char list" where
  "byte_range lo hi = map char_of [bval lo..<Suc (bval hi)]"

definition rx_space :: rx where
  "rx_space = Class [CHR 0x09, CHR 0x0A, CHR 0x0C, CHR 0x0D, CHR '' '']"

section \<open>Matches stay inside the input\<close>

lemma rx_ends_bounds [scan_bounds]:
  "e \<in> set (rx_ends r b i) \<Longrightarrow> i \<le> length b \<Longrightarrow> i \<le> e \<and> e \<le> length b"
proof (induction r b i arbitrary: e rule: rx_ends.induct)
  case (5 r rs b i)
  then obtain j where j: "j \<in> set (rx_ends r b i)" "e \<in> set (rx_ends (Seq rs) b j)" by auto
  have "i \<le> j \<and> j \<le> length b" using "5.IH"(1) [OF j(1) "5.prems"(2)] .
  then show ?case using "5.IH"(2) [OF j] by simp
next
  case (6 rs b i)
  then show ?case by auto
next
  case (8 r b i)
  from "8.prems"(1) consider "e = i" | j where "j \<in> set (rx_ends r b i)" "i < j" "j \<le> length b" "e \<in> set (rx_ends (Star r) b j)"
    by (auto simp: rx_ends.simps(8) [of r b i] split: if_splits)
  then show ?case
  proof cases
    case 2
    then show ?thesis using "8.IH"(2) [OF 2(1) _ 2(4)] by simp
  qed (use "8.prems" in simp)
qed (auto split: if_splits)

lemma rx_find_bounds:
  "rx_find r b i = Some (s, e) \<Longrightarrow> i \<le> s \<and> s \<le> e \<and> e \<le> length b \<and> e \<in> set (rx_ends r b s)"
proof (induction r b i rule: rx_find.induct)
  case (1 r b i)
  have i: "i \<le> length b" using "1.prems" by (subst (asm) rx_find.simps) (auto split: if_splits)
  show ?case
  proof (cases "rx_ends r b i")
    case Nil
    then have "rx_find r b (Suc i) = Some (s, e)"
      using "1.prems" i by (subst (asm) rx_find.simps) simp
    with "1.IH" [OF _ Nil] i show ?thesis by simp
  next
    case (Cons e' es)
    then have "s = i" "e = e'" using "1.prems" i by (subst (asm) rx_find.simps, simp)+
    then show ?thesis using rx_ends_bounds [of e' r b i] Cons i by simp
  qed
qed

text \<open>The matches are in order and do not overlap.\<close>

lemma rx_all_bounds:
  "(s, e) \<in> set (rx_all r b i) \<Longrightarrow> i \<le> s \<and> s \<le> e \<and> e \<le> length b"
proof (induction r b i rule: rx_all.induct)
  case (1 r b i)
  then obtain s' e' where f: "rx_find r b i = Some (s', e')"
    by (cases "rx_find r b i") (auto simp: rx_all.simps [of r b i])
  have bd: "i \<le> s'" "s' \<le> e'" "e' \<le> length b" using rx_find_bounds [OF f] by auto
  show ?case
  proof (cases "i < e' \<and> e' \<le> length b")
    case True
    then have "(s, e) = (s', e') \<or> (s, e) \<in> set (rx_all r b e')"
      using "1.prems" f by (subst (asm) rx_all.simps) simp
    then show ?thesis using "1.IH" [OF f refl True] bd True by auto
  next
    case False
    then have "(s, e) = (s', e')" using "1.prems" f by (subst (asm) rx_all.simps) auto
    then show ?thesis using bd by simp
  qed
qed

lemma rx_all_sorted: "sorted (map fst (rx_all r b i))"
proof (induction r b i rule: rx_all.induct)
  case (1 r b i)
  show ?case
  proof (cases "rx_find r b i")
    case None
    then show ?thesis by (subst rx_all.simps) simp
  next
    case (Some se)
    then obtain s e where f: "rx_find r b i = Some (s, e)" by (cases se) auto
    show ?thesis
    proof (cases "i < e \<and> e \<le> length b")
      case True
      have "\<forall>x \<in> set (rx_all r b e). s \<le> fst x"
        using rx_all_bounds rx_find_bounds [OF f] by (metis order_trans prod.collapse)
      then show ?thesis using "1.IH" [OF f refl True] f True by (subst rx_all.simps) auto
    next
      case False
      then show ?thesis using f by (subst rx_all.simps) auto
    qed
  qed
qed

end
