(* ===== verification/Cache_Guard.thy ===== *)
theory Cache_Guard
  imports Fifo_Map Json_Std Regexp "HOL-Library.Product_Lexorder"
begin

text \<open>
  The cache guard (shared/platform/cacheguard/cacheguard.go): it remembers the digest of the
  stable prefix of each epoch and warns when the prefix of a later request differs, when the
  boundary or the adapter is unknown, or when the prefix holds volatile text. The SHA-256 sum is
  the parameter \<open>sum256\<close> of the operations; a nil guard is \<open>None\<close>.
\<close>

section \<open>Digests in hex\<close>

fun hex_encode :: "bytes \<Rightarrow> bytes" where
  "hex_encode [] = []"
| "hex_encode (c # s) = hex_digit (bval c div 16) # hex_digit (bval c mod 16) # hex_encode s"

fun hex_decode :: "bytes \<Rightarrow> bytes option" where
  "hex_decode [] = Some []"
| "hex_decode [c] = None"
| "hex_decode (a # b # s) =
     (case (hex_val a, hex_val b, hex_decode s) of
        (Some h, Some l, Some t) \<Rightarrow> Some (char_of (16 * h + l) # t)
      | _ \<Rightarrow> None)"

lemma hex_roundtrip: "hex_decode (hex_encode s) = Some s"
proof (induction s)
  case (Cons c s)
  have "bval c div 16 < 16" using bval_less_256 [of c] by linarith
  moreover have "16 * (bval c div 16) + bval c mod 16 = bval c" by simp
  ultimately show ?case using Cons by (simp add: hex_val_digit)
qed simp

section \<open>Data\<close>

datatype Warning =
    WarningMissingBoundary
  | WarningPrefixDrift
  | WarningVolatileStableSlot
  | WarningAdapterAmbiguity

datatype Decision = DecisionTransformLiveOnly | DecisionPassThrough | DecisionNewEpoch

record VolatileMatch =
  Kind :: bytes
  Offset :: nat

record GuardInput =
  EpochID :: bytes
  Prefix :: bytes
  PrefixSHA256 :: bytes
  BoundaryKnown :: bool
  AdapterKnown :: bool

record GuardResult =
  res_EpochID :: bytes
  res_PrefixSHA256 :: bytes
  Warnings :: "Warning list"
  Volatile :: "VolatileMatch list"
  res_Decision :: Decision

datatype guard_error = NilGuard | EmptyEpochID | PrefixAndDigest | InvalidPrefixSHA256

record Guard =
  epochs :: "bytes \<rightharpoonup> bytes"
  epoch_order :: "bytes list"
  epoch_cap :: nat

definition defaultEpochCap :: nat where
  "defaultEpochCap = 8192"

definition guard_New :: Guard where
  "guard_New = \<lparr>epochs = Map.empty, epoch_order = [], epoch_cap = defaultEpochCap\<rparr>"

definition putEpoch :: "bytes \<Rightarrow> bytes \<Rightarrow> Guard \<Rightarrow> Guard" where
  "putEpoch epochID s g =
     (if epochs g epochID = None then
        (case evict (epoch_cap g) (epoch_order g @ [epochID]) (epochs g) of
           (ord, m) \<Rightarrow> g\<lparr>epochs := m(epochID \<mapsto> s), epoch_order := ord\<rparr>)
      else g\<lparr>epochs := (epochs g)(epochID \<mapsto> s)\<rparr>)"

interpretation cg: fifo_store epochs epoch_order epoch_cap putEpoch
  by unfold_locales (auto simp: putEpoch_def split: prod.splits)

section \<open>Volatile text\<close>

abbreviation digits09 :: rx where
  "digits09 \<equiv> Class (byte_range (CHR ''0'') (CHR ''9''))"

abbreviation hex_i :: rx where
  "hex_i \<equiv> Class (byte_range (CHR ''0'') (CHR ''9'') @ byte_range (CHR ''a'') (CHR ''f'')
    @ byte_range (CHR ''A'') (CHR ''F''))"

abbreviation quote_class :: rx where
  "quote_class \<equiv> Class [CHR 0x22, CHR 0x27]"

abbreviation range_class :: "char \<Rightarrow> char \<Rightarrow> rx" where
  "range_class lo hi \<equiv> Class (byte_range lo hi)"

definition iso_timestamp_re :: rx where
  "iso_timestamp_re =
     Seq [Bound, rx_lit ''20'', rx_rep 2 digits09, rx_lit ''-'', range_class (CHR ''0'') (CHR ''1''), digits09,
       rx_lit ''-'', range_class (CHR ''0'') (CHR ''3''), digits09, Class [CHR ''T'', CHR '' ''],
       range_class (CHR ''0'') (CHR ''2''), digits09, rx_lit '':'', range_class (CHR ''0'') (CHR ''5''), digits09,
       Opt (Seq [rx_lit '':'', range_class (CHR ''0'') (CHR ''6''), digits09,
         Opt (Seq [rx_lit ''.'', rx_plus digits09])]),
       Opt (Alt [rx_lit ''Z'', Seq [Class [CHR ''+'', CHR ''-''], range_class (CHR ''0'') (CHR ''2''), digits09,
         Opt (rx_lit '':''), range_class (CHR ''0'') (CHR ''5''), digits09]]),
       Bound]"

definition uuid_re :: rx where
  "uuid_re =
     Seq [Bound, rx_rep 8 hex_i, rx_lit ''-'', rx_rep 4 hex_i, rx_lit ''-'',
       range_class (CHR ''1'') (CHR ''8''), rx_rep 3 hex_i, rx_lit ''-'',
       Class [CHR ''8'', CHR ''9'', CHR ''a'', CHR ''b'', CHR ''A'', CHR ''B''], rx_rep 3 hex_i, rx_lit ''-'',
       rx_rep 12 hex_i, Bound]"

definition dynamic_id_key_re :: rx where
  "dynamic_id_key_re =
     Seq [quote_class, Alt [rx_ilit ''run'', rx_ilit ''request'', rx_ilit ''build'', rx_ilit ''trace'', rx_ilit ''span''],
       Opt (Class [CHR ''_'', CHR ''-'']), rx_ilit ''id'', quote_class, Star rx_space, rx_lit '':'']"

definition nonce_key_re :: rx where
  "nonce_key_re = Seq [quote_class, rx_ilit ''nonce'', quote_class, Star rx_space, rx_lit '':'']"

definition volatilePatterns :: "(bytes \<times> rx) list" where
  "volatilePatterns =
     [(''iso_timestamp'', iso_timestamp_re), (''uuid'', uuid_re), (''dynamic_id_key'', dynamic_id_key_re),
      (''nonce_key'', nonce_key_re)]"

definition DetectVolatile :: "bytes \<Rightarrow> VolatileMatch list" where
  "DetectVolatile p =
     sort_key (\<lambda>m. (Offset m, Kind m))
       (concat (map (\<lambda>(kind, re). map (\<lambda>(s, e). \<lparr>Kind = kind, Offset = s\<rparr>) (rx_all re p 0)) volatilePatterns))"

section \<open>Inspection\<close>

definition inspect_sum :: "(bytes \<Rightarrow> bytes) \<Rightarrow> GuardInput \<Rightarrow> guard_error + bytes" where
  "inspect_sum sum256 inp =
     (if PrefixSHA256 inp \<noteq> [] then
        (if Prefix inp \<noteq> [] then Inl PrefixAndDigest
         else (case hex_decode (PrefixSHA256 inp) of
            None \<Rightarrow> Inl InvalidPrefixSHA256
          | Some decoded \<Rightarrow>
              if length decoded \<noteq> 32 \<or> hex_encode decoded \<noteq> PrefixSHA256 inp then Inl InvalidPrefixSHA256
              else Inr decoded))
      else Inr (sum256 (Prefix inp)))"

definition Inspect :: "(bytes \<Rightarrow> bytes) \<Rightarrow> Guard option \<Rightarrow> GuardInput \<Rightarrow>
    (guard_error + GuardResult) \<times> Guard option" where
  "Inspect sum256 g inp =
     (case g of
        None \<Rightarrow> (Inl NilGuard, None)
      | Some g1 \<Rightarrow>
          if EpochID inp = [] then (Inl EmptyEpochID, g)
          else (case inspect_sum sum256 inp of
             Inl e \<Rightarrow> (Inl e, g)
           | Inr s \<Rightarrow>
               let vol = (if PrefixSHA256 inp = [] then DetectVolatile (Prefix inp) else []);
                   prev = epochs g1 (EpochID inp);
                   ws = (if BoundaryKnown inp then [] else [WarningMissingBoundary])
                     @ (if AdapterKnown inp then [] else [WarningAdapterAmbiguity])
                     @ (if vol \<noteq> [] then [WarningVolatileStableSlot] else [])
                     @ (if prev \<noteq> None \<and> prev \<noteq> Some s then [WarningPrefixDrift] else [])
               in (Inr \<lparr>res_EpochID = EpochID inp, res_PrefixSHA256 = hex_encode s, Warnings = ws, Volatile = vol,
                        res_Decision = (if ws \<noteq> [] then DecisionPassThrough else DecisionTransformLiveOnly)\<rparr>,
                   Some (if prev = None then putEpoch (EpochID inp) s g1 else g1))))"

definition StartNewEpoch :: "(bytes \<Rightarrow> bytes) \<Rightarrow> Guard option \<Rightarrow> bytes \<Rightarrow> bytes \<Rightarrow>
    (guard_error + GuardResult) \<times> Guard option" where
  "StartNewEpoch sum256 g epochID p =
     (case g of
        None \<Rightarrow> (Inl NilGuard, None)
      | Some g1 \<Rightarrow>
          if epochID = [] then (Inl EmptyEpochID, g)
          else
            (Inr \<lparr>res_EpochID = epochID, res_PrefixSHA256 = hex_encode (sum256 p), Warnings = [],
                  Volatile = DetectVolatile p, res_Decision = DecisionNewEpoch\<rparr>,
             Some (putEpoch epochID (sum256 p) g1)))"

section \<open>Histories of a guard\<close>

text \<open>
  A guard is used by a sequence of calls. What a call submits is the digest it carries for its
  epoch, nothing when it fails.
\<close>

datatype guard_op = DoInspect GuardInput | DoNewEpoch bytes bytes

fun guard_apply :: "(bytes \<Rightarrow> bytes) \<Rightarrow> guard_op \<Rightarrow> Guard option \<Rightarrow> Guard option" where
  "guard_apply h (DoInspect inp) g = snd (Inspect h g inp)"
| "guard_apply h (DoNewEpoch e p) g = snd (StartNewEpoch h g e p)"

definition guard_run :: "(bytes \<Rightarrow> bytes) \<Rightarrow> guard_op list \<Rightarrow> Guard option" where
  "guard_run h ops = fold (guard_apply h) ops (Some guard_New)"

fun submitted :: "(bytes \<Rightarrow> bytes) \<Rightarrow> guard_op \<Rightarrow> (bytes \<times> bytes) option" where
  "submitted h (DoInspect inp) =
     (if EpochID inp = [] then None
      else case inspect_sum h inp of Inl _ \<Rightarrow> None | Inr s \<Rightarrow> Some (EpochID inp, s))"
| "submitted h (DoNewEpoch e p) = (if e = [] then None else Some (e, h p))"

lemma guard_run_Nil [simp]: "guard_run h [] = Some guard_New"
  by (simp add: guard_run_def)

lemma guard_run_snoc [simp]: "guard_run h (ops @ [op]) = guard_apply h op (guard_run h ops)"
  by (simp add: guard_run_def)

lemma guard_apply_put:
  "guard_apply h op (Some g) =
     (case submitted h op of
        None \<Rightarrow> Some g
      | Some (e, s) \<Rightarrow>
          if (case op of DoInspect _ \<Rightarrow> epochs g e \<noteq> None | _ \<Rightarrow> False) then Some g else Some (putEpoch e s g))"
  by (cases op) (auto simp: Inspect_def StartNewEpoch_def Let_def split: sum.splits if_splits)

text \<open>Every call either leaves the guard alone or puts what it submits.\<close>

lemma guard_apply_cases:
  obtains "guard_apply h op (Some g) = Some g"
  | e s where "submitted h op = Some (e, s)" "guard_apply h op (Some g) = Some (putEpoch e s g)"
proof (cases "submitted h op")
  case None
  then show ?thesis using that(1) by (simp add: guard_apply_put)
next
  case (Some es)
  then obtain e s where es: "submitted h op = Some (e, s)" by (cases es) auto
  show ?thesis
  proof (cases "case op of DoInspect _ \<Rightarrow> epochs g e \<noteq> None | _ \<Rightarrow> False")
    case True
    then show ?thesis using that(1) by (simp add: guard_apply_put es)
  next
    case False
    then show ?thesis using that(2) [OF es] by (simp add: guard_apply_put es)
  qed
qed

definition guard_ok :: "Guard \<Rightarrow> bool" where
  "guard_ok g \<longleftrightarrow> fifo_inv (epochs g) (epoch_order g) (epoch_cap g) \<and> epoch_cap g = defaultEpochCap"

lemma putEpoch_ok: "guard_ok g \<Longrightarrow> guard_ok (putEpoch e s g)"
  using cg.put_inv [of g e s] by (auto simp: guard_ok_def cg.put_cap)

lemma guard_run_ok: "\<exists>g. guard_run h ops = Some g \<and> guard_ok g"
proof (induction ops rule: rev_induct)
  case Nil
  then show ?case by (simp add: guard_New_def guard_ok_def fifo_inv_def defaultEpochCap_def)
next
  case (snoc op ops)
  then obtain g where g: "guard_run h ops = Some g" "guard_ok g" by blast
  show ?case
    by (rule guard_apply_cases [of h op g]) (use g putEpoch_ok in auto)
qed

lemma guard_remembers:
  "guard_run h ops = Some g \<Longrightarrow> epochs g k = Some s \<Longrightarrow> \<exists>op \<in> set ops. submitted h op = Some (k, s)"
proof (induction ops arbitrary: g rule: rev_induct)
  case Nil
  then show ?case by (auto simp: guard_New_def)
next
  case (snoc op ops)
  obtain g0 where g0: "guard_run h ops = Some g0" using guard_run_ok by blast
  show ?case
  proof (rule guard_apply_cases [of h op g0])
    assume "guard_apply h op (Some g0) = Some g0"
    then show ?thesis using snoc g0 by auto
  next
    fix e s'
    assume sub: "submitted h op = Some (e, s')" and a: "guard_apply h op (Some g0) = Some (putEpoch e s' g0)"
    then have g: "g = putEpoch e s' g0" using snoc.prems(1) g0 by simp
    show ?thesis
    proof (cases "k = e")
      case True
      then show ?thesis using sub snoc.prems(2) g by auto
    next
      case False
      then have "epochs g0 k = Some s" using cg.get_put_other [of k e s' g0] snoc.prems(2) g by auto
      then show ?thesis using snoc.IH [OF g0] by auto
    qed
  qed
qed

lemma Inspect_drift:
  assumes "Inspect h (Some g) inp = (Inr r, g')"
  shows "WarningPrefixDrift \<in> set (Warnings r) \<longleftrightarrow>
    (\<exists>s prev. inspect_sum h inp = Inr s \<and> epochs g (EpochID inp) = Some prev \<and> prev \<noteq> s)"
  using assms by (auto simp: Inspect_def Let_def split: if_splits sum.splits)

text \<open>
  The specification: without a bound, an epoch keeps the first digest inspected for it until a new
  epoch is started.
\<close>

fun epoch_spec :: "(bytes \<Rightarrow> bytes) \<Rightarrow> guard_op \<Rightarrow> (bytes \<rightharpoonup> bytes) \<Rightarrow> (bytes \<rightharpoonup> bytes)" where
  "epoch_spec h (DoInspect inp) m =
     (case submitted h (DoInspect inp) of
        None \<Rightarrow> m
      | Some (e, s) \<Rightarrow> if m e = None then m(e \<mapsto> s) else m)"
| "epoch_spec h (DoNewEpoch e p) m = (if e = [] then m else m(e \<mapsto> h p))"

definition epochs_used :: "(bytes \<Rightarrow> bytes) \<Rightarrow> guard_op list \<Rightarrow> bytes set" where
  "epochs_used h ops = {e. \<exists>op \<in> set ops. \<exists>s. submitted h op = Some (e, s)}"

lemma epochs_used_snoc:
  "epochs_used h (ops @ [op]) =
     epochs_used h ops \<union> (case submitted h op of None \<Rightarrow> {} | Some (e, s) \<Rightarrow> {e})"
  by (auto simp: epochs_used_def split: option.splits)

lemma finite_epochs_used [simp]: "finite (epochs_used h ops)"
proof (induction ops rule: rev_induct)
  case (snoc op ops)
  have "finite (case submitted h op of None \<Rightarrow> {} | Some (e, s) \<Rightarrow> {e})"
  proof (cases "submitted h op")
    case (Some es)
    then show ?thesis by (cases es) simp
  qed simp
  with snoc show ?case by (simp only: epochs_used_snoc finite_Un)
qed (simp add: epochs_used_def)

lemma epoch_spec_put:
  "epoch_spec h op m =
     (case submitted h op of
        None \<Rightarrow> m
      | Some (e, s) \<Rightarrow>
          if (case op of DoInspect _ \<Rightarrow> m e \<noteq> None | _ \<Rightarrow> False) then m else m(e \<mapsto> s))"
  by (cases op) (auto split: option.splits sum.splits)

lemma guard_refines:
  assumes "card (epochs_used h ops) \<le> defaultEpochCap"
  shows "\<exists>g. guard_run h ops = Some g \<and> epochs g = fold (epoch_spec h) ops Map.empty
    \<and> dom (epochs g) \<subseteq> epochs_used h ops"
  using assms
proof (induction ops rule: rev_induct)
  case Nil
  then show ?case by (simp add: guard_New_def)
next
  case (snoc op ops)
  have "card (epochs_used h ops) \<le> card (epochs_used h (ops @ [op]))"
    by (rule card_mono [OF finite_epochs_used]) (auto simp: epochs_used_snoc)
  then obtain g where g: "guard_run h ops = Some g" "epochs g = fold (epoch_spec h) ops Map.empty"
      "dom (epochs g) \<subseteq> epochs_used h ops"
    using snoc by auto
  have ok: "guard_ok g" using guard_run_ok [of h ops] g(1) by auto
  show ?case
  proof (cases "submitted h op")
    case None
    then show ?thesis using g by (simp add: guard_apply_put epoch_spec_put [of h op] epochs_used_snoc)
  next
    case (Some es)
    then obtain e s where es: "submitted h op = Some (e, s)" by (cases es) auto
    have "length (epoch_order g) < epoch_cap g \<or> epochs g e \<noteq> None"
    proof (rule disjCI)
      assume "\<not> epochs g e \<noteq> None"
      then have "e \<notin> dom (epochs g)" by auto
      moreover have "insert e (dom (epochs g)) \<subseteq> epochs_used h (ops @ [op])"
        using g(3) es by (auto simp: epochs_used_snoc)
      then have "card (insert e (dom (epochs g))) \<le> defaultEpochCap"
        using snoc.prems card_mono [OF finite_epochs_used] by (meson order_trans)
      moreover have "finite (dom (epochs g))" "card (dom (epochs g)) = length (epoch_order g)"
        using ok distinct_card [of "epoch_order g"] finite_set [of "epoch_order g"]
        by (simp_all add: guard_ok_def fifo_inv_def)
      ultimately show "length (epoch_order g) < epoch_cap g" using ok by (auto simp: guard_ok_def)
    qed
    then have put: "epochs (putEpoch e s g) = (epochs g)(e \<mapsto> s)" by (rule cg.put_room)
    have dom': "dom ((epochs g)(e \<mapsto> s)) \<subseteq> epochs_used h (ops @ [op])"
      using g(3) es by (auto simp: epochs_used_snoc)
    then have "dom (epochs g) \<subseteq> epochs_used h (ops @ [op])" by auto
    then show ?thesis using g(1) dom'
      by (simp add: guard_apply_put epoch_spec_put [of h op] es g(2) [symmetric] put fun_upd_def)
  qed
qed

end
