(* ===== verification/Prefix_Store.thy ===== *)
theory Prefix_Store
  imports Cache_Guard
begin

text \<open>
  The replacement cache (proxy/internal/store/prefix_cache.go), the table behind the gateway's
  \<open>PrefixCache\<close> interface (proxy/internal/gateway/server.go). The table is the list of its rows,
  one per key. A statement can fail: \<open>db\<close> says which of a call's statements succeed, in the order
  the code issues them. Time enters as the formatted stamps the code compares as strings: \<open>now\<close>,
  and \<open>stale\<close> for the touch interval before it.
\<close>

record replacement_row =
  original_sha256 :: bytes
  row_handle :: bytes
  row_replacement :: bytes
  created_at :: bytes
  last_used_at :: bytes

record prefix_store =
  prefix_rows :: "replacement_row list"
  prefixWrites :: nat

definition RawDecisionHandle :: bytes where
  "RawDecisionHandle = ''raw''"

definition RawPinHandle :: bytes where
  "RawPinHandle = ''rawpin''"

definition PixelHandle :: bytes where
  "PixelHandle = ''pixel''"

definition prefixCacheMaxEntries :: nat where
  "prefixCacheMaxEntries = 100000"

definition prefixCachePixelMaxEntries :: nat where
  "prefixCachePixelMaxEntries = 4096"

definition prefixCacheEvictEvery :: nat where
  "prefixCacheEvictEvery = 256"

definition find_row :: "bytes \<Rightarrow> replacement_row list \<Rightarrow> replacement_row option" where
  "find_row key rows = find (\<lambda>r. original_sha256 r = key) rows"

definition prefixCacheKey :: "(bytes \<Rightarrow> bytes) \<Rightarrow> bytes \<Rightarrow> bytes \<Rightarrow> bytes" where
  "prefixCacheKey sum256 scope original = hex_encode (sum256 (scope @ [CHR 0x00] @ original))"

text \<open>
  A row as it is returned: the replacement (\<open>None\<close> for nil), the handle and its last use. A failed
  query and an incomplete row are misses.
\<close>

definition readReplacement :: "bool \<Rightarrow> prefix_store \<Rightarrow> bytes \<Rightarrow> (bytes option \<times> bytes \<times> bytes) option" where
  "readReplacement query_ok s key =
     (if \<not> query_ok then None
      else case find_row key (prefix_rows s) of
        None \<Rightarrow> None
      | Some r \<Rightarrow>
          if row_handle r = RawDecisionHandle \<and> row_replacement r = [] then Some (None, row_handle r, last_used_at r)
          else if row_handle r = [] \<or> row_replacement r = [] then None
          else Some (Some (row_replacement r), row_handle r, last_used_at r))"

definition touch_row :: "bytes \<Rightarrow> bytes \<Rightarrow> prefix_store \<Rightarrow> prefix_store" where
  "touch_row now key s =
     s\<lparr>prefix_rows := map (\<lambda>r. if original_sha256 r = key then r\<lparr>last_used_at := now\<rparr> else r) (prefix_rows s)\<rparr>"

definition LookupReplacement :: "(bytes \<Rightarrow> bytes) \<Rightarrow> bool \<times> bool \<Rightarrow> bytes \<Rightarrow> bytes \<Rightarrow> prefix_store \<Rightarrow> bytes \<Rightarrow> bytes \<Rightarrow>
    (bytes option \<times> bytes) option \<times> prefix_store" where
  "LookupReplacement sum256 db now stale s scope original =
     (let key = prefixCacheKey sum256 scope original in
      case readReplacement (fst db) s key of
        None \<Rightarrow> (None, s)
      | Some (replacement, handle, lastUsed) \<Rightarrow>
          (Some (replacement, handle), if lastUsed < stale \<and> snd db then touch_row now key s else s))"

text \<open>\<open>DELETE ... ORDER BY last_used_at, original_sha256 LIMIT max(0, count - cap)\<close> on the rows of \<open>P\<close>.\<close>

definition evicted_rows :: "(replacement_row \<Rightarrow> bool) \<Rightarrow> nat \<Rightarrow> replacement_row list \<Rightarrow> replacement_row list" where
  "evicted_rows P cap rows =
     (let c = filter P rows in
      take (length c - cap) (sort_key (\<lambda>r. (last_used_at r, original_sha256 r)) c))"

definition delete_oldest :: "(replacement_row \<Rightarrow> bool) \<Rightarrow> nat \<Rightarrow> replacement_row list \<Rightarrow> replacement_row list" where
  "delete_oldest P cap rows =
     (let gone = set (map original_sha256 (evicted_rows P cap rows)) in
      filter (\<lambda>r. original_sha256 r \<notin> gone) rows)"

definition evictPrefixReplacements :: "bool \<times> bool \<Rightarrow> prefix_store \<Rightarrow> prefix_store" where
  "evictPrefixReplacements db s =
     (let n = prefixWrites s; s1 = s\<lparr>prefixWrites := n + 1\<rparr> in
      if n mod prefixCacheEvictEvery \<noteq> 0 then s1
      else
        let rows = prefix_rows s1;
            rows1 = (if fst db then delete_oldest (\<lambda>r. row_handle r \<noteq> RawPinHandle) prefixCacheMaxEntries rows else rows);
            rows2 = (if snd db then delete_oldest (\<lambda>r. row_handle r = PixelHandle) prefixCachePixelMaxEntries rows1
                     else rows1)
        in s1\<lparr>prefix_rows := rows2\<rparr>)"

datatype replacement_error = IncompleteEntry | PutFailed | UnreadableAfterWrite

definition upsert_row :: "bytes \<Rightarrow> bytes \<Rightarrow> bytes \<Rightarrow> bytes \<Rightarrow> prefix_store \<Rightarrow> prefix_store" where
  "upsert_row key handle replacement now s =
     (if find_row key (prefix_rows s) = None then
        s\<lparr>prefix_rows := prefix_rows s @ [\<lparr>original_sha256 = key, row_handle = handle,
            row_replacement = replacement, created_at = now, last_used_at = now\<rparr>]\<rparr>
      else touch_row now key s)"

definition RememberReplacement :: "(bytes \<Rightarrow> bytes) \<Rightarrow> bool \<times> bool \<times> bool \<times> bool \<Rightarrow> bytes \<Rightarrow> prefix_store \<Rightarrow>
    bytes \<Rightarrow> bytes \<Rightarrow> bytes option \<Rightarrow> bytes \<Rightarrow> (replacement_error + bytes option) \<times> prefix_store" where
  "RememberReplacement sum256 db now s scope original replacement handle =
     (case db of (put_ok, read_ok, evict_ok) \<Rightarrow>
      let bs = (case replacement of None \<Rightarrow> [] | Some r \<Rightarrow> r);
          raw = (handle = RawDecisionHandle \<and> bs = [])
      in if scope = [] \<or> original = [] \<or> (bs = [] \<and> \<not> raw) \<or> handle = [] then (Inl IncompleteEntry, s)
         else
           let key = prefixCacheKey sum256 scope original in
           if \<not> put_ok then (Inl PutFailed, s)
           else
             let s1 = upsert_row key handle bs now s in
             case readReplacement read_ok s1 key of
               None \<Rightarrow> (Inl UnreadableAfterWrite, s1)
             | Some (stored, _, _) \<Rightarrow> (Inr stored, evictPrefixReplacements evict_ok s1))"

section \<open>What the table promises\<close>

definition store_ok :: "prefix_store \<Rightarrow> bool" where
  "store_ok s \<longleftrightarrow> distinct (map original_sha256 (prefix_rows s))"

text \<open>The abstract table: the handle and the replacement under each key.\<close>

definition stored :: "prefix_store \<Rightarrow> bytes \<Rightarrow> (bytes \<times> bytes) option" where
  "stored s key = map_option (\<lambda>r. (row_handle r, row_replacement r)) (find_row key (prefix_rows s))"

lemma find_row_Nil [simp]: "find_row key [] = None"
  by (simp add: find_row_def)

lemma find_row_Cons [simp]: "find_row key (r # rows) = (if original_sha256 r = key then Some r else find_row key rows)"
  by (simp add: find_row_def)

lemma find_row_None: "find_row key rows = None \<longleftrightarrow> key \<notin> original_sha256 ` set rows"
  by (induction rows) auto

lemma find_row_Some: "find_row key rows = Some r \<Longrightarrow> r \<in> set rows \<and> original_sha256 r = key"
  by (induction rows) (auto split: if_splits)

lemma find_row_distinct:
  "distinct (map original_sha256 rows) \<Longrightarrow> r \<in> set rows \<Longrightarrow> find_row (original_sha256 r) rows = Some r"
  by (induction rows) (auto simp: image_iff)

lemma find_row_append: "find_row key (xs @ ys) = (case find_row key xs of None \<Rightarrow> find_row key ys | Some r \<Rightarrow> Some r)"
  by (induction xs) auto

lemma find_row_filter:
  "find_row key (filter (\<lambda>r. original_sha256 r \<notin> gone) rows) = (if key \<in> gone then None else find_row key rows)"
  by (induction rows) auto

lemma find_row_touch:
  "find_row k (map (\<lambda>r. if original_sha256 r = key then r\<lparr>last_used_at := now\<rparr> else r) rows) =
     map_option (\<lambda>r. if original_sha256 r = key then r\<lparr>last_used_at := now\<rparr> else r) (find_row k rows)"
  by (induction rows) auto

lemma stored_touch [simp]: "stored (touch_row now key s) = stored s"
  by (auto simp: stored_def touch_row_def find_row_touch option.map_comp comp_def fun_eq_iff
      intro!: option.map_cong)

lemma touch_ok [simp]: "store_ok (touch_row now key s) = store_ok s"
proof -
  have "map original_sha256 (map (\<lambda>r. if original_sha256 r = key then r\<lparr>last_used_at := now\<rparr> else r) (prefix_rows s)) =
      map original_sha256 (prefix_rows s)" by simp
  then show ?thesis by (simp add: store_ok_def touch_row_def del: map_map)
qed

lemma stored_upsert:
  "stored (upsert_row key handle b now s) =
     (if stored s key = None then (stored s)(key \<mapsto> (handle, b)) else stored s)"
proof (cases "find_row key (prefix_rows s)")
  case None
  then have "stored s key = None" by (simp add: stored_def)
  with None show ?thesis
    by (auto simp: upsert_row_def stored_def find_row_append fun_eq_iff split: option.splits)
next
  case (Some r)
  then have "stored s key \<noteq> None" by (simp add: stored_def)
  with Some show ?thesis by (auto simp: upsert_row_def)
qed

lemma upsert_ok: "store_ok s \<Longrightarrow> store_ok (upsert_row key handle b now s)"
  by (auto simp: upsert_row_def find_row_None image_iff store_ok_def [of "s\<lparr>prefix_rows := x\<rparr>" for x])
    (auto simp: store_ok_def)

section \<open>Eviction\<close>

lemma evicted_rows_P: "r \<in> set (evicted_rows P cap rows) \<Longrightarrow> r \<in> set rows \<and> P r"
  by (auto simp: evicted_rows_def Let_def dest!: in_set_takeD)

lemma delete_oldest_keeps:
  assumes "distinct (map original_sha256 rows)" and "find_row key rows = Some r" and "\<not> P r"
  shows "find_row key (delete_oldest P cap rows) = Some r"
proof -
  have "key \<notin> original_sha256 ` set (evicted_rows P cap rows)"
  proof
    assume "key \<in> original_sha256 ` set (evicted_rows P cap rows)"
    then obtain r' where r': "r' \<in> set rows" "P r'" "original_sha256 r' = key" using evicted_rows_P by blast
    then have "find_row key rows = Some r'" using find_row_distinct [OF assms(1)] by blast
    then show False using assms r' by simp
  qed
  then show ?thesis using assms(2) by (simp add: delete_oldest_def Let_def find_row_filter)
qed

lemma delete_oldest_some: "find_row key (delete_oldest P cap rows) \<in> {None, find_row key rows}"
  by (simp add: delete_oldest_def Let_def find_row_filter)

lemma distinct_delete: "distinct (map original_sha256 rows) \<Longrightarrow> distinct (map original_sha256 (delete_oldest P cap rows))"
  by (simp add: delete_oldest_def Let_def distinct_map_filter)

text \<open>The rows counted by a cap stay within it, and the rows that go are the least recently used.\<close>

lemma filter_gone:
  assumes "distinct (map original_sha256 rows)"
  shows "filter P (delete_oldest P cap rows) = filter (\<lambda>r. r \<notin> set (evicted_rows P cap rows)) (filter P rows)"
proof -
  let ?e = "evicted_rows P cap rows"
  have "inj_on original_sha256 (set rows)" using assms by (simp add: distinct_map)
  moreover have "set ?e \<subseteq> set rows" using evicted_rows_P by blast
  ultimately have "r \<in> set rows \<Longrightarrow> original_sha256 r \<in> original_sha256 ` set ?e \<longleftrightarrow> r \<in> set ?e" for r
    by (meson inj_on_image_mem_iff)
  then show ?thesis
    unfolding delete_oldest_def Let_def filter_filter set_map by (intro filter_cong) auto
qed

lemma delete_oldest_bound:
  assumes "distinct (map original_sha256 rows)"
  shows "length (filter P (delete_oldest P cap rows)) \<le> cap"
proof -
  let ?c = "filter P rows" and ?e = "evicted_rows P cap rows"
  let ?s = "sort_key (\<lambda>r. (last_used_at r, original_sha256 r)) ?c"
  have d: "distinct ?c" using assms by (simp add: distinct_map)
  then have ds: "distinct ?s" by simp
  have "set (filter (\<lambda>r. r \<notin> set ?e) ?c) = set ?s - set ?e" by auto
  also have "\<dots> = set (drop (length ?c - cap) ?s)"
    by (simp add: evicted_rows_def Let_def set_drop_distinct [OF ds])
  finally have "card (set (filter (\<lambda>r. r \<notin> set ?e) ?c)) \<le> cap"
    using card_length [of "drop (length ?c - cap) ?s"] by simp
  moreover have "card (set (filter (\<lambda>r. r \<notin> set ?e) ?c)) = length (filter (\<lambda>r. r \<notin> set ?e) ?c)"
    using distinct_filter [OF d] by (rule distinct_card)
  ultimately show ?thesis using filter_gone [OF assms, of P cap] by simp
qed

lemma evict_rows_least:
  assumes "r \<in> set (evicted_rows P cap rows)" and "r' \<in> set rows" and "P r'" and "r' \<notin> set (evicted_rows P cap rows)"
  shows "(last_used_at r, original_sha256 r) \<le> (last_used_at r', original_sha256 r')"
proof -
  let ?k = "\<lambda>r. (last_used_at r, original_sha256 r)" and ?c = "filter P rows"
  let ?s = "sort_key ?k ?c" and ?n = "length ?c - cap"
  have "r' \<in> set ?s" using assms by simp
  then have "r' \<in> set (drop ?n ?s)"
    using assms(4) by (intro in_set_dropI) (simp_all add: evicted_rows_def Let_def)
  moreover have "r \<in> set (take ?n ?s)" using assms(1) by (simp add: evicted_rows_def Let_def)
  moreover have "sorted (map ?k (take ?n ?s) @ map ?k (drop ?n ?s))"
    by (simp only: map_append [symmetric] append_take_drop_id sorted_sort_key)
  ultimately show ?thesis by (auto simp: sorted_append)
qed

section \<open>The PrefixCache contract\<close>

definition nil_bytes :: "bytes option \<Rightarrow> bytes" where
  "nil_bytes r = (case r of None \<Rightarrow> [] | Some b \<Rightarrow> b)"

lemma nil_bytes_simps [simp]: "nil_bytes None = []" "nil_bytes (Some b) = b"
  by (simp_all add: nil_bytes_def)

text \<open>
  What the gateway relies on, whatever statements fail: the first write of a key wins, a lookup
  returns what is stored, and a pin never leaves.
\<close>

locale replacement_cache =
  fixes ok :: "'s \<Rightarrow> bool"
    and content :: "'s \<Rightarrow> bytes \<Rightarrow> (bytes \<times> bytes) option"
    and key :: "bytes \<Rightarrow> bytes \<Rightarrow> bytes"
    and lookup :: "'f \<Rightarrow> 's \<Rightarrow> bytes \<Rightarrow> bytes \<Rightarrow> (bytes option \<times> bytes) option \<times> 's"
    and remember :: "'g \<Rightarrow> 's \<Rightarrow> bytes \<Rightarrow> bytes \<Rightarrow> bytes option \<Rightarrow> bytes \<Rightarrow> ('e + bytes option) \<times> 's"
  assumes lookup_ok: "ok s \<Longrightarrow> ok (snd (lookup f s sc x))"
    and lookup_content: "content (snd (lookup f s sc x)) = content s"
    and lookup_hit: "fst (lookup f s sc x) = Some (r, h) \<Longrightarrow> content s (key sc x) = Some (h, nil_bytes r)"
    and remember_ok: "ok s \<Longrightarrow> ok (snd (remember g s sc x r h))"
    and remember_first: "content s (key sc x) = Some (h0, b0) \<Longrightarrow> fst (remember g s sc x r h) = Inr v \<Longrightarrow>
      nil_bytes v = b0"
    and remember_new: "content s (key sc x) = None \<Longrightarrow> fst (remember g s sc x r h) = Inr v \<Longrightarrow>
      nil_bytes v = nil_bytes r"
    and remember_other: "ok s \<Longrightarrow> k \<noteq> key sc x \<or> content s k \<noteq> None \<Longrightarrow>
      content (snd (remember g s sc x r h)) k \<in> {None, content s k}"
    and remember_pin: "ok s \<Longrightarrow> content s k = Some (RawPinHandle, b) \<Longrightarrow>
      content (snd (remember g s sc x r h)) k = Some (RawPinHandle, b)"
    and remember_pin_new: "ok s \<Longrightarrow> content s (key sc x) = None \<Longrightarrow>
      fst (remember g s sc x r RawPinHandle) = Inr v \<Longrightarrow>
      content (snd (remember g s sc x r RawPinHandle)) (key sc x) = Some (RawPinHandle, nil_bytes r)"
begin

text \<open>A step of any client: one lookup or one write.\<close>

inductive cache_steps :: "'s \<Rightarrow> 's \<Rightarrow> bool" where
  steps_refl: "cache_steps s s"
| steps_lookup: "cache_steps s t \<Longrightarrow> cache_steps s (snd (lookup f t sc x))"
| steps_remember: "cache_steps s t \<Longrightarrow> cache_steps s (snd (remember g t sc x r h))"

lemma steps_ok: "cache_steps s t \<Longrightarrow> ok s \<Longrightarrow> ok t"
  by (induction rule: cache_steps.induct) (auto intro: lookup_ok remember_ok)

lemma pin_stays:
  "cache_steps s t \<Longrightarrow> ok s \<Longrightarrow> content s k = Some (RawPinHandle, b) \<Longrightarrow> content t k = Some (RawPinHandle, b)"
  by (induction rule: cache_steps.induct) (auto simp: lookup_content intro: remember_pin steps_ok)

text \<open>Every answer for a key whose row stays is the same: the first one.\<close>

lemma answer_is_stored:
  "content s (key sc x) = Some (h0, b0) \<Longrightarrow>
     (fst (lookup f s sc x) = Some (r, h) \<longrightarrow> nil_bytes r = b0) \<and>
     (fst (remember g s sc x r' h') = Inr v \<longrightarrow> nil_bytes v = b0)"
  using lookup_hit [of f s sc x r h] remember_first [of s sc x h0 b0 g r' h' v] by auto

text \<open>A pin that was written is read back by every later lookup that succeeds, and wins every later write.\<close>

lemma pin_recovered:
  assumes "ok s" and "content s (key sc x) = None" and "fst (remember g s sc x r RawPinHandle) = Inr v"
    and "cache_steps (snd (remember g s sc x r RawPinHandle)) t"
    and "fst (remember g' t sc x r' h') = Inr v'"
  shows "nil_bytes v' = nil_bytes r"
proof -
  have "content t (key sc x) = Some (RawPinHandle, nil_bytes r)"
    by (rule pin_stays [OF assms(4) remember_ok [OF assms(1)] remember_pin_new [OF assms(1-3)]])
  then show ?thesis using assms(5) by (rule remember_first)
qed

end

text \<open>The store provides the contract.\<close>

lemma readReplacement_stored:
  "readReplacement q s k = Some (r, h, u) \<Longrightarrow> stored s k = Some (h, nil_bytes r)"
  by (auto simp: readReplacement_def stored_def split: if_splits option.splits)

lemma stored_evict_some: "stored (evictPrefixReplacements db s) k \<in> {None, stored s k}"
proof -
  have "find_row k (prefix_rows (evictPrefixReplacements db s)) \<in> {None, find_row k (prefix_rows s)}"
    by (simp add: evictPrefixReplacements_def delete_oldest_def Let_def find_row_filter)
  then show ?thesis by (auto simp: stored_def)
qed

lemma evict_ok: "store_ok s \<Longrightarrow> store_ok (evictPrefixReplacements db s)"
  by (auto simp: evictPrefixReplacements_def store_ok_def Let_def distinct_delete)

lemma stored_evict_pin:
  assumes "store_ok s" and "stored s k = Some (RawPinHandle, b)"
  shows "stored (evictPrefixReplacements db s) k = Some (RawPinHandle, b)"
proof -
  obtain r where r: "find_row k (prefix_rows s) = Some r" "row_handle r = RawPinHandle" "row_replacement r = b"
    using assms(2) by (auto simp: stored_def)
  have d: "distinct (map original_sha256 (prefix_rows s))" using assms(1) by (simp add: store_ok_def)
  have px: "row_handle r \<noteq> PixelHandle" using r by (simp add: PixelHandle_def RawPinHandle_def)
  have one: "find_row k (delete_oldest (\<lambda>r. row_handle r \<noteq> RawPinHandle) n (prefix_rows s)) = Some r" for n
    using delete_oldest_keeps [OF d r(1)] r(2) by simp
  have two: "find_row k (delete_oldest (\<lambda>r. row_handle r = PixelHandle) n (prefix_rows s)) = Some r" for n
    using delete_oldest_keeps [OF d r(1)] px by simp
  have three: "find_row k (delete_oldest (\<lambda>r. row_handle r = PixelHandle) m
      (delete_oldest (\<lambda>r. row_handle r \<noteq> RawPinHandle) n (prefix_rows s))) = Some r" for n m
    using delete_oldest_keeps [OF distinct_delete [OF d] one] px by simp
  show ?thesis using r one two three
    by (auto simp: evictPrefixReplacements_def stored_def Let_def)
qed

text \<open>An eviction that is due brings both tables within their caps.\<close>

lemma evict_bounds:
  assumes "store_ok s" and "prefixWrites s mod prefixCacheEvictEvery = 0"
  defines "rows \<equiv> prefix_rows (evictPrefixReplacements (True, True) s)"
  shows "length (filter (\<lambda>r. row_handle r \<noteq> RawPinHandle) rows) \<le> prefixCacheMaxEntries
    \<and> length (filter (\<lambda>r. row_handle r = PixelHandle) rows) \<le> prefixCachePixelMaxEntries"
proof -
  let ?P = "\<lambda>r. row_handle r \<noteq> RawPinHandle" and ?Q = "\<lambda>r. row_handle r = PixelHandle"
  let ?one = "delete_oldest ?P prefixCacheMaxEntries (prefix_rows s)"
  have d: "distinct (map original_sha256 (prefix_rows s))" using assms(1) by (simp add: store_ok_def)
  have rows: "rows = delete_oldest ?Q prefixCachePixelMaxEntries ?one"
    using assms(2) by (simp add: rows_def evictPrefixReplacements_def Let_def)
  have sub: "length (filter ?P (delete_oldest Q n xs)) \<le> length (filter ?P xs)" for Q n xs
  proof -
    have "filter ?P (delete_oldest Q n xs) = filter (\<lambda>r. original_sha256 r \<notin> set (map original_sha256 (evicted_rows Q n xs))) (filter ?P xs)"
      by (simp add: delete_oldest_def Let_def conj_commute)
    then show ?thesis by (metis length_filter_le)
  qed
  have "length (filter ?P rows) \<le> prefixCacheMaxEntries"
    unfolding rows by (rule order_trans [OF sub delete_oldest_bound [OF d]])
  moreover have "length (filter ?Q rows) \<le> prefixCachePixelMaxEntries"
    unfolding rows by (rule delete_oldest_bound [OF distinct_delete [OF d]])
  ultimately show ?thesis by simp
qed

text \<open>What a write leaves behind, and what it answers.\<close>

lemma Remember_store:
  "snd (RememberReplacement h db now s sc x r hn) \<in>
     {s, upsert_row (prefixCacheKey h sc x) hn (nil_bytes r) now s,
      evictPrefixReplacements (snd (snd db)) (upsert_row (prefixCacheKey h sc x) hn (nil_bytes r) now s)}"
  by (simp add: RememberReplacement_def Let_def nil_bytes_def split: prod.splits option.splits)

lemma Remember_answer:
  assumes "fst (RememberReplacement h db now s sc x r hn) = Inr v"
  shows "\<exists>hn'. stored (upsert_row (prefixCacheKey h sc x) hn (nil_bytes r) now s) (prefixCacheKey h sc x) =
      Some (hn', nil_bytes v)"
    and "snd (RememberReplacement h db now s sc x r hn) =
      evictPrefixReplacements (snd (snd db)) (upsert_row (prefixCacheKey h sc x) hn (nil_bytes r) now s)"
proof -
  let ?k = "prefixCacheKey h sc x"
  let ?u = "upsert_row ?k hn (nil_bytes r) now s"
  obtain a b c where db: "db = (a, b, c)" using prod_cases3 by blast
  have "\<exists>hn' lu. readReplacement (fst (snd db)) ?u ?k = Some (v, hn', lu) \<and>
      snd (RememberReplacement h db now s sc x r hn) = evictPrefixReplacements (snd (snd db)) ?u"
    using assms unfolding db
    by (auto simp: RememberReplacement_def Let_def nil_bytes_def split: option.splits if_splits)
  then show "\<exists>hn'. stored ?u ?k = Some (hn', nil_bytes v)"
      "snd (RememberReplacement h db now s sc x r hn) = evictPrefixReplacements (snd (snd db)) ?u"
    using readReplacement_stored by blast+
qed

lemma Lookup_store:
  "snd (LookupReplacement h db now stale s sc x) \<in> {s, touch_row now (prefixCacheKey h sc x) s}"
  by (simp add: LookupReplacement_def Let_def split: option.splits)

lemma upsert_pin:
  "stored s k = Some p \<Longrightarrow> stored (upsert_row key hn b now s) k = Some p"
  by (auto simp: stored_upsert)

interpretation pc: replacement_cache store_ok stored "prefixCacheKey h"
  "\<lambda>(db, now, stale) s. LookupReplacement h db now stale s"
  "\<lambda>(db, now) s. RememberReplacement h db now s" for h
proof (unfold_locales, goal_cases)
  case (1 s f sc x)
  then show ?case using Lookup_store [of h "fst f" "fst (snd f)" "snd (snd f)" s sc x]
    by (auto simp: case_prod_beta)
next
  case (2 f s sc x)
  then show ?case using Lookup_store [of h "fst f" "fst (snd f)" "snd (snd f)" s sc x]
    by (auto simp: case_prod_beta)
next
  case (3 f s sc x r hn)
  then show ?case
    by (auto simp: case_prod_beta LookupReplacement_def Let_def split: option.splits dest: readReplacement_stored)
next
  case (4 s g sc x r hn)
  then show ?case using Remember_store [of h "fst g" "snd g" s sc x r hn]
    by (auto simp: case_prod_beta upsert_ok evict_ok)
next
  case (5 s sc x h0 b0 g r hn v)
  then show ?case using Remember_answer(1) [of h "fst g" "snd g" s sc x r hn v]
    by (auto simp: case_prod_beta stored_upsert)
next
  case (6 s sc x g r hn v)
  then show ?case using Remember_answer(1) [of h "fst g" "snd g" s sc x r hn v]
    by (auto simp: case_prod_beta stored_upsert)
next
  case (7 s k sc x g r hn)
  let ?u = "upsert_row (prefixCacheKey h sc x) hn (nil_bytes r) (snd g) s"
  have "stored ?u k = stored s k" using 7(2) by (auto simp: stored_upsert)
  then show ?case
    using Remember_store [of h "fst g" "snd g" s sc x r hn] stored_evict_some [of "snd (snd (fst g))" ?u k]
    by (auto simp: case_prod_beta)
next
  case (8 s k b g sc x r hn)
  let ?u = "upsert_row (prefixCacheKey h sc x) hn (nil_bytes r) (snd g) s"
  have "stored ?u k = Some (RawPinHandle, b)" using 8(2) by (rule upsert_pin)
  moreover then have "stored (evictPrefixReplacements (snd (snd (fst g))) ?u) k = Some (RawPinHandle, b)"
    by (rule stored_evict_pin [OF upsert_ok [OF 8(1)]])
  ultimately show ?case using 8 Remember_store [of h "fst g" "snd g" s sc x r hn]
    by (auto simp: case_prod_beta)
next
  case (9 s sc x g r v)
  let ?u = "upsert_row (prefixCacheKey h sc x) RawPinHandle (nil_bytes r) (snd g) s"
  have "stored ?u (prefixCacheKey h sc x) = Some (RawPinHandle, nil_bytes r)" using 9(2) by (simp add: stored_upsert)
  then have "stored (evictPrefixReplacements (snd (snd (fst g))) ?u) (prefixCacheKey h sc x) = Some (RawPinHandle, nil_bytes r)"
    by (rule stored_evict_pin [OF upsert_ok [OF 9(1)]])
  then show ?case
    using 9 Remember_answer(2) [of h "fst g" "snd g" s sc x r RawPinHandle v]
    by (simp add: case_prod_beta)
qed

end
