(* ===== verification/Big_Endian.thy ===== *)
theory Big_Endian
  imports Prelude
begin

text \<open>
  The big-endian numbers the proxy frames with (\<open>binary.BigEndian\<close>): the bytes of a number and the
  number of some bytes.
\<close>

definition be_bytes :: "nat \<Rightarrow> nat \<Rightarrow> bytes" where
  "be_bytes k v = map (\<lambda>i. char_of (v div 256 ^ i mod 256)) (rev [0..<k])"

definition be_value :: "bytes \<Rightarrow> nat" where
  "be_value s = foldl (\<lambda>v c. 256 * v + bval c) 0 s"

lemma be_value_append: "be_value (s @ [c]) = 256 * be_value s + bval c"
  by (simp add: be_value_def)

lemma be_bytes_Suc: "be_bytes (Suc k) v = be_bytes k (v div 256) @ [char_of (v mod 256)]"
proof -
  have "[0..<Suc k] = 0 # map Suc [0..<k]" by (simp add: map_Suc_upt upt_conv_Cons del: upt_Suc)
  then have "rev [0..<Suc k] = map Suc (rev [0..<k]) @ [0]" by (simp add: rev_map del: upt_Suc)
  then show ?thesis by (simp add: be_bytes_def div_mult2_eq comp_def del: upt_Suc)
qed

lemma length_be_bytes [simp]: "length (be_bytes k v) = k"
  by (simp add: be_bytes_def)

lemma be_roundtrip: "v < 256 ^ k \<Longrightarrow> be_value (be_bytes k v) = v"
proof (induction k arbitrary: v)
  case 0
  then show ?case by (simp add: be_value_def be_bytes_def)
next
  case (Suc k)
  then have "v div 256 < 256 ^ k" by (simp add: less_mult_imp_div_less mult.commute)
  with Suc show ?case by (simp add: be_bytes_Suc be_value_append bval_def)
qed

lemma be_bytes_inject: "v < 256 ^ k \<Longrightarrow> w < 256 ^ k \<Longrightarrow> be_bytes k v = be_bytes k w \<Longrightarrow> v = w"
  by (metis be_roundtrip)

end
