(* ===== verification/Raw_Pin.thy ===== *)
theory Raw_Pin
  imports Prefix_Store Big_Endian "HOL-Library.Word"
begin

text \<open>
  Raw pins and lineages (proxy/internal/gateway/raw_pin.go): which conversations must go out raw
  because the provider cached their original bytes, and which prefixes went out replaced. Pins and
  lineages live in memory and in the replacement cache. How an adapter splits a request into the
  components of its cached prefix is the parameter \<open>split\<close> (the \<open>CachedPrefixInspector\<close> interface),
  with \<open>shared\<close> the components every conversation of an agent has in common. A digest is a byte
  string; \<open>sum256\<close> is the SHA-256 sum.
\<close>

section \<open>Digests of component lists\<close>

definition frameComponent :: "bytes \<Rightarrow> bytes" where
  "frameComponent b = be_bytes 8 (length b mod 2 ^ 64) @ b"

definition digestComponents :: "(bytes \<Rightarrow> bytes) \<Rightarrow> bytes list \<Rightarrow> bytes" where
  "digestComponents sum256 components = sum256 (concat components)"

text \<open>The incremental digests: the bytes the hash has taken and the sums so far.\<close>

record prefixDigests =
  components :: "bytes list"
  hashed :: bytes
  sums :: "bytes list"

definition newPrefixDigests :: "bytes list \<Rightarrow> prefixDigests" where
  "newPrefixDigests cs = \<lparr>components = cs, hashed = [], sums = []\<rparr>"

function digests_upto :: "(bytes \<Rightarrow> bytes) \<Rightarrow> nat \<Rightarrow> prefixDigests \<Rightarrow> prefixDigests option" where
  "digests_upto sum256 n d =
     (if n \<le> length (sums d) then Some d
      else if length (components d) \<le> length (sums d) then None
      else
        let h = hashed d @ components d ! length (sums d) in
        digests_upto sum256 n (d\<lparr>hashed := h, sums := sums d @ [sum256 h]\<rparr>))"
  by pat_completeness auto
termination
  by (relation "measure (\<lambda>(sum256, n, d). n - length (sums d))") auto

declare digests_upto.simps [simp del]

text \<open>\<open>at(n)\<close>; \<open>None\<close> when an index is out of range.\<close>

definition digest_at :: "(bytes \<Rightarrow> bytes) \<Rightarrow> prefixDigests \<Rightarrow> nat \<Rightarrow> (bytes \<times> prefixDigests) option" where
  "digest_at sum256 d n =
     (case digests_upto sum256 n d of
        None \<Rightarrow> None
      | Some d1 \<Rightarrow> if n = 0 \<or> length (sums d1) < n then None else Some (sums d1 ! (n - 1), d1))"

section \<open>Pins\<close>

record rawPin =
  pin_n :: "32 word"
  pin_digest :: bytes

definition encode :: "rawPin \<Rightarrow> bytes" where
  "encode p = be_bytes 4 (unat (pin_n p)) @ pin_digest p"

definition decodeRawPin :: "bytes \<Rightarrow> rawPin option" where
  "decodeRawPin b =
     (if length b \<noteq> 4 + 32 then None
      else
        let p = \<lparr>pin_n = word_of_nat (be_value (take 4 b)), pin_digest = drop 4 b\<rparr> in
        if pin_n p > 0 then Some p else None)"

definition rawPinSlots :: nat where
  "rawPinSlots = 64"

definition rawPinIdentities :: nat where
  "rawPinIdentities = 4096"

definition rawPinScope :: bytes where
  "rawPinScope = ''rawpin''"

definition rawPinKey :: "bytes \<Rightarrow> nat \<Rightarrow> bytes" where
  "rawPinKey identity slot = identity @ [char_of (slot mod 256)]"

text \<open>A pin covers the prefix it was taken on.\<close>

definition pin_matches :: "(bytes \<Rightarrow> bytes) \<Rightarrow> rawPin \<Rightarrow> prefixDigests \<Rightarrow> bool" where
  "pin_matches sum256 p d \<longleftrightarrow>
     unat (pin_n p) \<le> length (components d)
     \<and> map_option fst (digest_at sum256 d (unat (pin_n p))) = Some (pin_digest p)"

record pinSet =
  loaded :: bool
  pins :: "rawPin list"

text \<open>The identities in memory: a map, as the list of its entries.\<close>

type_synonym rawPins = "(bytes \<times> pinSet) list"

definition pins_set :: "bytes \<Rightarrow> rawPins \<Rightarrow> rawPins" where
  "pins_set identity ids0 =
     (let ids = (if length ids0 \<ge> rawPinIdentities then [] else ids0) in
      if map_of ids identity = None then ids @ [(identity, \<lparr>loaded = False, pins = []\<rparr>)] else ids)"

definition set_update :: "bytes \<Rightarrow> (pinSet \<Rightarrow> pinSet) \<Rightarrow> rawPins \<Rightarrow> rawPins" where
  "set_update identity f ids = map (\<lambda>(i, st). if i = identity then (i, f st) else (i, st)) ids"

definition add_pins :: "rawPin list \<Rightarrow> pinSet \<Rightarrow> pinSet" where
  "add_pins ps st = st\<lparr>pins := foldl (\<lambda>acc p. if p \<in> set acc then acc else acc @ [p]) (pins st) ps\<rparr>"

definition pins_add :: "bytes \<Rightarrow> rawPin list \<Rightarrow> rawPins \<Rightarrow> rawPins" where
  "pins_add identity ps ids = set_update identity (add_pins ps) (pins_set identity ids)"

text \<open>
  One call of the store for slot \<open>i\<close> runs under the outcome \<open>io i\<close>: which statements succeed and
  the stamps of the clock.
\<close>

type_synonym lookup_io = "(bool \<times> bool) \<times> bytes \<times> bytes"

type_synonym remember_io = "(bool \<times> bool \<times> bool \<times> bool) \<times> bytes"

fun load_slots :: "(bytes \<Rightarrow> bytes) \<Rightarrow> (nat \<Rightarrow> lookup_io) \<Rightarrow> bytes \<Rightarrow> nat list \<Rightarrow> prefix_store \<Rightarrow>
    rawPin list \<times> prefix_store" where
  "load_slots sum256 io identity [] s = ([], s)"
| "load_slots sum256 io identity (slot # slots) s =
     (case io slot of (db, now, stale) \<Rightarrow>
        (case LookupReplacement sum256 db now stale s rawPinScope (rawPinKey identity slot) of
           (None, s1) \<Rightarrow> ([], s1)
         | (Some (value, _), s1) \<Rightarrow>
             (case load_slots sum256 io identity slots s1 of (ps, s2) \<Rightarrow>
                (case decodeRawPin (nil_bytes value) of None \<Rightarrow> (ps, s2) | Some p \<Rightarrow> (p # ps, s2)))))"

definition pins_load :: "(bytes \<Rightarrow> bytes) \<Rightarrow> (nat \<Rightarrow> lookup_io) \<Rightarrow> bytes \<Rightarrow> rawPins \<Rightarrow> prefix_store \<Rightarrow>
    rawPin list \<times> rawPins \<times> prefix_store" where
  "pins_load sum256 io identity ids s =
     (case load_slots sum256 io identity [0..<rawPinSlots] s of (ps, s1) \<Rightarrow>
        let ids1 = pins_set identity (pins_add identity ps ids);
            ids2 = set_update identity (\<lambda>st. st\<lparr>loaded := True\<rparr>) ids1
        in (pins (the (map_of ids2 identity)), ids2, s1))"

definition pinsFor :: "(bytes \<Rightarrow> bytes) \<Rightarrow> (nat \<Rightarrow> lookup_io) \<Rightarrow> bytes \<Rightarrow> rawPins \<Rightarrow> prefix_store \<Rightarrow>
    rawPin list \<times> rawPins \<times> prefix_store" where
  "pinsFor sum256 io identity ids s =
     (case map_of ids identity of
        Some st \<Rightarrow> if loaded st then (pins st, ids, s) else pins_load sum256 io identity ids s
      | None \<Rightarrow> pins_load sum256 io identity ids s)"

section \<open>Lineages\<close>

definition lineageReplaced :: char where
  "lineageReplaced = CHR ''r''"

definition lineageStreamRaw :: char where
  "lineageStreamRaw = CHR ''s''"

definition lineageAbsent :: char where
  "lineageAbsent = CHR 0x00"

definition lineageMemory :: nat where
  "lineageMemory = 65536"

definition lineageScope :: bytes where
  "lineageScope = ''lineage''"

definition lineageHandle :: bytes where
  "lineageHandle = ''lineage''"

record lineages =
  forms :: "bytes \<rightharpoonup> char"
  lineage_order :: "bytes list"

definition lineage_put :: "bytes \<Rightarrow> char \<Rightarrow> lineages \<Rightarrow> bool \<times> lineages" where
  "lineage_put digest form l =
     (case forms l digest of
        Some have \<Rightarrow>
          if have \<noteq> lineageAbsent \<or> form = lineageAbsent then (False, l)
          else (True, l\<lparr>forms := (forms l)(digest \<mapsto> form)\<rparr>)
      | None \<Rightarrow>
          let ord = lineage_order l @ [digest]; m = (forms l)(digest \<mapsto> form) in
          if length ord > lineageMemory then (True, l\<lparr>forms := m(hd ord := None), lineage_order := tl ord\<rparr>)
          else (True, l\<lparr>forms := m, lineage_order := ord\<rparr>))"

record pin_server =
  srv_pins :: rawPins
  srv_lineages :: lineages
  prefixCache :: "prefix_store option"

definition recordLineage :: "(bytes \<Rightarrow> bytes) \<Rightarrow> remember_io \<Rightarrow> nat \<Rightarrow> bytes list \<Rightarrow> nat \<Rightarrow> char \<Rightarrow> pin_server \<Rightarrow> pin_server" where
  "recordLineage sum256 io shared client cached form srv =
     (case prefixCache srv of
        None \<Rightarrow> srv
      | Some s \<Rightarrow>
          if cached \<le> shared then srv
          else
            let digest = digestComponents sum256 (take cached client) in
            (case lineage_put digest form (srv_lineages srv) of
               (recorded, l) \<Rightarrow>
                 if recorded then
                   srv\<lparr>srv_lineages := l, prefixCache := Some (snd
                     (RememberReplacement sum256 (fst io) (snd io) s lineageScope digest (Some [form]) lineageHandle))\<rparr>
                 else srv))"

text \<open>The search from the longest prefix down: \<open>n - low\<close> lengths are left.\<close>

fun longest_from :: "(bytes \<Rightarrow> bytes) \<Rightarrow> (nat \<Rightarrow> lookup_io) \<Rightarrow> bytes list \<Rightarrow> nat \<Rightarrow> nat \<Rightarrow> lineages \<Rightarrow> prefix_store \<Rightarrow>
    (nat \<times> char) \<times> lineages \<times> prefix_store" where
  "longest_from sum256 io cs low 0 l s = ((0, lineageAbsent), l, s)"
| "longest_from sum256 io cs low (Suc k) l s =
     (let n = low + Suc k;
          digest = digestComponents sum256 (take n cs);
          (form, l1, s1) =
            (case forms l digest of
               Some f \<Rightarrow> (f, l, s)
             | None \<Rightarrow>
                 (case io n of (db, now, stale) \<Rightarrow>
                   (case LookupReplacement sum256 db now stale s lineageScope digest of (hit, s2) \<Rightarrow>
                     let f = (case hit of
                            Some (Some [v], h) \<Rightarrow> if h = lineageHandle then v else lineageAbsent
                          | _ \<Rightarrow> lineageAbsent)
                     in (f, snd (lineage_put digest f l), s2))))
      in if form \<noteq> lineageAbsent then ((n, form), l1, s1) else longest_from sum256 io cs low k l1 s1)"

definition longestLineage :: "(bytes \<Rightarrow> bytes) \<Rightarrow> (nat \<Rightarrow> lookup_io) \<Rightarrow> bytes list \<Rightarrow> nat \<Rightarrow> lineages \<Rightarrow> prefix_store \<Rightarrow>
    (nat \<times> char) \<times> lineages \<times> prefix_store" where
  "longestLineage sum256 io cs low l s = longest_from sum256 io cs low (length cs - low) l s"

section \<open>Requests\<close>

definition rawPinCoverage :: "(bytes \<Rightarrow> bytes) \<Rightarrow> (nat \<Rightarrow> lookup_io) \<Rightarrow> nat \<Rightarrow> bytes list \<Rightarrow> pin_server \<Rightarrow> nat \<times> pin_server" where
  "rawPinCoverage sum256 io shared cs srv =
     (case prefixCache srv of
        None \<Rightarrow> (0, srv)
      | Some s \<Rightarrow>
          if length cs \<le> shared then (0, srv)
          else
            (case pinsFor sum256 io (digestComponents sum256 (take (shared + 1) cs)) (srv_pins srv) s of
               (ps, ids, s1) \<Rightarrow>
                 (foldl (\<lambda>n p. if pin_matches sum256 p (newPrefixDigests cs) then max n (unat (pin_n p)) else n) 0 ps,
                  srv\<lparr>srv_pins := ids, prefixCache := Some s1\<rparr>)))"

fun pin_slots :: "(bytes \<Rightarrow> bytes) \<Rightarrow> (nat \<Rightarrow> remember_io) \<Rightarrow> bytes \<Rightarrow> bytes \<Rightarrow> nat list \<Rightarrow> prefix_store \<Rightarrow> prefix_store" where
  "pin_slots sum256 io identity value [] s = s"
| "pin_slots sum256 io identity value (slot # slots) s =
     (case io slot of (db, now) \<Rightarrow>
        (case RememberReplacement sum256 db now s rawPinScope (rawPinKey identity slot) (Some value) RawPinHandle of
           (Inl _, s1) \<Rightarrow> s1
         | (Inr won, s1) \<Rightarrow>
             if nil_bytes won = value then s1 else pin_slots sum256 io identity value slots s1))"

definition pinRaw :: "(bytes \<Rightarrow> bytes) \<Rightarrow> (nat \<Rightarrow> lookup_io) \<Rightarrow> (nat \<Rightarrow> remember_io) \<Rightarrow>
    (bytes \<Rightarrow> (bytes list \<times> nat) option) \<Rightarrow> nat \<Rightarrow> bytes \<Rightarrow> bytes \<Rightarrow> pin_server \<Rightarrow> pin_server" where
  "pinRaw sum256 lio rio split shared body transformed srv =
     (case prefixCache srv of
        None \<Rightarrow> srv
      | Some s \<Rightarrow>
          (case split body of
             None \<Rightarrow> srv
           | Some (cs, cached) \<Rightarrow>
               if cached \<le> shared then srv
               else if (case split transformed of
                   Some (sent, _) \<Rightarrow> length sent \<ge> cached
                     \<and> digestComponents sum256 (take cached sent) = digestComponents sum256 (take cached cs)
                 | None \<Rightarrow> False) then srv
               else
                 let identity = digestComponents sum256 (take (shared + 1) cs);
                     pin = \<lparr>pin_n = word_of_nat cached, pin_digest = digestComponents sum256 (take cached cs)\<rparr>
                 in (case pinsFor sum256 lio identity (srv_pins srv) s of
                       (_, ids, s1) \<Rightarrow>
                         srv\<lparr>srv_pins := pins_add identity [pin] ids,
                             prefixCache := Some (pin_slots sum256 rio identity (encode pin) [0..<rawPinSlots] s1)\<rparr>)))"

definition rawPinned :: "(bytes \<Rightarrow> bytes) \<Rightarrow> (nat \<Rightarrow> lookup_io) \<Rightarrow> (nat \<Rightarrow> lookup_io) \<Rightarrow>
    (bytes \<Rightarrow> (bytes list \<times> nat) option) \<Rightarrow> nat \<Rightarrow> bytes \<Rightarrow> pin_server \<Rightarrow> bool \<times> pin_server" where
  "rawPinned sum256 pio lio split shared body srv =
     (if prefixCache srv = None then (False, srv)
      else case split body of
        None \<Rightarrow> (False, srv)
      | Some (cs, _) \<Rightarrow>
          (case rawPinCoverage sum256 pio shared cs srv of
             (pinned, srv1) \<Rightarrow>
               if pinned = 0 then (False, srv1)
               else (case prefixCache srv1 of
                  None \<Rightarrow> (False, srv1)
                | Some s \<Rightarrow>
                    (case longestLineage sum256 lio cs pinned (srv_lineages srv1) s of
                       ((n, form), l, s1) \<Rightarrow>
                         (n = 0 \<or> form \<noteq> lineageReplaced, srv1\<lparr>srv_lineages := l, prefixCache := Some s1\<rparr>)))))"

definition heldRawByStream :: "(bytes \<Rightarrow> bytes) \<Rightarrow> (nat \<Rightarrow> lookup_io) \<Rightarrow>
    (bytes \<Rightarrow> (bytes list \<times> nat) option) \<Rightarrow> nat \<Rightarrow> bytes \<Rightarrow> pin_server \<Rightarrow> bool \<times> pin_server" where
  "heldRawByStream sum256 lio split shared body srv =
     (case prefixCache srv of
        None \<Rightarrow> (False, srv)
      | Some s \<Rightarrow>
          (case split body of
             None \<Rightarrow> (False, srv)
           | Some (cs, _) \<Rightarrow>
               (case longestLineage sum256 lio cs shared (srv_lineages srv) s of
                  ((n, form), l, s1) \<Rightarrow>
                    (form = lineageStreamRaw, srv\<lparr>srv_lineages := l, prefixCache := Some s1\<rparr>))))"

end
