(* ===== verification/Raw_Pin_Facts.thy ===== *)
theory Raw_Pin_Facts
  imports Raw_Pin
begin

text \<open>
  What the raw pins and lineages promise: the incremental digest is the digest of the prefix, the
  framing of components is unambiguous, a pin survives encoding and a restart, the longest lineage
  is the longest, and the one place where a pin is lost in memory.
\<close>

section \<open>Framing\<close>

lemma frames_inject:
  assumes "\<forall>c \<in> set cs. length c < 2 ^ 64" and "\<forall>d \<in> set ds. length d < 2 ^ 64"
    and "concat (map frameComponent cs) = concat (map frameComponent ds)"
  shows "cs = ds"
  using assms
proof (induction cs arbitrary: ds)
  case Nil
  then have "\<forall>d \<in> set ds. frameComponent d = []" by simp
  then show ?case by (cases ds) (auto simp: frameComponent_def dest: arg_cong [of _ _ length])
next
  case (Cons c cs)
  show ?case
  proof (cases ds)
    case Nil
    then show ?thesis using Cons.prems(3) by (auto simp: frameComponent_def dest: arg_cong [of _ _ length])
  next
    case ds: (Cons d ds')
    have eq: "be_bytes 8 (length c) @ c @ concat (map frameComponent cs) =
        be_bytes 8 (length d) @ d @ concat (map frameComponent ds')"
      using Cons.prems ds by (simp add: frameComponent_def [of c] frameComponent_def [of d])
    then have b: "be_bytes 8 (length c) = be_bytes 8 (length d)"
      and r: "c @ concat (map frameComponent cs) = d @ concat (map frameComponent ds')" by simp_all
    have "length c = length d"
      using be_bytes_inject [OF _ _ b] Cons.prems(1,2) ds by simp
    with r have "c = d" "concat (map frameComponent cs) = concat (map frameComponent ds')" by simp_all
    then show ?thesis using Cons ds by simp
  qed
qed

section \<open>Incremental digests\<close>

definition digests_ok :: "(bytes \<Rightarrow> bytes) \<Rightarrow> prefixDigests \<Rightarrow> bool" where
  "digests_ok h d \<longleftrightarrow>
     length (sums d) \<le> length (components d)
     \<and> hashed d = concat (take (length (sums d)) (components d))
     \<and> (\<forall>i < length (sums d). sums d ! i = digestComponents h (take (Suc i) (components d)))"

lemma new_digests_ok: "digests_ok h (newPrefixDigests cs)"
  by (simp add: digests_ok_def newPrefixDigests_def)

lemma digests_upto_ok:
  "digests_ok h d \<Longrightarrow> n \<le> length (components d) \<Longrightarrow>
     \<exists>d'. digests_upto h n d = Some d' \<and> digests_ok h d' \<and> n \<le> length (sums d') \<and> components d' = components d"
proof (induction h n d rule: digests_upto.induct)
  case (1 h n d)
  show ?case
  proof (cases "n \<le> length (sums d)")
    case True
    then show ?thesis using 1 by (subst digests_upto.simps) simp
  next
    case False
    then have lt: "\<not> length (components d) \<le> length (sums d)" using "1.prems" by simp
    let ?h = "hashed d @ components d ! length (sums d)"
    let ?d = "d\<lparr>hashed := ?h, sums := sums d @ [h ?h]\<rparr>"
    have "digests_ok h ?d"
      using "1.prems"(1) lt
      by (auto simp: digests_ok_def take_Suc_conv_app_nth digestComponents_def nth_append less_Suc_eq)
    then obtain d' where "digests_upto h n ?d = Some d'" "digests_ok h d'" "n \<le> length (sums d')"
        "components d' = components d"
      using "1.IH" [OF False lt refl] "1.prems"(2) by auto
    moreover have "digests_upto h n d = digests_upto h n ?d"
      using False lt by (subst digests_upto.simps) (simp add: Let_def)
    ultimately show ?thesis by auto
  qed
qed

lemma digest_at_prefix:
  assumes "digests_ok h d" and "0 < n" and "n \<le> length (components d)"
  shows "\<exists>d'. digest_at h d n = Some (digestComponents h (take n (components d)), d') \<and> digests_ok h d'"
proof -
  obtain d' where d': "digests_upto h n d = Some d'" "digests_ok h d'" "n \<le> length (sums d')"
      "components d' = components d"
    using digests_upto_ok [OF assms(1,3)] by blast
  then have "sums d' ! (n - 1) = digestComponents h (take n (components d))"
    using assms(2) by (auto simp: digests_ok_def)
  then show ?thesis using d' assms(2) by (simp add: digest_at_def)
qed

lemma pin_matches_iff:
  assumes "0 < pin_n p"
  shows "pin_matches h p (newPrefixDigests cs) \<longleftrightarrow>
    unat (pin_n p) \<le> length cs \<and> digestComponents h (take (unat (pin_n p)) cs) = pin_digest p"
proof -
  have "0 < unat (pin_n p)" using assms by (simp add: unat_gt_0)
  then show ?thesis
    using digest_at_prefix [OF new_digests_ok, of "unat (pin_n p)" cs h]
    by (auto simp: pin_matches_def newPrefixDigests_def)
qed

section \<open>Pins on the wire\<close>

lemma pin_roundtrip:
  assumes "0 < pin_n p" and "length (pin_digest p) = 32"
  shows "decodeRawPin (encode p) = Some p"
proof -
  have "unat (pin_n p) < 256 ^ 4" using unsigned_less [of "pin_n p"] by simp
  then have "be_value (be_bytes 4 (unat (pin_n p))) = unat (pin_n p)" by (rule be_roundtrip)
  then show ?thesis using assms by (simp add: decodeRawPin_def encode_def Let_def)
qed

section \<open>Pins in memory\<close>

lemma map_of_set_update:
  "map_of (set_update i f ids) k = map_option (\<lambda>st. if k = i then f st else st) (map_of ids k)"
  by (induction ids) (auto simp: set_update_def)

lemma length_set_update [simp]: "length (set_update i f ids) = length ids"
  by (simp add: set_update_def)

lemma pins_set_room:
  assumes "length ids < rawPinIdentities"
  shows "map_of (pins_set i ids) k =
    (if k = i \<and> map_of ids i = None then Some \<lparr>loaded = False, pins = []\<rparr> else map_of ids k)"
    and "length (pins_set i ids) = (if map_of ids i = None then Suc (length ids) else length ids)"
  using assms by (auto simp: pins_set_def map_add_def split: option.splits)

lemma set_add_pins: "set (pins (add_pins ps st)) = set (pins st) \<union> set ps"
proof -
  have "set (foldl (\<lambda>acc p. if p \<in> set acc then acc else acc @ [p]) acc ps) = set acc \<union> set ps" for acc
    by (induction ps arbitrary: acc) auto
  then show ?thesis by (simp add: add_pins_def)
qed

text \<open>
  With room for one more identity, the pins of a conversation are what memory held and what the
  store holds.
\<close>

lemma pinsFor_room:
  assumes "Suc (length ids) < rawPinIdentities"
    and "\<And>st. map_of ids identity = Some st \<Longrightarrow> \<not> loaded st"
  shows "set (fst (pinsFor h io identity ids s)) =
    (case map_of ids identity of None \<Rightarrow> {} | Some st \<Rightarrow> set (pins st))
    \<union> set (fst (load_slots h io identity [0..<rawPinSlots] s))"
proof -
  obtain ps s1 where ls: "load_slots h io identity [0..<rawPinSlots] s = (ps, s1)" by force
  let ?a = "pins_add identity ps ids"
  have la: "length ?a < rawPinIdentities" and lr: "length ids < rawPinIdentities"
    using assms(1) pins_set_room(2) [of ids identity] by (auto simp: pins_add_def)
  have "map_of ?a identity = Some (add_pins ps (case map_of ids identity of None \<Rightarrow> \<lparr>loaded = False, pins = []\<rparr> | Some st \<Rightarrow> st))"
    by (auto simp: pins_add_def map_of_set_update pins_set_room(1) [OF lr] split: option.splits)
  then show ?thesis using assms(2) ls
    by (auto simp: pinsFor_def pins_load_def Let_def map_of_set_update pins_set_room(1) [OF la] set_add_pins
        split: option.splits)
qed

text \<open>
  The identity that fills the memory loses its pins: \<open>add\<close> takes the last free place, so the call
  of \<open>set\<close> right after it empties the map, and the empty set it makes is marked as loaded.
\<close>

lemma pinsFor_loses:
  assumes "Suc (length ids) = rawPinIdentities" and "map_of ids identity = None"
  shows "fst (pinsFor h io identity ids s) = []"
    and "fst (pinsFor h io' identity (fst (snd (pinsFor h io identity ids s))) s') = []"
proof -
  obtain ps s1 where ls: "load_slots h io identity [0..<rawPinSlots] s = (ps, s1)" by force
  have "length (pins_add identity ps ids) = rawPinIdentities"
    using assms pins_set_room(2) [of ids identity] by (simp add: pins_add_def)
  then have "pins_set identity (pins_add identity ps ids) = [(identity, \<lparr>loaded = False, pins = []\<rparr>)]"
    by (simp add: pins_set_def)
  then have eq: "pinsFor h io identity ids s = ([], [(identity, \<lparr>loaded = True, pins = []\<rparr>)], s1)"
    using assms(2) ls by (simp add: pinsFor_def pins_load_def Let_def set_update_def)
  show "fst (pinsFor h io identity ids s) = []" by (simp add: eq)
  show "fst (pinsFor h io' identity (fst (snd (pinsFor h io identity ids s))) s') = []"
    unfolding eq by (simp add: pinsFor_def)
qed

section \<open>Pins across a restart\<close>

abbreviation slot_key :: "(bytes \<Rightarrow> bytes) \<Rightarrow> bytes \<Rightarrow> nat \<Rightarrow> bytes" where
  "slot_key h identity i \<equiv> prefixCacheKey h rawPinScope (rawPinKey identity i)"

definition pin_row :: "prefix_store \<Rightarrow> bytes \<Rightarrow> bytes \<Rightarrow> bool" where
  "pin_row s k b \<longleftrightarrow> stored s k = Some (RawPinHandle, b) \<and> b \<noteq> []"

lemma Lookup_pin:
  assumes "pin_row s (prefixCacheKey h sc x) b" and "fst db"
  shows "fst (LookupReplacement h db now stale s sc x) = Some (Some b, RawPinHandle)"
proof -
  obtain r where r: "find_row (prefixCacheKey h sc x) (prefix_rows s) = Some r" "row_handle r = RawPinHandle"
      "row_replacement r = b" "b \<noteq> []"
    using assms(1) by (auto simp: pin_row_def stored_def)
  then show ?thesis using assms(2)
    by (simp add: LookupReplacement_def readReplacement_def Let_def RawPinHandle_def RawDecisionHandle_def)
qed

lemma load_slots_reads:
  assumes "\<forall>j. fst (fst (io j))" and "\<forall>j. i \<le> j \<and> j \<le> t \<longrightarrow> (\<exists>b. pin_row s (slot_key h identity j) b)"
    and "i \<le> t" and "t < k" and "pin_row s (slot_key h identity t) b" and "decodeRawPin b = Some p"
  shows "p \<in> set (fst (load_slots h io identity [i..<k] s))"
  using assms
proof (induction "t - i" arbitrary: i s)
  case 0
  then have it: "i = t" by simp
  have "[i..<k] = i # [Suc i..<k]" using 0 by (simp add: upt_conv_Cons)
  moreover obtain db now stale where io: "io i = (db, now, stale)" using prod_cases3 by blast
  moreover have "fst (LookupReplacement h db now stale s rawPinScope (rawPinKey identity i)) = Some (Some b, RawPinHandle)"
    using 0 it io by (intro Lookup_pin) (auto dest: spec [of _ i])
  then obtain s1 where "LookupReplacement h db now stale s rawPinScope (rawPinKey identity i) = (Some (Some b, RawPinHandle), s1)"
    by (metis prod.collapse)
  ultimately show ?case using 0 by (auto split: prod.splits option.splits)
next
  case (Suc d)
  then have "[i..<k] = i # [Suc i..<k]" by (simp add: upt_conv_Cons)
  moreover obtain db now stale where io: "io i = (db, now, stale)" using prod_cases3 by blast
  moreover obtain b' where b': "pin_row s (slot_key h identity i) b'" using Suc.prems(2,3) by auto
  have "fst (LookupReplacement h db now stale s rawPinScope (rawPinKey identity i)) = Some (Some b', RawPinHandle)"
    using Suc.prems(1) b' io by (intro Lookup_pin) (auto dest: spec [of _ i])
  then obtain s1 where l: "LookupReplacement h db now stale s rawPinScope (rawPinKey identity i) = (Some (Some b', RawPinHandle), s1)"
    by (metis prod.collapse)
  have st: "stored s1 = stored s"
    using pc.lookup_content [of h "(db, now, stale)" s rawPinScope "rawPinKey identity i"] l by simp
  have pr: "pin_row s1 = pin_row s" by (simp add: fun_eq_iff pin_row_def st)
  have "p \<in> set (fst (load_slots h io identity [Suc i..<k] s1))"
    using Suc.prems Suc.hyps(2) by (intro Suc.hyps(1)) (auto simp: pr)
  ultimately show ?case using l by (auto split: prod.splits option.splits)
qed

text \<open>Writing a pin fills the first free slot, and keeps the slots before it.\<close>

lemma pin_slots_fills:
  assumes "\<forall>j. io j = ((True, True, snd (snd (fst (io j)))), snd (io j))" and "store_ok s" and "value \<noteq> []"
    and "identity \<noteq> []"
    and "\<forall>j < k. stored s (slot_key h identity j) = None \<or> (\<exists>b. pin_row s (slot_key h identity j) b)"
    and "\<forall>j < i. \<exists>b. pin_row s (slot_key h identity j) b"
    and "\<exists>j \<ge> i. j < k \<and> (stored s (slot_key h identity j) = None \<or> pin_row s (slot_key h identity j) value)"
  shows "\<exists>t < k. pin_row (pin_slots h io identity value [i..<k] s) (slot_key h identity t) value \<and>
    (\<forall>j \<le> t. \<exists>b. pin_row (pin_slots h io identity value [i..<k] s) (slot_key h identity j) b)"
  using assms
proof (induction "k - i" arbitrary: i s)
  case 0
  then show ?case by auto
next
  case (Suc d)
  let ?key = "slot_key h identity"
  have cons: "[i..<k] = i # [Suc i..<k]" using Suc.hyps(2) by (simp add: upt_conv_Cons)
  have ik: "i < k" using Suc.hyps(2) by simp
  obtain ev now where io: "io i = ((True, True, ev), now)" using Suc.prems(1) by (metis prod.collapse)
  let ?R = "RememberReplacement h (True, True, ev) now s rawPinScope (rawPinKey identity i) (Some value) RawPinHandle"
  let ?u = "upsert_row (?key i) RawPinHandle value now s"
  obtain b where b: "pin_row ?u (?key i) b" "stored s (?key i) = None \<longrightarrow> b = value" "pin_row s (?key i) b \<or> b = value"
    using Suc.prems(3,5) ik by (cases "stored s (?key i)") (auto simp: pin_row_def stored_upsert)
  then obtain r where r: "find_row (?key i) (prefix_rows ?u) = Some r" "row_handle r = RawPinHandle" "row_replacement r = b"
    by (auto simp: pin_row_def stored_def)
  have key: "rawPinKey identity i \<noteq> []" "rawPinScope \<noteq> []" "RawPinHandle \<noteq> []" "RawPinHandle \<noteq> RawDecisionHandle"
    by (simp_all add: rawPinKey_def rawPinScope_def RawPinHandle_def RawDecisionHandle_def)
  have R: "?R = (Inr (Some b), evictPrefixReplacements ev ?u)"
    using r key b(1) Suc.prems(3)
    by (simp add: RememberReplacement_def readReplacement_def Let_def pin_row_def)
  have ok: "store_ok (evictPrefixReplacements ev ?u)" using Suc.prems(2) by (intro evict_ok upsert_ok)
  have keep: "pin_row (evictPrefixReplacements ev ?u) k' c" if "pin_row ?u k' c" for k' c
    using that stored_evict_pin [OF upsert_ok [OF Suc.prems(2)]] by (auto simp: pin_row_def)
  have old: "pin_row ?u k' c" if "pin_row s k' c" for k' c
    using that by (auto simp: pin_row_def intro: upsert_pin)
  show ?case
  proof (cases "b = value")
    case True
    then have "pin_slots h io identity value [i..<k] s = evictPrefixReplacements ev ?u"
      using R io by (simp add: cons)
    moreover have "\<forall>j \<le> i. \<exists>c. pin_row (evictPrefixReplacements ev ?u) (?key j) c"
      using keep old b(1) Suc.prems(6) by (metis le_neq_implies_less)
    ultimately show ?thesis using ik keep [OF b(1)] True by auto
  next
    case False
    then have filled: "pin_row s (?key i) b" "stored s (?key i) \<noteq> None" using b by auto
    then have u: "stored ?u = stored s" by (auto simp: stored_upsert)
    let ?s = "evictPrefixReplacements ev ?u"
    have some: "stored ?s k' \<in> {None, stored s k'}" for k' using stored_evict_some [of ev ?u k'] u by simp
    have step: "pin_slots h io identity value [i..<k] s = pin_slots h io identity value [Suc i..<k] ?s"
      using R io False by (simp add: cons)
    have "\<exists>t < k. pin_row (pin_slots h io identity value [Suc i..<k] ?s) (?key t) value \<and>
        (\<forall>j \<le> t. \<exists>b. pin_row (pin_slots h io identity value [Suc i..<k] ?s) (?key j) b)"
    proof (rule Suc.hyps(1))
      show "d = k - Suc i" using Suc.hyps(2) by simp
      show "\<forall>j < k. stored ?s (?key j) = None \<or> (\<exists>b. pin_row ?s (?key j) b)"
        using Suc.prems(5) keep old some by (metis insert_iff empty_iff)
      show "\<forall>j < Suc i. \<exists>b. pin_row ?s (?key j) b"
        using Suc.prems(6) keep old filled(1) by (metis less_Suc_eq)
      obtain j where j: "i \<le> j" "j < k" "stored s (?key j) = None \<or> pin_row s (?key j) value"
        using Suc.prems(7) by blast
      then have "j \<noteq> i" using filled False by (auto simp: pin_row_def)
      moreover have "stored ?s (?key j) = None \<or> pin_row ?s (?key j) value"
        using j(3) some [of "?key j"] keep old by auto
      ultimately show "\<exists>j \<ge> Suc i. j < k \<and> (stored ?s (?key j) = None \<or> pin_row ?s (?key j) value)"
        using j by (intro exI [of _ j]) auto
    qed (use Suc.prems ok in auto)
    then show ?thesis by (simp only: step)
  qed
qed

lemma pin_slots_ok: "store_ok s \<Longrightarrow> store_ok (pin_slots h io identity value slots s)"
proof (induction slots arbitrary: s)
  case (Cons slot slots)
  obtain db now where io: "io slot = (db, now)" using prod.exhaust by blast
  obtain a s1 where r: "RememberReplacement h db now s rawPinScope (rawPinKey identity slot) (Some value) RawPinHandle = (a, s1)"
    by force
  have "store_ok s1"
    using pc.remember_ok [OF Cons.prems, of h "(db, now)" rawPinScope "rawPinKey identity slot" "Some value" RawPinHandle] r
    by simp
  then show ?case using Cons.IH [of s1] io r by (auto split: sum.splits)
qed simp

lemma load_slots_store:
  "stored (snd (load_slots h io identity slots s)) = stored s \<and>
     (store_ok s \<longrightarrow> store_ok (snd (load_slots h io identity slots s)))"
proof (induction slots arbitrary: s)
  case (Cons slot slots)
  obtain db now stale where io: "io slot = (db, now, stale)" using prod_cases3 by blast
  obtain hit s1 where l: "LookupReplacement h db now stale s rawPinScope (rawPinKey identity slot) = (hit, s1)" by force
  have "stored s1 = stored s" "store_ok s \<longrightarrow> store_ok s1"
    using pc.lookup_content [of h "(db, now, stale)" s rawPinScope "rawPinKey identity slot"]
      pc.lookup_ok [of s h "(db, now, stale)" rawPinScope "rawPinKey identity slot"] l by auto
  then show ?case using Cons [of s1] io l by (auto split: option.splits prod.splits)
qed simp

lemma pinsFor_store:
  "stored (snd (snd (pinsFor h io identity ids s))) = stored s \<and>
     (store_ok s \<longrightarrow> store_ok (snd (snd (pinsFor h io identity ids s))))"
  using load_slots_store [of h io identity "[0..<rawPinSlots]" s]
  by (auto simp: pinsFor_def pins_load_def Let_def split: option.splits prod.splits)

text \<open>The slots of an identity, as the store may hold them: pins or nothing, and a place for the pin.\<close>

definition slots_ready :: "(bytes \<Rightarrow> bytes) \<Rightarrow> bytes \<Rightarrow> bytes \<Rightarrow> prefix_store \<Rightarrow> bool" where
  "slots_ready h identity value s \<longleftrightarrow> store_ok s
     \<and> (\<forall>j < rawPinSlots. stored s (slot_key h identity j) = None \<or> (\<exists>b. pin_row s (slot_key h identity j) b))
     \<and> (\<exists>j < rawPinSlots. stored s (slot_key h identity j) = None \<or> pin_row s (slot_key h identity j) value)"

lemma pin_row_stays: "pc.cache_steps h s t \<Longrightarrow> store_ok s \<Longrightarrow> pin_row s k b \<Longrightarrow> pin_row t k b"
  by (auto simp: pin_row_def intro: pc.pin_stays)

lemma coverage_ge:
  "p \<in> set ps \<Longrightarrow> P p \<Longrightarrow> f p \<le> foldl (\<lambda>n p. if P p then max n (f p) else n) (z :: nat) ps"
proof (induction ps arbitrary: z)
  case (Cons q ps)
  have ge: "z \<le> foldl (\<lambda>n p. if P p then max n (f p) else n) z ps" for z
    by (induction ps arbitrary: z) (auto intro: order_trans [OF max.cobounded1])
  show ?case
  proof (cases "p = q")
    case True
    then show ?thesis using Cons.prems ge [of "max z (f p)"] by auto
  qed (use Cons in auto)
qed simp

text \<open>
  A pin written to the store is found again by a process that starts later, whatever other calls
  the store has served in between.
\<close>

lemma pin_found_again:
  assumes "\<forall>j. rio j = ((True, True, snd (snd (fst (rio j)))), snd (rio j))" and "slots_ready h identity (encode p) s"
    and "identity \<noteq> []" and "0 < pin_n p" and "length (pin_digest p) = 32"
    and "pc.cache_steps h (pin_slots h rio identity (encode p) [0..<rawPinSlots] s) t" and "\<forall>j. fst (fst (io j))"
  shows "p \<in> set (fst (pinsFor h io identity [] t))"
proof -
  let ?s = "pin_slots h rio identity (encode p) [0..<rawPinSlots] s"
  have ne: "encode p \<noteq> []" using assms(5) by (auto simp: encode_def)
  have "\<exists>i < rawPinSlots. pin_row ?s (slot_key h identity i) (encode p) \<and>
      (\<forall>j \<le> i. \<exists>b. pin_row ?s (slot_key h identity j) b)"
    using assms(2) by (intro pin_slots_fills [OF assms(1) _ ne assms(3)]) (auto simp: slots_ready_def)
  then obtain i where i: "i < rawPinSlots" "pin_row ?s (slot_key h identity i) (encode p)"
      "\<forall>j \<le> i. \<exists>b. pin_row ?s (slot_key h identity j) b" by blast
  have "store_ok ?s" using assms(2) unfolding slots_ready_def by (blast intro: pin_slots_ok)
  then have stay: "pin_row ?s k b \<Longrightarrow> pin_row t k b" for k b using pin_row_stays [OF assms(6)] by blast
  have "p \<in> set (fst (load_slots h io identity [0..<rawPinSlots] t))"
    using i stay by (intro load_slots_reads [OF assms(7) _ _ i(1) _ pin_roundtrip [OF assms(4,5)]]) blast+
  then show ?thesis using pinsFor_room [of "[]" identity h io t] by (simp add: rawPinIdentities_def)
qed

section \<open>Lineages\<close>

definition lineages_ok :: "lineages \<Rightarrow> bool" where
  "lineages_ok l \<longleftrightarrow> fifo_inv (forms l) (lineage_order l) lineageMemory"

lemma lineage_put_ok: "lineages_ok l \<Longrightarrow> lineages_ok (snd (lineage_put d f l))"
proof (cases "forms l d")
  case (Some g)
  assume "lineages_ok l"
  with Some show ?thesis by (auto simp: lineage_put_def lineages_ok_def fifo_inv_def)
next
  case None
  assume ok: "lineages_ok l"
  then have d: "d \<notin> set (lineage_order l)" and m: "0 < lineageMemory" using None by (auto simp: lineages_ok_def fifo_inv_def)
  show ?thesis
  proof (cases "lineage_order l")
    case Nil
    then show ?thesis using ok None m by (auto simp: lineage_put_def lineages_ok_def fifo_inv_def Let_def)
  next
    case (Cons x xs)
    then show ?thesis using ok None d by (auto simp: lineage_put_def lineages_ok_def fifo_inv_def Let_def)
  qed
qed

text \<open>The first real form of a prefix wins: it is never replaced, only forgotten.\<close>

lemma lineage_first_wins:
  "forms l d = Some f \<Longrightarrow> f \<noteq> lineageAbsent \<Longrightarrow> forms (snd (lineage_put d' f' l)) d \<in> {Some f, None}"
  by (auto simp: lineage_put_def Let_def split: option.splits)

lemma lineage_put_room:
  "length (lineage_order l) < lineageMemory \<Longrightarrow> forms l d = Some f \<Longrightarrow> f \<noteq> lineageAbsent \<Longrightarrow>
     forms (snd (lineage_put d' f' l)) d = Some f \<and> length (lineage_order (snd (lineage_put d' f' l))) \<le> Suc (length (lineage_order l))"
  by (auto simp: lineage_put_def Let_def split: option.splits)

lemma longest_step:
  "\<exists>g l1 s1. longest_from h io cs low (Suc k) l s =
     (if g \<noteq> lineageAbsent then ((low + Suc k, g), l1, s1) else longest_from h io cs low k l1 s1)"
  unfolding longest_from.simps(2) Let_def case_prod_beta by blast

lemma longest_range:
  "longest_from h io cs low k l s = ((n, form), l', s') \<Longrightarrow>
     (n = 0 \<and> form = lineageAbsent) \<or> (low < n \<and> n \<le> low + k \<and> form \<noteq> lineageAbsent)"
proof (induction k arbitrary: l s)
  case (Suc k)
  obtain g l1 s1 where "longest_from h io cs low (Suc k) l s =
      (if g \<noteq> lineageAbsent then ((low + Suc k, g), l1, s1) else longest_from h io cs low k l1 s1)"
    using longest_step by metis
  then show ?case using Suc.prems Suc.IH [of l1 s1] by (auto split: if_splits)
qed simp

text \<open>A lineage in memory is not passed over for a shorter one.\<close>

lemma longest_wins:
  assumes "longest_from h io cs low k l s = ((n, form), l', s')"
    and "low < m" and "m \<le> low + k" and "forms l (digestComponents h (take m cs)) = Some f" and "f \<noteq> lineageAbsent"
    and "length (lineage_order l) + k \<le> lineageMemory"
  shows "m \<le> n"
  using assms
proof (induction k arbitrary: l s)
  case (Suc k)
  let ?d = "digestComponents h (take (low + Suc k) cs)"
  show ?case
  proof (cases "m = low + Suc k")
    case True
    then show ?thesis using Suc.prems by (simp add: Let_def)
  next
    case False
    then have m: "m \<le> low + k" using Suc.prems(3) by simp
    show ?thesis
    proof (cases "forms l ?d")
      case (Some g)
      then show ?thesis using Suc.prems Suc.IH [of l s] m by (auto simp: Let_def split: if_splits)
    next
      case None
      obtain db now stale where io: "io (low + Suc k) = (db, now, stale)" using prod_cases3 by blast
      obtain hit s2 where lk: "LookupReplacement h db now stale s lineageScope ?d = (hit, s2)" by force
      define g where "g = (case hit of Some (Some [v], hn) \<Rightarrow> if hn = lineageHandle then v else lineageAbsent
          | _ \<Rightarrow> lineageAbsent)"
      let ?l = "snd (lineage_put ?d g l)"
      have step: "longest_from h io cs low (Suc k) l s =
          (if g \<noteq> lineageAbsent then ((low + Suc k, g), ?l, s2) else longest_from h io cs low k ?l s2)"
        using None io lk by (simp add: Let_def g_def)
      have room: "forms ?l (digestComponents h (take m cs)) = Some f" "length (lineage_order ?l) + k \<le> lineageMemory"
        using lineage_put_room [OF _ Suc.prems(4,5), of ?d g] Suc.prems(6) by auto
      show ?thesis
      proof (cases "g = lineageAbsent")
        case True
        then show ?thesis using Suc.IH [of ?l s2] Suc.prems(1,2,5) m room step by simp
      next
        case False
        then show ?thesis using Suc.prems(1) m step by simp
      qed
    qed
  qed
qed simp

end
