(* ===== verification/Prefix_Monitor.thy ===== *)
theory Prefix_Monitor
  imports Raw_Pin
begin

text \<open>
  The tripwire of the cache invariant (proxy/internal/gateway/prefix_monitor.go): when the client
  bytes of a request repeat a prefix an earlier accepted request cached, the forwarded bytes must
  repeat what was forwarded then. Each session keeps anchors, the digests of both views of an
  accepted request's cached prefix; a request is compared with those it extends. A nil monitor is
  \<open>None\<close>; the digest of a component is \<open>sum256\<close> of it.
\<close>

record prefixAnchor =
  anchor_client :: "bytes list"
  anchor_forwarded :: "bytes list"
  anchor_raw :: bool
  anchor_seq :: nat

record prefixMonitor =
  last_anchors :: "bytes \<rightharpoonup> prefixAnchor list"
  session_order :: "bytes list"
  session_cap :: nat

datatype bustCause =
    NoCause
  | bustCauseClient
  | bustCauseCaveman
  | bustCauseRawRetry
  | bustCauseLeverFreeze
  | bustCauseStreamSwitch

definition defaultPrefixMonitorCap :: nat where
  "defaultPrefixMonitorCap = 8192"

definition maxAnchorsPerSession :: nat where
  "maxAnchorsPerSession = 16"

definition conversationComponents :: int where
  "conversationComponents = 3"

definition newPrefixMonitor :: prefixMonitor where
  "newPrefixMonitor = \<lparr>last_anchors = Map.empty, session_order = [], session_cap = defaultPrefixMonitorCap\<rparr>"

record observation =
  obs_client :: "bytes list"
  obs_forwarded :: "bytes list"
  obs_cached :: int
  obs_rebase :: bustCause
  obs_pinned :: int
  obs_followed :: int
  obs_rollover :: int
  obs_sent :: nat
  obs_accepted :: nat

definition digestEach :: "(bytes \<Rightarrow> bytes) \<Rightarrow> bytes list \<Rightarrow> bytes list" where
  "digestEach sum256 cs = map sum256 cs"

fun commonPrefixLen :: "'a list \<Rightarrow> 'a list \<Rightarrow> nat" where
  "commonPrefixLen (x # xs) (y # ys) = (if x = y then Suc (commonPrefixLen xs ys) else 0)"
| "commonPrefixLen _ _ = 0"

definition monitor_put :: "bytes \<Rightarrow> prefixAnchor list \<Rightarrow> prefixMonitor \<Rightarrow> prefixMonitor" where
  "monitor_put session anchors m =
     (if last_anchors m session = None then
        (case evict (session_cap m) (session_order m @ [session]) (last_anchors m) of
           (ord, l) \<Rightarrow> m\<lparr>last_anchors := l(session \<mapsto> anchors), session_order := ord\<rparr>)
      else m\<lparr>last_anchors := (last_anchors m)(session \<mapsto> anchors)\<rparr>)"

interpretation pm: fifo_store last_anchors session_order session_cap monitor_put
  by unfold_locales (auto simp: monitor_put_def split: prod.splits)

text \<open>The loop over the anchors of the session: what it knows after some of them.\<close>

record verdict =
  v_cause :: bustCause
  v_index :: int
  v_closest :: int
  v_repeated :: bool
  v_kept :: "prefixAnchor list"

definition observe_anchor :: "observation \<Rightarrow> prefixAnchor \<Rightarrow> verdict \<Rightarrow> prefixAnchor \<Rightarrow> verdict" where
  "observe_anchor ob cur v a =
     (if anchor_seq a > obs_sent ob \<and> obs_sent ob > 0 then v\<lparr>v_kept := v_kept v @ [a]\<rparr>
      else
        let rebase = (obs_rebase ob \<noteq> NoCause);
            n = commonPrefixLen (anchor_client a) (anchor_client cur);
            repeats = (n = length (anchor_client a));
            v1 = (if int n > v_closest v \<or> (int n = v_closest v \<and> repeats \<and> \<not> v_repeated v)
                  then v\<lparr>v_closest := int n, v_repeated := repeats\<rparr> else v)
        in if \<not> repeats then v1\<lparr>v_kept := v_kept v1 @ [a]\<rparr>
           else
             let preserved = commonPrefixLen (anchor_forwarded a) (anchor_forwarded cur);
                 diverged = (preserved < length (anchor_forwarded a)
                   \<and> (rebase \<or> obs_pinned ob < int (length (anchor_forwarded a)))
                   \<and> \<not> (anchor_raw a \<and> obs_followed ob > int (length (anchor_client a))));
                 v2 = (if diverged \<and> (v_index v1 < 0 \<or> int preserved < v_index v1)
                       then v1\<lparr>v_index := int preserved,
                               v_cause := (if rebase then obs_rebase ob
                                           else if int preserved < obs_rollover ob then bustCauseLeverFreeze
                                           else bustCauseCaveman)\<rparr>
                       else v1)
             in if rebase \<or> obs_cached ob \<ge> int (length (anchor_client a)) then v2
                else v2\<lparr>v_kept := v_kept v2 @ [a]\<rparr>)"

definition observe :: "(bytes \<Rightarrow> bytes) \<Rightarrow> prefixMonitor option \<Rightarrow> bytes \<Rightarrow> observation \<Rightarrow>
    (bustCause \<times> int) \<times> prefixMonitor option" where
  "observe sum256 mon session ob =
     (case mon of
        None \<Rightarrow> ((NoCause, -1), None)
      | Some m \<Rightarrow>
          if session = [] \<or> obs_client ob = [] \<or> length (obs_forwarded ob) \<noteq> length (obs_client ob)
              \<or> obs_cached ob < 0 \<or> obs_cached ob > int (length (obs_client ob))
          then ((NoCause, -1), mon)
          else
            let cur = \<lparr>anchor_client = digestEach sum256 (obs_client ob),
                       anchor_forwarded = digestEach sum256 (obs_forwarded ob),
                       anchor_raw = (obs_rebase ob \<noteq> NoCause \<or> obs_pinned ob > 0), anchor_seq = obs_accepted ob\<rparr>;
                anchors = (case last_anchors m session of None \<Rightarrow> [] | Some as \<Rightarrow> as);
                v = foldl (observe_anchor ob cur)
                  \<lparr>v_cause = NoCause, v_index = -1, v_closest = -1, v_repeated = False, v_kept = []\<rparr> anchors;
                verdict = (if v_cause v = NoCause \<and> \<not> v_repeated v \<and> v_closest v \<ge> conversationComponents
                           then (bustCauseClient, v_closest v) else (v_cause v, v_index v));
                c = nat (obs_cached ob);
                kept1 = (if obs_cached ob > 0
                         then v_kept v @ [cur\<lparr>anchor_client := take c (anchor_client cur),
                                              anchor_forwarded := take c (anchor_forwarded cur)\<rparr>]
                         else v_kept v);
                kept = (if length kept1 > maxAnchorsPerSession
                        then drop (length kept1 - maxAnchorsPerSession) kept1 else kept1)
            in (verdict, Some (monitor_put session kept m)))"

fun longest_raw :: "bytes list \<Rightarrow> prefixAnchor list \<Rightarrow> nat \<Rightarrow> nat" where
  "longest_raw digests [] n = n"
| "longest_raw digests (a # as) n =
     (if \<not> anchor_raw a \<or> length (anchor_client a) \<le> n \<or> length (anchor_client a) > length digests
      then longest_raw digests as n
      else if commonPrefixLen (anchor_client a) digests = length (anchor_client a)
      then longest_raw digests as (length (anchor_client a))
      else longest_raw digests as n)"

definition longestRawAnchor :: "(bytes \<Rightarrow> bytes) \<Rightarrow> prefixMonitor option \<Rightarrow> bytes \<Rightarrow> bytes list \<Rightarrow> nat" where
  "longestRawAnchor sum256 mon session client =
     (case mon of
        None \<Rightarrow> 0
      | Some m \<Rightarrow>
          if session = [] then 0
          else longest_raw (digestEach sum256 client)
                 (case last_anchors m session of None \<Rightarrow> [] | Some as \<Rightarrow> as) 0)"

section \<open>Accepted requests\<close>

record acceptance =
  rawRetry :: bool
  streamRaw :: bool
  stripFrozen :: bool
  acc_sent :: nat
  acc_session :: bytes

record monitor_server =
  pin_state :: pin_server
  monitor :: "prefixMonitor option"
  prefixSeq :: nat

text \<open>
  \<open>observeCachedPrefix\<close>: the model name is the second part of the tripwire's key. The log lines are
  not modelled; \<open>io\<close> holds the outcomes of the store calls (pins, lineages, the two writes).
\<close>

definition observeCachedPrefix :: "(bytes \<Rightarrow> bytes) \<Rightarrow>
    (nat \<Rightarrow> lookup_io) \<times> (nat \<Rightarrow> lookup_io) \<times> remember_io \<times> remember_io \<Rightarrow>
    (bytes \<Rightarrow> (bytes list \<times> nat) option) \<Rightarrow> nat \<Rightarrow> bytes \<Rightarrow> bytes \<Rightarrow> bytes \<Rightarrow> acceptance \<Rightarrow> monitor_server \<Rightarrow>
    bustCause \<times> monitor_server" where
  "observeCachedPrefix sum256 io split shared model body accepted a srv0 =
     (case io of (pio, lio, rio1, rio2) \<Rightarrow>
      let sent = (accepted = body) in
      if sent \<and> acc_session a = [] \<and> \<not> streamRaw a then (NoCause, srv0)
      else case split body of
        None \<Rightarrow> (NoCause, srv0)
      | Some (client, cached) \<Rightarrow>
          let key = acc_session a @ [CHR 0x00] @ model;
              srv1 = srv0\<lparr>prefixSeq := prefixSeq srv0 + 1\<rparr>;
              rebase = (if rawRetry a then bustCauseRawRetry
                        else if streamRaw a then bustCauseStreamSwitch else NoCause);
              srv2 = (if \<not> rawRetry a \<and> streamRaw a
                      then srv1\<lparr>pin_state := recordLineage sum256 rio1 shared client cached lineageStreamRaw (pin_state srv1)\<rparr>
                      else srv1);
              rollover = (if stripFrozen a then int shared else 0);
              res =
                (if sent then
                   (case rawPinCoverage sum256 pio shared client (pin_state srv2) of
                      (pinned, ps) \<Rightarrow> Some (client, cached, int pinned, 0, srv2\<lparr>pin_state := ps\<rparr>))
                 else case split accepted of
                   None \<Rightarrow> None
                 | Some (forwarded, forwardedCached) \<Rightarrow>
                     if length forwarded \<noteq> length client then None
                     else if take cached forwarded = take cached client
                     then Some (forwarded, forwardedCached, 0, 0, srv2)
                     else
                       let raw = longestRawAnchor sum256 (monitor srv2) key client;
                           (followed, srv3) =
                             (if raw > 0 then
                                (case prefixCache (pin_state srv2) of
                                   None \<Rightarrow> (0, srv2)
                                 | Some s \<Rightarrow>
                                     (case longestLineage sum256 lio client raw (srv_lineages (pin_state srv2)) s of
                                        ((n, form), l, s1) \<Rightarrow>
                                          (if form = lineageReplaced then int n else 0,
                                           srv2\<lparr>pin_state := (pin_state srv2)\<lparr>srv_lineages := l, prefixCache := Some s1\<rparr>\<rparr>)))
                              else (0, srv2))
                       in Some (forwarded, forwardedCached, 0, followed,
                            srv3\<lparr>pin_state := recordLineage sum256 rio2 shared client cached lineageReplaced (pin_state srv3)\<rparr>))
          in (case res of
                None \<Rightarrow> (NoCause, srv2)
              | Some (forwarded, forwardedCached, pinned, followed, srv4) \<Rightarrow>
                  if acc_session a = [] then (NoCause, srv4)
                  else
                    let oc = (if rebase \<noteq> NoCause \<and> cached \<le> shared then 0 else int cached);
                        ob = \<lparr>obs_client = client, obs_forwarded = forwarded, obs_cached = oc, obs_rebase = rebase,
                              obs_pinned = pinned, obs_followed = followed, obs_rollover = rollover,
                              obs_sent = acc_sent a, obs_accepted = prefixSeq srv1\<rparr>
                    in (case observe sum256 (monitor srv4) key ob of
                          ((cause, _), m) \<Rightarrow>
                            (if forwardedCached < cached then bustCauseCaveman else cause, srv4\<lparr>monitor := m\<rparr>))))"

end
