(* ===== verification/Prefix_Monitor_Facts.thy ===== *)
theory Prefix_Monitor_Facts
  imports Prefix_Monitor
begin

text \<open>
  The tripwire neither cries wolf nor sleeps: with forwarded bytes equal to the client's it never
  blames the proxy, and a request that repeats an anchor but forwards other bytes is reported. Its
  memory is bounded in sessions and in anchors per session.
\<close>

section \<open>Common prefixes\<close>

lemma commonPrefixLen_le: "commonPrefixLen xs ys \<le> length xs"
  by (induction xs ys rule: commonPrefixLen.induct) auto

lemma commonPrefixLen_take: "take (commonPrefixLen xs ys) xs = take (commonPrefixLen xs ys) ys"
  by (induction xs ys rule: commonPrefixLen.induct) auto

lemma commonPrefixLen_full: "commonPrefixLen xs ys = length xs \<longleftrightarrow> prefix xs ys"
  by (induction xs ys rule: commonPrefixLen.induct) auto

lemma commonPrefixLen_differ: "commonPrefixLen xs ys < length xs \<longleftrightarrow> \<not> prefix xs ys"
  using commonPrefixLen_le [of xs ys] commonPrefixLen_full [of xs ys] by linarith

section \<open>One anchor\<close>

definition bound_anchor :: "observation \<Rightarrow> prefixAnchor \<Rightarrow> bool" where
  "bound_anchor ob a \<longleftrightarrow> \<not> (anchor_seq a > obs_sent ob \<and> obs_sent ob > 0)"

text \<open>The anchor binds the request, the request repeats it and forwards something else.\<close>

definition diverges :: "observation \<Rightarrow> prefixAnchor \<Rightarrow> prefixAnchor \<Rightarrow> bool" where
  "diverges ob cur a \<longleftrightarrow> bound_anchor ob a \<and> prefix (anchor_client a) (anchor_client cur)
     \<and> \<not> prefix (anchor_forwarded a) (anchor_forwarded cur)
     \<and> (obs_rebase ob \<noteq> NoCause \<or> obs_pinned ob < int (length (anchor_forwarded a)))
     \<and> \<not> (anchor_raw a \<and> obs_followed ob > int (length (anchor_client a)))"

definition kept_anchor :: "observation \<Rightarrow> prefixAnchor \<Rightarrow> prefixAnchor \<Rightarrow> bool" where
  "kept_anchor ob cur a \<longleftrightarrow> \<not> bound_anchor ob a \<or> \<not> prefix (anchor_client a) (anchor_client cur)
     \<or> \<not> (obs_rebase ob \<noteq> NoCause \<or> obs_cached ob \<ge> int (length (anchor_client a)))"

definition bust_cause :: "observation \<Rightarrow> nat \<Rightarrow> bustCause" where
  "bust_cause ob n =
     (if obs_rebase ob \<noteq> NoCause then obs_rebase ob
      else if int n < obs_rollover ob then bustCauseLeverFreeze else bustCauseCaveman)"

lemma observe_anchor_kept: "v_kept (observe_anchor ob cur v a) = v_kept v @ (if kept_anchor ob cur a then [a] else [])"
  by (auto simp: observe_anchor_def kept_anchor_def bound_anchor_def Let_def commonPrefixLen_full)

lemma observe_anchor_cause:
  "(v_cause (observe_anchor ob cur v a), v_index (observe_anchor ob cur v a)) =
     (let n = commonPrefixLen (anchor_forwarded a) (anchor_forwarded cur) in
      if diverges ob cur a \<and> (v_index v < 0 \<or> int n < v_index v) then (bust_cause ob n, int n)
      else (v_cause v, v_index v))"
  by (auto simp: observe_anchor_def diverges_def bound_anchor_def bust_cause_def Let_def commonPrefixLen_full
      commonPrefixLen_differ)

section \<open>All anchors\<close>

lemma observe_kept: "v_kept (foldl (observe_anchor ob cur) v as) = v_kept v @ filter (kept_anchor ob cur) as"
  by (induction as arbitrary: v) (auto simp: observe_anchor_kept)

definition verdict_ok :: "observation \<Rightarrow> verdict \<Rightarrow> bool" where
  "verdict_ok ob v \<longleftrightarrow> (v_index v < 0 \<and> v_cause v = NoCause) \<or>
     (0 \<le> v_index v \<and> v_cause v = bust_cause ob (nat (v_index v)))"

lemma observe_anchor_ok: "verdict_ok ob v \<Longrightarrow> verdict_ok ob (observe_anchor ob cur v a)"
  using observe_anchor_cause [of ob cur v a] by (auto simp: verdict_ok_def Let_def split: if_splits)

lemma observe_fold_ok: "verdict_ok ob v \<Longrightarrow> verdict_ok ob (foldl (observe_anchor ob cur) v as)"
  by (induction as arbitrary: v) (auto intro: observe_anchor_ok)

text \<open>No diverging anchor, no verdict; a diverging one is reported at its difference or before it.\<close>

lemma observe_quiet:
  "\<forall>a \<in> set as. \<not> diverges ob cur a \<Longrightarrow>
     v_cause (foldl (observe_anchor ob cur) v as) = v_cause v \<and> v_index (foldl (observe_anchor ob cur) v as) = v_index v"
proof (induction as arbitrary: v)
  case (Cons a as)
  then show ?case using observe_anchor_cause [of ob cur v a] by (simp add: Let_def)
qed simp

lemma observe_anchor_mono:
  "0 \<le> v_index v \<Longrightarrow> 0 \<le> v_index (observe_anchor ob cur v a) \<and> v_index (observe_anchor ob cur v a) \<le> v_index v"
  using observe_anchor_cause [of ob cur v a] by (auto simp: Let_def split: if_splits)

lemma observe_fold_mono:
  "0 \<le> v_index v \<Longrightarrow> 0 \<le> v_index (foldl (observe_anchor ob cur) v as)
     \<and> v_index (foldl (observe_anchor ob cur) v as) \<le> v_index v"
proof (induction as arbitrary: v)
  case (Cons a as)
  then show ?case using observe_anchor_mono [of v ob cur a] by fastforce
qed simp

lemma observe_hits:
  assumes "a \<in> set as" and "diverges ob cur a"
  shows "0 \<le> v_index (foldl (observe_anchor ob cur) v as)
    \<and> v_index (foldl (observe_anchor ob cur) v as) \<le> int (commonPrefixLen (anchor_forwarded a) (anchor_forwarded cur))"
  using assms
proof (induction as arbitrary: v)
  case (Cons b as)
  show ?case
  proof (cases "b = a")
    case True
    have "0 \<le> v_index (observe_anchor ob cur v a)
      \<and> v_index (observe_anchor ob cur v a) \<le> int (commonPrefixLen (anchor_forwarded a) (anchor_forwarded cur))"
      using observe_anchor_cause [of ob cur v a] Cons.prems(2) by (auto simp: Let_def split: if_splits)
    then show ?thesis using True observe_fold_mono [of "observe_anchor ob cur v a" ob cur as] by auto
  next
    case False
    then show ?thesis using Cons by simp
  qed
qed simp

section \<open>Requests\<close>

definition valid_obs :: "bytes \<Rightarrow> observation \<Rightarrow> bool" where
  "valid_obs session ob \<longleftrightarrow> session \<noteq> [] \<and> obs_client ob \<noteq> [] \<and> length (obs_forwarded ob) = length (obs_client ob)
     \<and> 0 \<le> obs_cached ob \<and> obs_cached ob \<le> int (length (obs_client ob))"

definition cur_anchor :: "(bytes \<Rightarrow> bytes) \<Rightarrow> observation \<Rightarrow> prefixAnchor" where
  "cur_anchor h ob = \<lparr>anchor_client = digestEach h (obs_client ob), anchor_forwarded = digestEach h (obs_forwarded ob),
     anchor_raw = (obs_rebase ob \<noteq> NoCause \<or> obs_pinned ob > 0), anchor_seq = obs_accepted ob\<rparr>"

definition session_anchors :: "prefixMonitor \<Rightarrow> bytes \<Rightarrow> prefixAnchor list" where
  "session_anchors m session = (case last_anchors m session of None \<Rightarrow> [] | Some as \<Rightarrow> as)"

definition new_anchor :: "(bytes \<Rightarrow> bytes) \<Rightarrow> observation \<Rightarrow> prefixAnchor" where
  "new_anchor h ob = (cur_anchor h ob)\<lparr>anchor_client := take (nat (obs_cached ob)) (digestEach h (obs_client ob)),
     anchor_forwarded := take (nat (obs_cached ob)) (digestEach h (obs_forwarded ob))\<rparr>"

definition start_verdict :: verdict where
  "start_verdict = \<lparr>v_cause = NoCause, v_index = -1, v_closest = -1, v_repeated = False, v_kept = []\<rparr>"

definition keep_newest :: "prefixAnchor list \<Rightarrow> prefixAnchor list" where
  "keep_newest as = drop (length as - maxAnchorsPerSession) as"

lemma observe_unfold:
  assumes "valid_obs session ob"
  shows "observe h (Some m) session ob =
    (let v = foldl (observe_anchor ob (cur_anchor h ob)) start_verdict (session_anchors m session) in
     (if v_cause v = NoCause \<and> \<not> v_repeated v \<and> v_closest v \<ge> conversationComponents
      then (bustCauseClient, v_closest v) else (v_cause v, v_index v),
      Some (monitor_put session (keep_newest (filter (kept_anchor ob (cur_anchor h ob)) (session_anchors m session) @
        (if obs_cached ob > 0 then [new_anchor h ob] else []))) m)))"
proof -
  have k: "(if maxAnchorsPerSession < length xs then drop (length xs - maxAnchorsPerSession) xs else xs) = keep_newest xs"
    for xs by (auto simp: keep_newest_def)
  show ?thesis
    using assms observe_kept [of ob "cur_anchor h ob" start_verdict "session_anchors m session"]
    unfolding observe_def valid_obs_def option.case Let_def k cur_anchor_def [symmetric] session_anchors_def [symmetric]
      start_verdict_def [symmetric]
    by (auto simp: new_anchor_def start_verdict_def cur_anchor_def)
qed

lemma observe_invalid: "\<not> valid_obs session ob \<Longrightarrow> observe h (Some m) session ob = ((NoCause, -1), Some m)"
  by (auto simp: observe_def valid_obs_def)

section \<open>Bounded memory\<close>

definition anchors_ok :: "prefixAnchor list \<Rightarrow> bool" where
  "anchors_ok as \<longleftrightarrow> length as \<le> maxAnchorsPerSession
     \<and> (\<forall>a \<in> set as. length (anchor_forwarded a) = length (anchor_client a) \<and> anchor_client a \<noteq> [])"

definition monitor_ok :: "prefixMonitor \<Rightarrow> bool" where
  "monitor_ok m \<longleftrightarrow> fifo_inv (last_anchors m) (session_order m) (session_cap m)
     \<and> session_cap m = defaultPrefixMonitorCap \<and> (\<forall>as \<in> ran (last_anchors m). anchors_ok as)"

lemma new_monitor_ok: "monitor_ok newPrefixMonitor"
  by (simp add: monitor_ok_def newPrefixMonitor_def fifo_inv_def defaultPrefixMonitorCap_def)

lemma set_keep_newest: "set (keep_newest as) \<subseteq> set as"
  by (auto simp: keep_newest_def dest: in_set_dropD)

lemma length_keep_newest: "length (keep_newest as) \<le> maxAnchorsPerSession"
  by (simp add: keep_newest_def)

lemma last_in_keep_newest: "as \<noteq> [] \<Longrightarrow> last as \<in> set (keep_newest as)"
proof -
  assume "as \<noteq> []"
  then have "length as - maxAnchorsPerSession < length as" by (simp add: maxAnchorsPerSession_def)
  then have "keep_newest as \<noteq> []" "last (keep_newest as) = last as" by (simp_all add: keep_newest_def)
  then show ?thesis by (metis last_in_set)
qed

lemma session_anchors_ok: "monitor_ok m \<Longrightarrow> anchors_ok (session_anchors m session)"
  by (auto simp: monitor_ok_def session_anchors_def anchors_ok_def ran_def maxAnchorsPerSession_def split: option.splits)

lemma monitor_put_ran: "ran (last_anchors (monitor_put session as m)) \<subseteq> insert as (ran (last_anchors m))"
proof
  fix x
  assume "x \<in> ran (last_anchors (monitor_put session as m))"
  then obtain k where k: "last_anchors (monitor_put session as m) k = Some x" by (auto simp: ran_def)
  show "x \<in> insert as (ran (last_anchors m))"
  proof (cases "k = session")
    case False
    then have "last_anchors m k = Some x" using pm.get_put_other [OF False, of as m] k by auto
    then show ?thesis by (auto simp: ran_def)
  qed (use k in simp)
qed

lemma new_anchor_ok:
  "valid_obs session ob \<Longrightarrow> 0 < obs_cached ob \<Longrightarrow>
     length (anchor_forwarded (new_anchor h ob)) = length (anchor_client (new_anchor h ob)) \<and> anchor_client (new_anchor h ob) \<noteq> []"
  by (auto simp: valid_obs_def new_anchor_def digestEach_def)

lemma observe_keeps_ok:
  assumes "monitor_ok m" and "observe h (Some m) session ob = (r, m')"
  shows "\<exists>m1. m' = Some m1 \<and> monitor_ok m1"
proof (cases "valid_obs session ob")
  case True
  let ?all = "filter (kept_anchor ob (cur_anchor h ob)) (session_anchors m session) @
    (if obs_cached ob > 0 then [new_anchor h ob] else [])"
  have all: "\<forall>a \<in> set ?all. length (anchor_forwarded a) = length (anchor_client a) \<and> anchor_client a \<noteq> []"
    using session_anchors_ok [OF assms(1), of session] new_anchor_ok [OF True] by (auto simp: anchors_ok_def)
  then have new: "anchors_ok (keep_newest ?all)"
    using set_keep_newest [of ?all] length_keep_newest [of ?all] unfolding anchors_ok_def by blast
  have "monitor_ok (monitor_put session (keep_newest ?all) m)"
    using assms(1) pm.put_inv [of m session "keep_newest ?all"] monitor_put_ran [of session "keep_newest ?all" m] new
    by (auto simp: monitor_ok_def pm.put_cap)
  moreover have "m' = Some (monitor_put session (keep_newest ?all) m)"
    using assms(2) observe_unfold [OF True, of h m] by (simp add: Let_def)
  ultimately show ?thesis by blast
qed (use assms observe_invalid in auto)

section \<open>No false alarm\<close>

definition honest :: "prefixMonitor \<Rightarrow> bool" where
  "honest m \<longleftrightarrow> (\<forall>as \<in> ran (last_anchors m). \<forall>a \<in> set as. anchor_forwarded a = anchor_client a)"

lemma session_anchors_honest: "honest m \<Longrightarrow> a \<in> set (session_anchors m session) \<Longrightarrow> anchor_forwarded a = anchor_client a"
  unfolding honest_def session_anchors_def by (cases "last_anchors m session") (auto intro: ranI)

lemma observe_honest:
  assumes "honest m" and "obs_forwarded ob = obs_client ob" and "observe h (Some m) session ob = ((cause, i), m')"
  shows "cause \<in> {NoCause, bustCauseClient} \<and> (\<exists>m1. m' = Some m1 \<and> honest m1)"
proof (cases "valid_obs session ob")
  case True
  let ?cur = "cur_anchor h ob" and ?as = "session_anchors m session"
  have "\<forall>a \<in> set ?as. \<not> diverges ob ?cur a"
    using session_anchors_honest [OF assms(1)] assms(2) by (auto simp: diverges_def cur_anchor_def)
  from observe_quiet [OF this, of start_verdict] have "v_cause (foldl (observe_anchor ob ?cur) start_verdict ?as) = NoCause"
    by (simp add: start_verdict_def)
  then have c: "cause \<in> {NoCause, bustCauseClient}"
    using assms(3) observe_unfold [OF True, of h m] by (auto simp: Let_def split: if_splits)
  let ?all = "filter (kept_anchor ob ?cur) ?as @ (if obs_cached ob > 0 then [new_anchor h ob] else [])"
  have "\<forall>a \<in> set ?all. anchor_forwarded a = anchor_client a"
    using session_anchors_honest [OF assms(1)] assms(2) by (auto simp: new_anchor_def)
  then have "\<forall>a \<in> set (keep_newest ?all). anchor_forwarded a = anchor_client a"
    using set_keep_newest [of ?all] by blast
  then have "honest (monitor_put session (keep_newest ?all) m)"
    using assms(1) monitor_put_ran [of session "keep_newest ?all" m] unfolding honest_def by blast
  moreover have "m' = Some (monitor_put session (keep_newest ?all) m)"
    using assms(3) observe_unfold [OF True, of h m] by (simp add: Let_def)
  ultimately show ?thesis using c by blast
qed (use assms observe_invalid in auto)

text \<open>A run of the monitor over accepted requests.\<close>

definition monitor_run :: "(bytes \<Rightarrow> bytes) \<Rightarrow> (bytes \<times> observation) list \<Rightarrow> prefixMonitor option" where
  "monitor_run h obs = foldl (\<lambda>m (session, ob). snd (observe h m session ob)) (Some newPrefixMonitor) obs"

lemma monitor_run_snoc: "monitor_run h (obs @ [(session, ob)]) = snd (observe h (monitor_run h obs) session ob)"
  by (simp add: monitor_run_def)

lemma monitor_run_ok: "\<exists>m. monitor_run h obs = Some m \<and> monitor_ok m"
proof (induction obs rule: rev_induct)
  case Nil
  then show ?case using new_monitor_ok by (simp add: monitor_run_def)
next
  case (snoc x obs)
  obtain session ob where x: "x = (session, ob)" by force
  from snoc obtain m where m: "monitor_run h obs = Some m" "monitor_ok m" by blast
  obtain r m' where o: "observe h (Some m) session ob = (r, m')" using prod.exhaust by blast
  show ?case using observe_keeps_ok [OF m(2) o] m(1) o by (simp add: x monitor_run_snoc)
qed

lemma monitor_run_honest:
  "\<forall>(session, ob) \<in> set obs. obs_forwarded ob = obs_client ob \<Longrightarrow> \<exists>m. monitor_run h obs = Some m \<and> honest m"
proof (induction obs rule: rev_induct)
  case Nil
  then show ?case by (simp add: monitor_run_def newPrefixMonitor_def honest_def)
next
  case (snoc x obs)
  obtain session ob where x: "x = (session, ob)" by force
  from snoc obtain m where m: "monitor_run h obs = Some m" "honest m" by auto
  obtain c i m' where o: "observe h (Some m) session ob = ((c, i), m')" by (metis prod.exhaust)
  show ?case using observe_honest [OF m(2) _ o] snoc.prems m(1) o by (simp add: x monitor_run_snoc)
qed

section \<open>Detection\<close>

lemma observe_detects:
  assumes "valid_obs session ob" and "a \<in> set (session_anchors m session)" and "diverges ob (cur_anchor h ob) a"
    and "obs_rebase ob = NoCause" and "obs_rollover ob = 0"
  shows "\<exists>i m'. observe h (Some m) session ob = ((bustCauseCaveman, i), m') \<and>
    0 \<le> i \<and> i \<le> int (commonPrefixLen (anchor_forwarded a) (digestEach h (obs_forwarded ob)))"
proof -
  let ?v = "foldl (observe_anchor ob (cur_anchor h ob)) start_verdict (session_anchors m session)"
  have hit: "0 \<le> v_index ?v" "v_index ?v \<le> int (commonPrefixLen (anchor_forwarded a) (digestEach h (obs_forwarded ob)))"
    using observe_hits [OF assms(2,3), of start_verdict] by (auto simp: cur_anchor_def)
  have "verdict_ok ob ?v" by (rule observe_fold_ok) (simp add: verdict_ok_def start_verdict_def)
  then have "v_cause ?v = bustCauseCaveman"
    using hit assms(4,5) by (auto simp: verdict_ok_def bust_cause_def)
  then show ?thesis using observe_unfold [OF assms(1), of h m] hit by (simp add: Let_def)
qed

text \<open>What an accepted request cached is an anchor of its session from then on.\<close>

lemma observe_records:
  assumes "valid_obs session ob" and "0 < obs_cached ob" and "observe h (Some m) session ob = (r, Some m')"
  shows "new_anchor h ob \<in> set (session_anchors m' session)"
proof -
  let ?all = "filter (kept_anchor ob (cur_anchor h ob)) (session_anchors m session) @ [new_anchor h ob]"
  have "m' = monitor_put session (keep_newest ?all) m"
    using assms observe_unfold [OF assms(1), of h m] by (simp add: Let_def)
  then show ?thesis using last_in_keep_newest [of ?all] by (simp add: session_anchors_def)
qed

end
