(* ===== verification/Cache_Warm.thy ===== *)
theory Cache_Warm
  imports Json_Splice Regexp
begin

text \<open>
  Prompt-cache warming (proxy/internal/gateway/cache_warm.go): the warmer's state, the methods that
  hold its lock, the callback of its timers and the machine they make with their callers.

  Times are nanoseconds since 1970 and durations nanoseconds, both as \<open>int\<close>. The entries the code
  reaches by pointer are the cells of \<open>ents\<close>, so a callback keeps the entry it was made for after
  the map has forgotten it. A timer and the callback it runs are one job: armed until its time
  comes, started from then until it has the lock, sending while the warm is in flight and the lock
  is free. \<open>Stop\<close> takes an armed job away and has no effect on a started one.
\<close>

section \<open>Time\<close>

type_synonym time = int

abbreviation second :: int where
  "second \<equiv> 1000000000"

abbreviation minute :: int where
  "minute \<equiv> 60 * second"

abbreviation hour :: int where
  "hour \<equiv> 3600 * second"

text \<open>The zero \<open>time.Time\<close>, the difference of two times (it saturates), and signed 64-bit products.\<close>

definition zero_time :: time where
  "zero_time = - 62135596800 * second"

definition time_sub :: "time \<Rightarrow> time \<Rightarrow> int" where
  "time_sub t u = max (- (2 ^ 63)) (min (2 ^ 63 - 1) (t - u))"

definition wrap64 :: "int \<Rightarrow> int" where
  "wrap64 x = (x + 2 ^ 63) mod 2 ^ 64 - 2 ^ 63"

text \<open>Division rounds towards zero.\<close>

definition go_quot :: "int \<Rightarrow> int \<Rightarrow> int" where
  "go_quot a b = sgn a * sgn b * (\<bar>a\<bar> div \<bar>b\<bar>)"

definition cacheWarmHorizon :: int where
  "cacheWarmHorizon = 60 * minute"

definition cacheWarmBusyRetry :: int where
  "cacheWarmBusyRetry = 5 * second"

definition cacheWarmMaxEntries :: nat where
  "cacheWarmMaxEntries = 1024"

definition cacheWarmMaxBytes :: int where
  "cacheWarmMaxBytes = 256 * 2 ^ 20"

definition cacheWarmGone :: int where
  "cacheWarmGone = 2 * hour"

definition cacheWarmMaxConcurrent :: nat where
  "cacheWarmMaxConcurrent = 2"

definition cacheWarmJitter :: int where
  "cacheWarmJitter = 5 * second"

definition cacheWarmOverloadPause :: int where
  "cacheWarmOverloadPause = 5 * minute"

definition cacheWarmDelay :: "int \<Rightarrow> int" where
  "cacheWarmDelay ttl = (if ttl \<le> 10 * second then 0 else min (go_quot (wrap64 (ttl * 9)) 10) (ttl - 10 * second))"

section \<open>State\<close>

text \<open>
  The held request, as far as the warmer reads it; the URL, the headers and the metadata only feed
  the send.
\<close>

record warmRequest =
  req_body :: bytes
  req_ttl :: int
  req_cred :: bytes
  req_plan :: "bool list"

record warmEntry =
  ent_key :: bytes
  ent_gen :: nat
  ent_timer :: "nat option"
  ent_req :: "warmRequest option"
  ent_class :: bytes
  ent_lastStart :: time
  ent_pending :: bool

record warmGap =
  gap_class :: bytes
  gap_d :: int
  gap_silent :: bool

datatype job_state = Armed time | Started | Sending time

record job =
  job_id :: nat
  job_addr :: nat
  job_gen :: nat
  job_req :: warmRequest
  job_k :: nat
  job_deadline :: time
  job_horizon :: time
  job_state :: job_state

record cacheWarmer =
  ents :: "warmEntry list"
  entries :: "bytes \<rightharpoonup> nat"
  lru :: "nat list"
  bytes_held :: int
  real_count :: "bytes \<Rightarrow> int"
  pausedUntil :: "bytes \<rightharpoonup> time"
  swept :: time
  sending :: int
  jobs :: "job list"
  next_job :: nat

definition newCacheWarmer :: cacheWarmer where
  "newCacheWarmer = \<lparr>ents = [], entries = Map.empty, lru = [], bytes_held = 0, real_count = (\<lambda>_. 0),
     pausedUntil = Map.empty, swept = zero_time, sending = 0, jobs = [], next_job = 0\<rparr>"

definition ent_upd :: "nat \<Rightarrow> (warmEntry \<Rightarrow> warmEntry) \<Rightarrow> cacheWarmer \<Rightarrow> cacheWarmer" where
  "ent_upd a f w = w\<lparr>ents := (ents w)[a := f (ents w ! a)]\<rparr>"

section \<open>Methods under the lock\<close>

definition releaseLocked :: "nat \<Rightarrow> cacheWarmer \<Rightarrow> cacheWarmer" where
  "releaseLocked a w =
     (case ent_req (ents w ! a) of
        None \<Rightarrow> w
      | Some req \<Rightarrow> ent_upd a (\<lambda>e. e\<lparr>ent_req := None\<rparr>) (w\<lparr>bytes_held := bytes_held w - int (length (req_body req))\<rparr>))"

text \<open>\<open>timer.Stop\<close>.\<close>

fun is_armed :: "job_state \<Rightarrow> bool" where
  "is_armed (Armed at) = True"
| "is_armed _ = False"

lemma is_armed_iff: "is_armed st \<longleftrightarrow> (\<exists>at. st = Armed at)"
  by (cases st) auto

definition stop_timer :: "nat option \<Rightarrow> cacheWarmer \<Rightarrow> cacheWarmer" where
  "stop_timer timer w =
     (case timer of
        None \<Rightarrow> w
      | Some t \<Rightarrow> w\<lparr>jobs := filter (\<lambda>j. \<not> (job_id j = t \<and> is_armed (job_state j))) (jobs w)\<rparr>)"

definition stopLocked :: "nat \<Rightarrow> cacheWarmer \<Rightarrow> cacheWarmer" where
  "stopLocked a w =
     releaseLocked a (ent_upd a (\<lambda>e. e\<lparr>ent_gen := ent_gen e + 1, ent_timer := None\<rparr>)
       (stop_timer (ent_timer (ents w ! a)) w))"

definition warm_begin :: "bytes \<Rightarrow> time \<Rightarrow> cacheWarmer \<Rightarrow> warmGap list \<times> cacheWarmer" where
  "warm_begin key now w0 =
     (let w = w0\<lparr>real_count := (real_count w0)(key := real_count w0 key + 1)\<rparr> in
      case entries w key of
        None \<Rightarrow> ([], w)
      | Some a \<Rightarrow>
          let e = ents w ! a in
          if ent_pending e then
            ([\<lparr>gap_class = ent_class e, gap_d = max 0 (time_sub now (ent_lastStart e)), gap_silent = False\<rparr>],
             stopLocked a (ent_upd a (\<lambda>e. e\<lparr>ent_pending := False\<rparr>) w))
          else ([], stopLocked a w))"

text \<open>The function \<open>begin\<close> returns.\<close>

definition warm_end :: "bytes \<Rightarrow> cacheWarmer \<Rightarrow> cacheWarmer" where
  "warm_end key w = w\<lparr>real_count := (real_count w)(key := max 0 (real_count w key - 1))\<rparr>"

definition backoff :: "bytes \<Rightarrow> time \<Rightarrow> time \<Rightarrow> cacheWarmer \<Rightarrow> cacheWarmer" where
  "backoff cred until now w =
     (if cred = [] then w
      else
        let paused = (\<lambda>c. case pausedUntil w c of Some t \<Rightarrow> if t > now then Some t else None | None \<Rightarrow> None);
            at = (case paused cred of Some t \<Rightarrow> t | None \<Rightarrow> zero_time)
        in w\<lparr>pausedUntil := (if until > at then paused(cred \<mapsto> until) else paused)\<rparr>)"

definition pausedLocked :: "bytes \<Rightarrow> time \<Rightarrow> cacheWarmer \<Rightarrow> bool" where
  "pausedLocked cred now w \<longleftrightarrow>
     cred \<noteq> [] \<and> now < (case pausedUntil w cred of Some t \<Rightarrow> t | None \<Rightarrow> zero_time)"

definition dropLocked :: "nat \<Rightarrow> time \<Rightarrow> cacheWarmer \<Rightarrow> warmGap list \<times> cacheWarmer" where
  "dropLocked a now w =
     (let e = ents w ! a;
          seen = (if ent_pending e
                  then [\<lparr>gap_class = ent_class e, gap_d = time_sub now (ent_lastStart e), gap_silent = True\<rparr>] else []);
          w1 = stopLocked a (if ent_pending e then ent_upd a (\<lambda>e. e\<lparr>ent_pending := False\<rparr>) w else w)
      in (seen, w1\<lparr>lru := remove1 a (lru w1), entries := (entries w1)(ent_key e := None)\<rparr>))"

text \<open>\<open>AfterFunc\<close>: a new job for the callback, armed for \<open>at\<close>.\<close>

definition after_func :: "time \<Rightarrow> job \<Rightarrow> cacheWarmer \<Rightarrow> cacheWarmer" where
  "after_func at cb w =
     ent_upd (job_addr cb) (\<lambda>e. e\<lparr>ent_timer := Some (next_job w)\<rparr>)
       (w\<lparr>jobs := jobs w @ [cb\<lparr>job_id := next_job w, job_state := Armed at\<rparr>], next_job := next_job w + 1\<rparr>)"

definition scheduleLocked :: "nat \<Rightarrow> nat \<Rightarrow> warmRequest \<Rightarrow> nat \<Rightarrow> time \<Rightarrow> time \<Rightarrow> time \<Rightarrow> int \<Rightarrow> cacheWarmer \<Rightarrow>
    bool \<times> cacheWarmer" where
  "scheduleLocked a gen req k from horizon now jitter w =
     (let delay = cacheWarmDelay (req_ttl req); due = from + delay in
      if delay = 0 \<or> k \<ge> length (req_plan req) \<or> \<not> req_plan req ! k then (False, w)
      else if due > horizon then (False, w)
      else
        (True, after_func (now + max 0 (time_sub due now - jitter))
           \<lparr>job_id = 0, job_addr = a, job_gen = gen, job_req = req, job_k = k,
             job_deadline = due + go_quot (req_ttl req - delay) 2, job_horizon = horizon, job_state = Started\<rparr> w))"

text \<open>
  \<open>sweepLocked\<close>. The code ranges over a map, in no fixed order; the model goes through the entries by
  recency.
\<close>

definition sweep_entry :: "time \<Rightarrow> warmGap list \<times> cacheWarmer \<Rightarrow> nat \<Rightarrow> warmGap list \<times> cacheWarmer" where
  "sweep_entry now acc a =
     (case acc of (seen, w) \<Rightarrow>
        let e = ents w ! a in
        if ent_pending e \<and> time_sub now (ent_lastStart e) > cacheWarmGone then
          (seen @ [\<lparr>gap_class = ent_class e, gap_d = -1, gap_silent = False\<rparr>], ent_upd a (\<lambda>e. e\<lparr>ent_pending := False\<rparr>) w)
        else (seen, w))"

definition sweepLocked :: "time \<Rightarrow> cacheWarmer \<Rightarrow> warmGap list \<times> cacheWarmer" where
  "sweepLocked now w =
     (if time_sub now (swept w) < minute then ([], w)
      else foldl (sweep_entry now) ([], w\<lparr>swept := now\<rparr>) (lru w))"

lemma lru_simps [simp]:
  "lru (ent_upd a f w) = lru w" "lru (stop_timer t w) = lru w" "lru (releaseLocked a w) = lru w"
  "lru (stopLocked a w) = lru w" "lru (after_func at cb w) = lru w"
  by (simp_all add: ent_upd_def stop_timer_def releaseLocked_def stopLocked_def after_func_def split: option.splits)

lemma lru_dropLocked [simp]: "lru (snd (dropLocked a now w)) = remove1 a (lru w)"
  by (simp add: dropLocked_def Let_def)

text \<open>The eviction at the end of \<open>arm\<close>.\<close>

function arm_evict :: "nat \<Rightarrow> time \<Rightarrow> warmGap list \<Rightarrow> cacheWarmer \<Rightarrow> warmGap list \<times> cacheWarmer" where
  "arm_evict a now seen w =
     (if (length (lru w) > cacheWarmMaxEntries \<or> bytes_held w > cacheWarmMaxBytes) \<and> lru w \<noteq> [] then
        let old = last (lru w) in
        if old = a \<and> length (lru w) = 1 then (seen, w)
        else (case dropLocked old now w of (gaps, w1) \<Rightarrow> arm_evict a now (seen @ gaps) w1)
      else (seen, w))"
  by pat_completeness auto
termination
proof (relation "measure (\<lambda>(a, now, seen, w). length (lru w))", goal_cases)
  case (2 a now seen w old gaps w1)
  have "lru w1 = remove1 old (lru w)" using lru_dropLocked [of old now w] 2(4) by (metis snd_conv)
  moreover have "old \<in> set (lru w)" "lru w \<noteq> []" using 2(1,2) by auto
  ultimately show ?case by (simp add: length_remove1)
qed simp

declare arm_evict.simps [simp del]

definition arm_entry :: "bytes \<Rightarrow> cacheWarmer \<Rightarrow> nat \<times> cacheWarmer" where
  "arm_entry key w =
     (case entries w key of
        None \<Rightarrow>
          (length (ents w),
           w\<lparr>ents := ents w @ [\<lparr>ent_key = key, ent_gen = 0, ent_timer = None, ent_req = None, ent_class = [],
                               ent_lastStart = zero_time, ent_pending = False\<rparr>],
             lru := length (ents w) # lru w, entries := (entries w)(key \<mapsto> length (ents w))\<rparr>)
      | Some a \<Rightarrow> (a, w\<lparr>lru := a # remove1 a (lru w)\<rparr>))"

definition warm_arm :: "bytes \<Rightarrow> bytes \<Rightarrow> warmRequest option \<Rightarrow> time \<Rightarrow> time \<Rightarrow> int \<Rightarrow> cacheWarmer \<Rightarrow>
    warmGap list \<times> cacheWarmer" where
  "warm_arm key class req startedAt now jitter w0 =
     (case sweepLocked now w0 of (seen, w1) \<Rightarrow>
        (case arm_entry key w1 of (a, w2) \<Rightarrow>
           let w3 = ent_upd a (\<lambda>e. e\<lparr>ent_class := class, ent_lastStart := startedAt, ent_pending := (class \<noteq> [])\<rparr>)
                 (stopLocked a w2);
               w4 = (case req of
                   None \<Rightarrow> w3
                 | Some r \<Rightarrow>
                     let w5 = ent_upd a (\<lambda>e. e\<lparr>ent_req := Some r\<rparr>)
                           (w3\<lparr>bytes_held := bytes_held w3 + int (length (req_body r))\<rparr>)
                     in (case scheduleLocked a (ent_gen (ents w5 ! a)) r 1 startedAt (startedAt + cacheWarmHorizon) now jitter w5 of
                           (ok, w6) \<Rightarrow> if ok then w6 else releaseLocked a w6))
           in arm_evict a now seen w4))"

definition warm_close :: "time \<Rightarrow> cacheWarmer \<Rightarrow> warmGap list \<times> cacheWarmer" where
  "warm_close now w =
     foldl (\<lambda>(seen, w) a. case dropLocked a now w of (gaps, w1) \<Rightarrow> (seen @ gaps, w1)) ([], w) (lru w)"

section \<open>Callbacks\<close>

text \<open>The runtime starts an armed job.\<close>

definition start_job :: "nat \<Rightarrow> cacheWarmer \<Rightarrow> cacheWarmer" where
  "start_job i w = w\<lparr>jobs := map (\<lambda>j. if job_id j = i then j\<lparr>job_state := Started\<rparr> else j) (jobs w)\<rparr>"

definition remove_job :: "nat \<Rightarrow> cacheWarmer \<Rightarrow> cacheWarmer" where
  "remove_job i w = w\<lparr>jobs := filter (\<lambda>j. job_id j \<noteq> i) (jobs w)\<rparr>"

text \<open>The first critical section of \<open>fire\<close>, up to the send.\<close>

definition fire :: "job \<Rightarrow> time \<Rightarrow> bool \<Rightarrow> cacheWarmer \<Rightarrow> cacheWarmer" where
  "fire cb now enabled w =
     (let a = job_addr cb in
      if ent_gen (ents w ! a) \<noteq> job_gen cb then remove_job (job_id cb) w
      else
        let w1 = ent_upd a (\<lambda>e. e\<lparr>ent_timer := None\<rparr>) w in
        if now > job_deadline cb \<or> \<not> enabled \<or> pausedLocked (req_cred (job_req cb)) now w1
        then releaseLocked a (remove_job (job_id cb) w1)
        else if real_count w1 (ent_key (ents w1 ! a)) > 0 \<or> sending w1 \<ge> int cacheWarmMaxConcurrent then
          (if now + cacheWarmBusyRetry > job_deadline cb then releaseLocked a (remove_job (job_id cb) w1)
           else after_func (now + cacheWarmBusyRetry) cb (remove_job (job_id cb) w1))
        else
          w1\<lparr>sending := sending w1 + 1,
             jobs := map (\<lambda>j. if job_id j = job_id cb then j\<lparr>job_state := Sending now\<rparr> else j) (jobs w1)\<rparr>)"

text \<open>The second one, after the send, which started at \<open>at\<close>; \<open>again\<close> is false when the send panicked.\<close>

definition fire_done :: "job \<Rightarrow> time \<Rightarrow> bool \<Rightarrow> time \<Rightarrow> int \<Rightarrow> cacheWarmer \<Rightarrow> cacheWarmer" where
  "fire_done cb at again now jitter w =
     (let a = job_addr cb; w1 = remove_job (job_id cb) (w\<lparr>sending := sending w - 1\<rparr>) in
      if ent_gen (ents w1 ! a) \<noteq> job_gen cb then w1
      else if \<not> again then releaseLocked a w1
      else (case scheduleLocked a (job_gen cb) (job_req cb) (job_k cb + 1) at (job_horizon cb) now jitter w1 of
              (ok, w2) \<Rightarrow> if ok then w2 else releaseLocked a w2))"

section \<open>The machine\<close>

text \<open>
  The warmer among its callers: the wall clock, which may be set back, and the real requests that
  have begun and not ended.
\<close>

record warm_world =
  warmer :: cacheWarmer
  inflight :: "bytes list"
  wall :: time

datatype warm_event =
    Tick time
  | Begin bytes
  | End bytes
  | Arm bytes bytes "warmRequest option" time int
  | Expire nat
  | Fire nat bool
  | Done nat bool int
  | Backoff bytes time
  | Close

inductive warm_step :: "warm_world \<Rightarrow> warm_event \<Rightarrow> warm_world \<Rightarrow> bool" where
  tick: "warm_step s (Tick t) (s\<lparr>wall := t\<rparr>)"
| begins: "warm_step s (Begin k) (s\<lparr>warmer := snd (warm_begin k (wall s) (warmer s)), inflight := k # inflight s\<rparr>)"
| ends: "k \<in> set (inflight s) \<Longrightarrow>
    warm_step s (End k) (s\<lparr>warmer := warm_end k (warmer s), inflight := remove1 k (inflight s)\<rparr>)"
| arms: "0 \<le> jitter \<Longrightarrow> jitter < cacheWarmJitter \<Longrightarrow>
    warm_step s (Arm k c r start jitter) (s\<lparr>warmer := snd (warm_arm k c r start (wall s) jitter (warmer s))\<rparr>)"
| expires: "j \<in> set (jobs (warmer s)) \<Longrightarrow> job_state j = Armed at \<Longrightarrow> at \<le> wall s \<Longrightarrow>
    warm_step s (Expire (job_id j)) (s\<lparr>warmer := start_job (job_id j) (warmer s)\<rparr>)"
| fires: "j \<in> set (jobs (warmer s)) \<Longrightarrow> job_state j = Started \<Longrightarrow>
    warm_step s (Fire (job_id j) enabled) (s\<lparr>warmer := fire j (wall s) enabled (warmer s)\<rparr>)"
| sent: "j \<in> set (jobs (warmer s)) \<Longrightarrow> job_state j = Sending at \<Longrightarrow> 0 \<le> jitter \<Longrightarrow> jitter < cacheWarmJitter \<Longrightarrow>
    warm_step s (Done (job_id j) again jitter) (s\<lparr>warmer := fire_done j at again (wall s) jitter (warmer s)\<rparr>)"
| backs: "warm_step s (Backoff c until) (s\<lparr>warmer := backoff c until (wall s) (warmer s)\<rparr>)"
| closes: "warm_step s Close (s\<lparr>warmer := snd (warm_close (wall s) (warmer s))\<rparr>)"

inductive warm_run :: "warm_world \<Rightarrow> warm_event list \<Rightarrow> warm_world \<Rightarrow> bool" where
  run_nil: "warm_run s [] s"
| run_snoc: "warm_run s evs t \<Longrightarrow> warm_step t ev u \<Longrightarrow> warm_run s (evs @ [ev]) u"

definition warm_init :: "time \<Rightarrow> warm_world" where
  "warm_init t = \<lparr>warmer = newCacheWarmer, inflight = [], wall = t\<rparr>"

end
