(* ===== verification/Cache_Warm_Inv.thy ===== *)
theory Cache_Warm_Inv
  imports Cache_Warm
begin

text \<open>
  The invariant of the warmer. A request (its body and credential) is held exactly while one job
  can still send it; the bytes held are counted; a job of an entry that was stopped is stale; the
  number of sends in flight and the memory are bounded.
\<close>

section \<open>The invariant\<close>

definition held :: "warmEntry \<Rightarrow> int" where
  "held e = (case ent_req e of None \<Rightarrow> 0 | Some r \<Rightarrow> int (length (req_body r)))"

text \<open>The jobs that still count for an entry.\<close>

definition current :: "cacheWarmer \<Rightarrow> nat \<Rightarrow> job list" where
  "current w a = filter (\<lambda>j. job_addr j = a \<and> job_gen j = ent_gen (ents w ! a)) (jobs w)"

definition is_sending :: "job \<Rightarrow> bool" where
  "is_sending j \<longleftrightarrow> (\<exists>t. job_state j = Sending t)"

definition planned :: "job \<Rightarrow> bool" where
  "planned j \<longleftrightarrow> job_k j < length (req_plan (job_req j)) \<and> req_plan (job_req j) ! job_k j"

definition job_ok :: "cacheWarmer \<Rightarrow> job \<Rightarrow> bool" where
  "job_ok w j \<longleftrightarrow> job_id j < next_job w \<and> job_addr j < length (ents w)
     \<and> job_gen j \<le> ent_gen (ents w ! job_addr j) \<and> planned j"

definition jobs_inv :: "cacheWarmer \<Rightarrow> bool" where
  "jobs_inv w \<longleftrightarrow> distinct (map job_id (jobs w)) \<and> (\<forall>j \<in> set (jobs w). job_ok w j)"

definition timer_inv :: "cacheWarmer \<Rightarrow> bool" where
  "timer_inv w \<longleftrightarrow> (\<forall>a < length (ents w). \<forall>t. ent_timer (ents w ! a) = Some t \<longrightarrow>
     t < next_job w \<and> (\<forall>j \<in> set (jobs w). job_id j = t \<longrightarrow> job_addr j = a))"

definition cur_inv :: "cacheWarmer \<Rightarrow> nat \<Rightarrow> bool" where
  "cur_inv w a \<longleftrightarrow> map job_req (current w a) = (case ent_req (ents w ! a) of None \<Rightarrow> [] | Some r \<Rightarrow> [r])"

definition lru_inv :: "cacheWarmer \<Rightarrow> bool" where
  "lru_inv w \<longleftrightarrow> distinct (lru w) \<and> (\<forall>a \<in> set (lru w). a < length (ents w))
     \<and> (\<forall>k a. entries w k = Some a \<longleftrightarrow> a \<in> set (lru w) \<and> ent_key (ents w ! a) = k)"

definition bytes_inv :: "cacheWarmer \<Rightarrow> bool" where
  "bytes_inv w \<longleftrightarrow> bytes_held w = sum_list (map held (ents w))"

definition send_inv :: "cacheWarmer \<Rightarrow> bool" where
  "send_inv w \<longleftrightarrow> sending w = int (length (filter is_sending (jobs w))) \<and> sending w \<le> int cacheWarmMaxConcurrent"

definition base_inv :: "cacheWarmer \<Rightarrow> bool" where
  "base_inv w \<longleftrightarrow> jobs_inv w \<and> timer_inv w \<and> lru_inv w \<and> bytes_inv w \<and> send_inv w"

definition winv :: "cacheWarmer \<Rightarrow> bool" where
  "winv w \<longleftrightarrow> base_inv w \<and> (\<forall>a < length (ents w). cur_inv w a)"

text \<open>The invariant while one entry is being changed.\<close>

definition winv_but :: "nat \<Rightarrow> cacheWarmer \<Rightarrow> bool" where
  "winv_but b w \<longleftrightarrow> base_inv w \<and> b < length (ents w) \<and> (\<forall>a < length (ents w). a \<noteq> b \<longrightarrow> cur_inv w a)"

lemma winv_butI: "winv w \<Longrightarrow> a < length (ents w) \<Longrightarrow> winv_but a w"
  by (simp add: winv_def winv_but_def)

lemma winv_butD: "winv_but a w \<Longrightarrow> cur_inv w a \<Longrightarrow> winv w"
  by (auto simp: winv_def winv_but_def)

section \<open>Updates of one entry\<close>

lemma length_ent_upd [simp]: "length (ents (ent_upd a f w)) = length (ents w)"
  by (simp add: ent_upd_def)

lemma ents_ent_upd: "b < length (ents w) \<Longrightarrow> ents (ent_upd a f w) ! b = (if b = a then f (ents w ! a) else ents w ! b)"
  by (simp add: ent_upd_def nth_list_update)

lemma ent_upd_simps [simp]:
  "entries (ent_upd a f w) = entries w" "bytes_held (ent_upd a f w) = bytes_held w"
  "real_count (ent_upd a f w) = real_count w" "pausedUntil (ent_upd a f w) = pausedUntil w"
  "sending (ent_upd a f w) = sending w" "jobs (ent_upd a f w) = jobs w" "next_job (ent_upd a f w) = next_job w"
  by (simp_all add: ent_upd_def)

lemma sum_list_upd: "k < length xs \<Longrightarrow> sum_list (xs[k := x]) = sum_list xs + x - (xs ! k :: int)"
proof (induction xs arbitrary: k)
  case (Cons y xs)
  then show ?case by (cases k) auto
qed simp

lemma lru_inv_cong:
  assumes "lru_inv w" and "lru w' = lru w" and "entries w' = entries w" and "length (ents w) \<le> length (ents w')"
    and "\<And>b. b < length (ents w) \<Longrightarrow> ent_key (ents w' ! b) = ent_key (ents w ! b)"
  shows "lru_inv w'"
proof -
  have lt: "b < length (ents w)" if "b \<in> set (lru w)" for b using assms(1) that by (simp add: lru_inv_def)
  then have "entries w' k = Some b \<longleftrightarrow> b \<in> set (lru w') \<and> ent_key (ents w' ! b) = k" for k b
    using assms by (auto simp: lru_inv_def)
  then show ?thesis using assms lt by (fastforce simp: lru_inv_def)
qed

lemma sum_held_upd:
  "a < length (ents w) \<Longrightarrow>
     sum_list (map held (ents (ent_upd a f w))) = sum_list (map held (ents w)) - held (ents w ! a) + held (f (ents w ! a))"
proof -
  assume a: "a < length (ents w)"
  have "sum_list ((map held (ents w))[a := x]) = sum_list (map held (ents w)) + x - map held (ents w) ! a" for x
    using a by (intro sum_list_upd) simp
  then show ?thesis using a by (simp add: ent_upd_def map_update)
qed

text \<open>An update that keeps the key, the generation and the request.\<close>

lemma ent_upd_base:
  assumes "base_inv w" and "a < length (ents w)"
    and "ent_key (f (ents w ! a)) = ent_key (ents w ! a)" and "ent_gen (ents w ! a) \<le> ent_gen (f (ents w ! a))"
    and "ent_timer (f (ents w ! a)) \<in> {None, ent_timer (ents w ! a)}" and "ent_req (f (ents w ! a)) = ent_req (ents w ! a)"
  shows "base_inv (ent_upd a f w)"
proof -
  have "jobs_inv (ent_upd a f w)"
    using assms(1,2,4) unfolding base_inv_def jobs_inv_def job_ok_def by (force simp: ents_ent_upd)
  moreover have "timer_inv (ent_upd a f w)"
    using assms(1,2,5) unfolding base_inv_def timer_inv_def by (auto simp: ents_ent_upd)
  moreover have "lru_inv (ent_upd a f w)"
    using assms(1,3) by (rule_tac lru_inv_cong [of w]) (auto simp: base_inv_def ents_ent_upd)
  moreover have "held (f (ents w ! a)) = held (ents w ! a)" using assms(6) by (simp add: held_def)
  then have "bytes_inv (ent_upd a f w)"
    using assms(1,2) by (simp add: base_inv_def bytes_inv_def sum_held_upd)
  ultimately show ?thesis using assms(1) by (simp add: base_inv_def send_inv_def)
qed

lemma current_ent_upd:
  "b < length (ents w) \<Longrightarrow> b \<noteq> a \<or> ent_gen (f (ents w ! a)) = ent_gen (ents w ! a) \<Longrightarrow>
     current (ent_upd a f w) b = current w b"
  by (auto simp: current_def ents_ent_upd)

lemma cur_inv_ent_upd:
  "b < length (ents w) \<Longrightarrow>
     b \<noteq> a \<or> (ent_gen (f (ents w ! a)) = ent_gen (ents w ! a) \<and> ent_req (f (ents w ! a)) = ent_req (ents w ! a)) \<Longrightarrow>
     cur_inv (ent_upd a f w) b = cur_inv w b"
  using current_ent_upd [of b w a f] by (cases "b = a") (simp_all add: cur_inv_def ents_ent_upd)

text \<open>Fields the invariant does not look at.\<close>

lemma winv_upd_plain:
  assumes "winv w" and "a < length (ents w)"
    and "\<And>e. ent_key (f e) = ent_key e \<and> ent_gen (f e) = ent_gen e \<and> ent_req (f e) = ent_req e
      \<and> ent_timer (f e) \<in> {None, ent_timer e}"
  shows "winv (ent_upd a f w)"
proof -
  have "base_inv (ent_upd a f w)" using assms by (intro ent_upd_base) (auto simp: winv_def)
  then show ?thesis using assms by (auto simp: winv_def cur_inv_ent_upd)
qed

section \<open>Releasing and stopping\<close>

lemma releaseLocked_simps [simp]:
  "length (ents (releaseLocked a w)) = length (ents w)" "jobs (releaseLocked a w) = jobs w"
  "entries (releaseLocked a w) = entries w" "real_count (releaseLocked a w) = real_count w"
  "sending (releaseLocked a w) = sending w" "next_job (releaseLocked a w) = next_job w"
  by (simp_all add: releaseLocked_def split: option.splits)

lemma ents_releaseLocked:
  "b < length (ents w) \<Longrightarrow> ents (releaseLocked a w) ! b =
     (if b = a then (ents w ! a)\<lparr>ent_req := None\<rparr> else ents w ! b)"
  by (auto simp: releaseLocked_def ent_upd_def nth_list_update split: option.splits)

lemma release_restores:
  assumes "winv_but a w" and "current w a = []"
  shows "winv (releaseLocked a w)"
proof -
  have a: "a < length (ents w)" and base: "base_inv w" using assms(1) by (auto simp: winv_but_def)
  let ?w = "releaseLocked a w"
  have fld: "ent_key (ents ?w ! b) = ent_key (ents w ! b)" "ent_gen (ents ?w ! b) = ent_gen (ents w ! b)"
    "ent_timer (ents ?w ! b) = ent_timer (ents w ! b)" if "b < length (ents w)" for b
    using that by (auto simp: ents_releaseLocked)
  have "jobs_inv ?w" using base fld by (auto simp: base_inv_def jobs_inv_def job_ok_def)
  moreover have "timer_inv ?w" using base fld by (auto simp: base_inv_def timer_inv_def)
  moreover have "lru_inv ?w" using base fld by (rule_tac lru_inv_cong [of w]) (auto simp: base_inv_def)
  moreover have "bytes_inv ?w"
    using base a
    by (cases "ent_req (ents w ! a)")
      (simp_all add: base_inv_def bytes_inv_def releaseLocked_def sum_held_upd held_def ent_upd_def map_update sum_list_upd)
  moreover have "current ?w b = current w b" if "b < length (ents w)" for b
    using fld(2) [OF that] by (simp add: current_def)
  then have "cur_inv ?w b" if "b < length (ents w)" for b
    using that assms by (cases "b = a") (auto simp: cur_inv_def ents_releaseLocked winv_but_def)
  ultimately show ?thesis using base by (simp add: winv_def base_inv_def send_inv_def)
qed

text \<open>Taking jobs away that are not sending.\<close>

lemma filter_jobs_base:
  assumes "base_inv w" and "\<And>j. j \<in> set (jobs w) \<Longrightarrow> \<not> P j \<Longrightarrow> \<not> is_sending j"
  shows "base_inv (w\<lparr>jobs := filter P (jobs w)\<rparr>)"
proof -
  have "filter is_sending (filter P (jobs w)) = filter is_sending (jobs w)"
    unfolding filter_filter by (rule filter_cong) (use assms(2) in auto)
  then show ?thesis using assms(1)
    by (auto simp: base_inv_def jobs_inv_def job_ok_def timer_inv_def lru_inv_def bytes_inv_def send_inv_def
        intro: distinct_map_filter)
qed

lemma current_filter: "current (w\<lparr>jobs := filter P (jobs w)\<rparr>) a = filter P (current w a)"
  by (auto simp: current_def intro: filter_cong)

lemma stop_timer_alt:
  "stop_timer t w = w\<lparr>jobs := filter (\<lambda>j. \<not> (Some (job_id j) = t \<and> (\<exists>at. job_state j = Armed at))) (jobs w)\<rparr>"
  by (cases t) (simp_all add: stop_timer_def is_armed_iff)

lemma stop_timer_simps [simp]:
  "ents (stop_timer t w) = ents w" "entries (stop_timer t w) = entries w" "real_count (stop_timer t w) = real_count w"
  "sending (stop_timer t w) = sending w" "next_job (stop_timer t w) = next_job w" "bytes_held (stop_timer t w) = bytes_held w"
  by (simp_all add: stop_timer_alt)

lemma stop_timer_but:
  assumes "winv_but a w"
  shows "winv_but a (stop_timer (ent_timer (ents w ! a)) w)"
proof -
  let ?t = "ent_timer (ents w ! a)"
  let ?P = "\<lambda>j. \<not> (Some (job_id j) = ?t \<and> (\<exists>at. job_state j = Armed at))"
  have base: "base_inv w" and a: "a < length (ents w)" using assms by (auto simp: winv_but_def)
  have "base_inv (stop_timer ?t w)"
    unfolding stop_timer_alt using base by (rule filter_jobs_base) (auto simp: is_sending_def)
  moreover have "current (stop_timer ?t w) b = current w b" if "b \<noteq> a" for b
  proof -
    have "j \<in> set (current w b) \<Longrightarrow> ?P j" for j
      using base a that by (cases ?t) (auto simp: base_inv_def timer_inv_def current_def)
    then show ?thesis unfolding stop_timer_alt current_filter by (simp add: filter_id_conv)
  qed
  ultimately show ?thesis using assms by (auto simp: winv_but_def cur_inv_def)
qed

lemma ents_stopLocked:
  "a < length (ents w) \<Longrightarrow> b < length (ents w) \<Longrightarrow> ents (stopLocked a w) ! b =
     (if b = a then (ents w ! a)\<lparr>ent_gen := ent_gen (ents w ! a) + 1, ent_timer := None, ent_req := None\<rparr> else ents w ! b)"
  by (simp add: stopLocked_def ents_releaseLocked ents_ent_upd)

lemma stopLocked_simps [simp]:
  "length (ents (stopLocked a w)) = length (ents w)" "entries (stopLocked a w) = entries w"
  "real_count (stopLocked a w) = real_count w" "sending (stopLocked a w) = sending w"
  by (simp_all add: stopLocked_def)

lemma stop_restores:
  assumes "winv_but a w"
  shows "winv (stopLocked a w)"
proof -
  let ?s = "stop_timer (ent_timer (ents w ! a)) w"
  let ?f = "\<lambda>e. e\<lparr>ent_gen := ent_gen e + 1, ent_timer := None\<rparr>"
  have s: "winv_but a ?s" using assms by (rule stop_timer_but)
  then have a: "a < length (ents ?s)" and base: "base_inv ?s" by (auto simp: winv_but_def)
  have "base_inv (ent_upd a ?f ?s)" by (rule ent_upd_base [OF base a]) auto
  moreover have "\<forall>b < length (ents ?s). b \<noteq> a \<longrightarrow> cur_inv (ent_upd a ?f ?s) b"
    using s by (simp add: winv_but_def cur_inv_ent_upd)
  ultimately have but: "winv_but a (ent_upd a ?f ?s)" using a by (simp add: winv_but_def)
  have "\<forall>j \<in> set (jobs ?s). job_addr j = a \<longrightarrow> job_gen j \<le> ent_gen (ents ?s ! a)"
    using base by (auto simp: base_inv_def jobs_inv_def job_ok_def)
  then have "current (ent_upd a ?f ?s) a = []"
    using a by (auto simp: current_def ents_ent_upd filter_empty_conv)
  from release_restores [OF but this] show ?thesis by (simp add: stopLocked_def)
qed

section \<open>Jobs\<close>

lemma after_func_simps [simp]:
  "length (ents (after_func at cb w)) = length (ents w)" "entries (after_func at cb w) = entries w"
  "real_count (after_func at cb w) = real_count w" "sending (after_func at cb w) = sending w"
  "bytes_held (after_func at cb w) = bytes_held w"
  by (simp_all add: after_func_def)

lemma ents_after_func:
  "b < length (ents w) \<Longrightarrow> ents (after_func at cb w) ! b =
     (if b = job_addr cb then (ents w ! b)\<lparr>ent_timer := Some (next_job w)\<rparr> else ents w ! b)"
  by (simp add: after_func_def ent_upd_def nth_list_update)

lemma after_restores:
  assumes "winv_but a w" and "current w a = []" and "ent_req (ents w ! a) = Some (job_req cb)"
    and "job_addr cb = a" and "job_gen cb = ent_gen (ents w ! a)" and "planned cb"
  shows "winv (after_func at cb w)"
proof -
  have a: "a < length (ents w)" and base: "base_inv w" using assms(1) by (auto simp: winv_but_def)
  let ?w = "after_func at cb w" and ?j = "cb\<lparr>job_id := next_job w, job_state := Armed at\<rparr>"
  have jobs: "jobs ?w = jobs w @ [?j]" and nj: "next_job ?w = Suc (next_job w)" by (simp_all add: after_func_def)
  have fld: "ent_key (ents ?w ! b) = ent_key (ents w ! b)" "ent_gen (ents ?w ! b) = ent_gen (ents w ! b)"
    "ent_req (ents ?w ! b) = ent_req (ents w ! b)" if "b < length (ents w)" for b
    using that by (simp_all add: ents_after_func)
  have lt: "job_id j < next_job w" if "j \<in> set (jobs w)" for j
    using base that by (auto simp: base_inv_def jobs_inv_def job_ok_def)
  have "next_job w \<notin> job_id ` set (jobs w)" by (auto dest: lt)
  then have "distinct (map job_id (jobs ?w))" using base by (simp add: base_inv_def jobs_inv_def jobs)
  moreover have "job_ok ?w j" if "j \<in> set (jobs w)" for j
  proof -
    have "job_ok w j" using base that by (simp add: base_inv_def jobs_inv_def)
    then show ?thesis using fld(2) by (simp add: job_ok_def nj)
  qed
  moreover have "job_ok ?w ?j" using assms(4-6) a fld(2) [OF a] by (simp add: job_ok_def nj planned_def)
  ultimately have "jobs_inv ?w" by (simp add: jobs_inv_def jobs)
  moreover have "timer_inv ?w"
    unfolding timer_inv_def
  proof (intro allI impI)
    fix b t
    assume b: "b < length (ents ?w)" and t: "ent_timer (ents ?w ! b) = Some t"
    show "t < next_job ?w \<and> (\<forall>j \<in> set (jobs ?w). job_id j = t \<longrightarrow> job_addr j = b)"
    proof (cases "b = a")
      case True
      then have "t = next_job w" using b t assms(4) by (simp add: ents_after_func)
      then show ?thesis using True assms(4) by (auto simp: jobs nj dest: lt)
    next
      case False
      then have "ent_timer (ents w ! b) = Some t" using b t assms(4) by (simp add: ents_after_func)
      then have "t < next_job w" "\<forall>j \<in> set (jobs w). job_id j = t \<longrightarrow> job_addr j = b"
        using base b by (auto simp: base_inv_def timer_inv_def)
      then show ?thesis by (simp add: jobs nj)
    qed
  qed
  moreover have "lru_inv ?w" using base fld by (rule_tac lru_inv_cong [of w]) (auto simp: base_inv_def)
  moreover have "map held (ents ?w) = map held (ents w)"
    by (rule nth_equalityI) (auto simp: held_def fld)
  then have "bytes_inv ?w" using base by (simp add: base_inv_def bytes_inv_def)
  moreover have "send_inv ?w" using base by (simp add: base_inv_def send_inv_def jobs is_sending_def)
  moreover have "cur_inv ?w b" if b: "b < length (ents w)" for b
  proof (cases "b = a")
    case True
    then show ?thesis using assms(2-5) b fld by (simp add: cur_inv_def current_def jobs)
  next
    case False
    then have "current ?w b = current w b" using assms(4) fld(2) [OF b] by (simp add: current_def jobs)
    then show ?thesis using assms(1) b False fld(3) by (simp add: cur_inv_def winv_but_def)
  qed
  ultimately show ?thesis by (simp add: winv_def base_inv_def)
qed

text \<open>Scheduling the next warm, or letting the request go when there is none.\<close>

lemma schedule_restores:
  assumes "winv_but a w" and "current w a = []" and "ent_req (ents w ! a) = Some r" and "gen = ent_gen (ents w ! a)"
    and "scheduleLocked a gen r k from horizon now jitter w = (ok, w')"
  shows "winv (if ok then w' else releaseLocked a w')"
proof (cases ok)
  case True
  with assms(5) show ?thesis using assms(1-4)
    by (auto simp: scheduleLocked_def Let_def planned_def split: if_splits intro!: after_restores)
next
  case False
  with assms(5) have "w' = w" by (auto simp: scheduleLocked_def Let_def split: if_splits)
  then show ?thesis using False release_restores [OF assms(1,2)] by simp
qed

section \<open>The methods keep the invariant\<close>

lemma winv_frame [simp]:
  "winv (w\<lparr>real_count := x\<rparr>) = winv w" "winv (w\<lparr>pausedUntil := y\<rparr>) = winv w" "winv (w\<lparr>swept := z\<rparr>) = winv w"
  by (simp_all add: winv_def base_inv_def jobs_inv_def job_ok_def timer_inv_def lru_inv_def bytes_inv_def send_inv_def
      cur_inv_def current_def)

lemma winv_entry: "winv w \<Longrightarrow> entries w k = Some a \<Longrightarrow> a \<in> set (lru w) \<and> a < length (ents w) \<and> ent_key (ents w ! a) = k"
  by (auto simp: winv_def base_inv_def lru_inv_def)

lemma winv_stop: "winv w \<Longrightarrow> a < length (ents w) \<Longrightarrow> winv (stopLocked a w)"
  by (intro stop_restores winv_butI)

lemma winv_pending: "winv w \<Longrightarrow> a < length (ents w) \<Longrightarrow> winv (ent_upd a (\<lambda>e. e\<lparr>ent_pending := p\<rparr>) w)"
  by (rule winv_upd_plain) auto

lemma begin_inv: "winv w \<Longrightarrow> winv (snd (warm_begin k now w))"
proof -
  assume w: "winv w"
  show ?thesis
  proof (cases "entries w k")
    case None
    then show ?thesis using w by (simp add: warm_begin_def Let_def)
  next
    case (Some a)
    then have "a < length (ents w)" using winv_entry [OF w] by blast
    then show ?thesis using w Some by (auto simp: warm_begin_def Let_def intro!: winv_stop winv_pending)
  qed
qed

lemma end_inv: "winv w \<Longrightarrow> winv (warm_end k w)"
  by (simp add: warm_end_def)

lemma backoff_inv: "winv w \<Longrightarrow> winv (backoff c until now w)"
  by (simp add: backoff_def Let_def)

lemma winv_forget:
  assumes "winv w" and "a \<in> set (lru w)" and "k = ent_key (ents w ! a)"
  shows "winv (w\<lparr>lru := remove1 a (lru w), entries := (entries w)(k := None)\<rparr>)"
proof -
  have l: "lru_inv w" using assms(1) by (simp add: winv_def base_inv_def)
  have d: "set (remove1 a (lru w)) = set (lru w) - {a}" using l by (simp add: lru_inv_def)
  have uniq: "b = a" if "b \<in> set (lru w)" "ent_key (ents w ! b) = k" for b
  proof -
    have "entries w k = Some b" "entries w k = Some a" using l that assms(2,3) by (simp_all add: lru_inv_def)
    then show ?thesis by simp
  qed
  have "lru_inv (w\<lparr>lru := remove1 a (lru w), entries := (entries w)(k := None)\<rparr>)"
    using l d uniq assms(3) by (auto simp: lru_inv_def)
  then show ?thesis using assms(1)
    by (simp add: winv_def base_inv_def jobs_inv_def job_ok_def timer_inv_def bytes_inv_def send_inv_def
        cur_inv_def current_def)
qed

lemma drop_inv:
  assumes "winv w" and "a \<in> set (lru w)"
  shows "winv (snd (dropLocked a now w))"
proof -
  have a: "a < length (ents w)" using assms by (auto simp: winv_def base_inv_def lru_inv_def)
  let ?v = "if ent_pending (ents w ! a) then ent_upd a (\<lambda>e. e\<lparr>ent_pending := False\<rparr>) w else w"
  have v: "winv ?v" "length (ents ?v) = length (ents w)" "lru ?v = lru w" "ent_key (ents ?v ! a) = ent_key (ents w ! a)"
    using assms(1) a winv_pending by (auto simp: ents_ent_upd)
  have "winv (stopLocked a ?v)" using v a by (intro winv_stop) auto
  moreover have "ent_key (ents (stopLocked a ?v) ! a) = ent_key (ents w ! a)"
    using v a by (simp add: ents_stopLocked)
  ultimately show ?thesis
    using winv_forget [of "stopLocked a ?v" a "ent_key (ents w ! a)"] assms(2) v(3)
    by (simp add: dropLocked_def Let_def)
qed

lemma close_inv: "winv w \<Longrightarrow> winv (snd (warm_close now w))"
proof -
  have "winv (snd (foldl (\<lambda>(seen, w) a. case dropLocked a now w of (gaps, w1) \<Rightarrow> (seen @ gaps, w1)) (seen, w) as))"
    if "winv w" "distinct as" "set as \<subseteq> set (lru w)" for as seen w
    using that
  proof (induction as arbitrary: seen w)
    case (Cons a as)
    have "winv (snd (dropLocked a now w))" using Cons.prems by (intro drop_inv) auto
    moreover have "set as \<subseteq> set (lru (snd (dropLocked a now w)))"
      using Cons.prems by (auto simp: winv_def base_inv_def lru_inv_def)
    ultimately show ?case using Cons.IH [of "snd (dropLocked a now w)" "seen @ fst (dropLocked a now w)"] Cons.prems(2)
      by (simp add: case_prod_beta)
  qed simp
  from this [of w "lru w" "[]"] show "winv w \<Longrightarrow> winv (snd (warm_close now w))"
    by (simp add: warm_close_def winv_def base_inv_def lru_inv_def)
qed

lemma sweep_inv:
  assumes "winv w"
  shows "winv (snd (sweepLocked now w)) \<and> lru (snd (sweepLocked now w)) = lru w"
proof -
  have "winv (snd (foldl (sweep_entry now) (seen, w) as)) \<and> lru (snd (foldl (sweep_entry now) (seen, w) as)) = lru w"
    if "winv w" "set as \<subseteq> {..<length (ents w)}" for as seen w
    using that
  proof (induction as arbitrary: seen w)
    case (Cons a as)
    obtain seen' w' where s: "sweep_entry now (seen, w) a = (seen', w')" by force
    then have "winv w'" "length (ents w') = length (ents w)" "lru w' = lru w"
      using Cons.prems by (auto simp: sweep_entry_def Let_def split: if_splits intro!: winv_pending)
    then show ?case using Cons.IH [of w' seen'] Cons.prems(2) s by simp
  qed simp
  moreover have "set (lru w) \<subseteq> {..<length (ents w)}" using assms by (auto simp: winv_def base_inv_def lru_inv_def)
  ultimately show ?thesis using assms by (simp add: sweepLocked_def)
qed

lemma arm_entry_inv:
  assumes "winv w" and "arm_entry k w = (a, w')"
  shows "winv w' \<and> a < length (ents w') \<and> a \<in> set (lru w')"
proof (cases "entries w k")
  case None
  let ?e = "\<lparr>ent_key = k, ent_gen = 0, ent_timer = None, ent_req = None, ent_class = [],
    ent_lastStart = zero_time, ent_pending = False\<rparr>"
  have eq: "a = length (ents w)" "w' = w\<lparr>ents := ents w @ [?e], lru := a # lru w, entries := (entries w)(k \<mapsto> a)\<rparr>"
    using assms(2) None by (auto simp: arm_entry_def)
  have base: "base_inv w" using assms(1) by (simp add: winv_def)
  have old: "b < length (ents w) \<Longrightarrow> ents w' ! b = ents w ! b" for b by (simp add: eq nth_append)
  have addr: "job_addr j < length (ents w)" if "j \<in> set (jobs w)" for j
    using base that by (auto simp: base_inv_def jobs_inv_def job_ok_def)
  have "jobs_inv w'"
    using base addr old by (auto simp: base_inv_def jobs_inv_def job_ok_def eq nth_append intro: less_SucI)
  moreover have "timer_inv w'" using base by (auto simp: base_inv_def timer_inv_def eq nth_append)
  moreover have "lru_inv w'"
  proof -
    have l: "lru_inv w" using base by (simp add: base_inv_def)
    then have lt: "b \<in> set (lru w) \<Longrightarrow> b < length (ents w)" for b by (simp add: lru_inv_def)
    have nk: "b \<in> set (lru w) \<Longrightarrow> ent_key (ents w ! b) \<noteq> k" for b using l None unfolding lru_inv_def by (metis option.distinct(1))
    have "entries w' k' = Some b \<longleftrightarrow> b \<in> set (lru w') \<and> ent_key (ents w' ! b) = k'" for k' b
      using l lt nk by (auto simp: lru_inv_def eq nth_append)
    then show ?thesis using l lt by (fastforce simp: lru_inv_def eq)
  qed
  moreover have "bytes_inv w'" using base by (simp add: base_inv_def bytes_inv_def eq held_def)
  moreover have "send_inv w'" using base by (simp add: base_inv_def send_inv_def eq)
  moreover have "cur_inv w' b" if "b < length (ents w')" for b
  proof (cases "b < length (ents w)")
    case True
    then have "current w' b = current w b" using old [OF True] by (simp add: current_def eq)
    then show ?thesis using assms(1) True old [OF True] by (simp add: winv_def cur_inv_def)
  next
    case False
    then have "b = length (ents w)" using that eq by simp
    then show ?thesis using addr by (force simp: cur_inv_def current_def eq filter_empty_conv)
  qed
  ultimately show ?thesis by (simp add: winv_def base_inv_def eq)
next
  case (Some b)
  then have eq: "a = b" "w' = w\<lparr>lru := b # remove1 b (lru w)\<rparr>" using assms(2) by (auto simp: arm_entry_def)
  have b: "b \<in> set (lru w)" "b < length (ents w)" using winv_entry [OF assms(1) Some] by auto
  have l: "lru_inv w" using assms(1) by (simp add: winv_def base_inv_def)
  then have "set (b # remove1 b (lru w)) = set (lru w)" "distinct (b # remove1 b (lru w))"
    using b by (auto simp: lru_inv_def)
  then have "lru_inv w'" using l by (simp add: lru_inv_def eq)
  then show ?thesis using assms(1) b
    by (simp add: eq winv_def base_inv_def jobs_inv_def job_ok_def timer_inv_def bytes_inv_def send_inv_def
        cur_inv_def current_def)
qed

section \<open>Arming\<close>

definition cap_inv :: "cacheWarmer \<Rightarrow> bool" where
  "cap_inv w \<longleftrightarrow> length (lru w) \<le> cacheWarmMaxEntries \<and> (bytes_held w \<le> cacheWarmMaxBytes \<or> length (lru w) \<le> 1)"

lemma evict_arm_inv:
  "winv w \<Longrightarrow> lru w = a # rest \<Longrightarrow>
     winv (snd (arm_evict a now seen w)) \<and> cap_inv (snd (arm_evict a now seen w)) \<and> a \<in> set (lru (snd (arm_evict a now seen w)))"
proof (induction a now seen w arbitrary: rest rule: arm_evict.induct)
  case (1 a now seen w)
  let ?over = "(length (lru w) > cacheWarmMaxEntries \<or> bytes_held w > cacheWarmMaxBytes) \<and> lru w \<noteq> []"
  have dist: "distinct (a # rest)" using "1.prems" by (simp add: winv_def base_inv_def lru_inv_def)
  show ?case
  proof (cases "?over \<and> rest \<noteq> []")
    case True
    then have na: "\<not> (last (lru w) = a \<and> length (lru w) = 1)" "last (lru w) = last rest" "last rest \<noteq> a"
      using "1.prems"(2) dist by auto
    obtain gaps w1 where d: "dropLocked (last (lru w)) now w = (gaps, w1)" by force
    have eq: "arm_evict a now seen w = arm_evict a now (seen @ gaps) w1"
      using True na d by (subst arm_evict.simps) (auto simp: Let_def)
    have "last (lru w) \<in> set (lru w)" using "1.prems"(2) by simp
    then have "winv w1" using drop_inv [OF "1.prems"(1)] d by (metis snd_conv)
    moreover have "lru w1 = remove1 (last (lru w)) (lru w)" using lru_dropLocked [of "last (lru w)" now w] d by simp
    then have "lru w1 = a # remove1 (last rest) rest" using na "1.prems"(2) by simp
    moreover have "?over" using True by blast
    ultimately show ?thesis using "1.IH" [OF _ refl na(1) d [symmetric]] unfolding eq by blast
  next
    case False
    then have "arm_evict a now seen w = (seen, w)"
      using "1.prems"(2) by (subst arm_evict.simps) (auto simp: Let_def)
    then show ?thesis using "1.prems" False by (auto simp: cap_inv_def cacheWarmMaxEntries_def)
  qed
qed

text \<open>Taking a request in: nothing can send it yet.\<close>

lemma hold_request:
  fixes q :: warmRequest
  assumes "winv w" and "a < length (ents w)" and "ent_req (ents w ! a) = None"
  defines "w' \<equiv> ent_upd a (\<lambda>e. e\<lparr>ent_req := Some q\<rparr>) (w\<lparr>bytes_held := bytes_held w + int (length (req_body q))\<rparr>)"
  shows "winv_but a w'" and "current w' a = []"
proof -
  let ?v = "w\<lparr>bytes_held := bytes_held w + int (length (req_body q))\<rparr>"
  have base: "base_inv w" using assms(1) by (simp add: winv_def)
  have fld: "ent_key (ents w' ! b) = ent_key (ents w ! b)" "ent_gen (ents w' ! b) = ent_gen (ents w ! b)"
    "ent_timer (ents w' ! b) = ent_timer (ents w ! b)" if "b < length (ents w)" for b
    using that by (simp_all add: w'_def ents_ent_upd)
  have same: "jobs w' = jobs w" "lru w' = lru w" "entries w' = entries w" "sending w' = sending w"
    "next_job w' = next_job w" "length (ents w') = length (ents w)" by (simp_all add: w'_def)
  have "jobs_inv w'" using base fld by (auto simp: base_inv_def jobs_inv_def job_ok_def same)
  moreover have "timer_inv w'" using base fld by (auto simp: base_inv_def timer_inv_def same)
  moreover have "lru_inv w'" using base fld by (rule_tac lru_inv_cong [of w]) (auto simp: base_inv_def same)
  moreover have "sum_list (map held (ents w')) = sum_list (map held (ents w)) + int (length (req_body q))"
    using sum_held_upd [of a ?v "\<lambda>e. e\<lparr>ent_req := Some q\<rparr>"] assms(2,3) by (simp add: w'_def held_def)
  then have "bytes_inv w'" using base by (simp add: base_inv_def bytes_inv_def w'_def)
  moreover have "send_inv w'" using base by (simp add: base_inv_def send_inv_def same)
  moreover have cur: "current w' b = current w b" if "b < length (ents w)" for b
    using fld(2) [OF that] by (simp add: current_def same)
  moreover have "cur_inv w' b" if "b < length (ents w)" "b \<noteq> a" for b
    using assms(1) cur [OF that(1)] that by (simp add: cur_inv_def winv_def w'_def ents_ent_upd)
  ultimately show "winv_but a w'" using assms(2) by (simp add: winv_but_def base_inv_def same)
  have "cur_inv w a" using assms(1,2) by (simp add: winv_def)
  then show "current w' a = []" using cur [OF assms(2)] assms(3) by (simp add: cur_inv_def)
qed

lemma arm_entry_front: "arm_entry k w = (a, w') \<Longrightarrow> \<exists>rest. lru w' = a # rest"
  by (auto simp: arm_entry_def split: option.splits)

lemma arm_inv:
  assumes "winv w"
  shows "winv (snd (warm_arm k c r start now jitter w)) \<and> cap_inv (snd (warm_arm k c r start now jitter w))"
proof -
  obtain seen w1 where s: "sweepLocked now w = (seen, w1)" by force
  have i1: "winv w1" using sweep_inv [OF assms, of now] s by simp
  obtain a w2 where e: "arm_entry k w1 = (a, w2)" by force
  have i2: "winv w2" "a < length (ents w2)" using arm_entry_inv [OF i1 e] by auto
  obtain rest where front: "lru w2 = a # rest" using arm_entry_front [OF e] by blast
  define w3 where "w3 = ent_upd a (\<lambda>e. e\<lparr>ent_class := c, ent_lastStart := start, ent_pending := (c \<noteq> [])\<rparr>) (stopLocked a w2)"
  have i3: "winv w3" "a < length (ents w3)" "lru w3 = a # rest"
    using i2 front winv_upd_plain [OF winv_stop [OF i2], of a] by (auto simp: w3_def)
  have r3: "ent_req (ents w3 ! a) = None" using i2 by (simp add: w3_def ents_ent_upd ents_stopLocked)
  have fin: "winv (snd (arm_evict a now seen w4)) \<and> cap_inv (snd (arm_evict a now seen w4))"
    if "winv w4" "lru w4 = a # rest" for w4
    using evict_arm_inv [OF that] by blast
  show ?thesis
  proof (cases r)
    case None
    then show ?thesis using fin [OF i3(1,3)] s e by (simp add: warm_arm_def w3_def Let_def)
  next
    case (Some q)
    define w5 where "w5 = ent_upd a (\<lambda>e. e\<lparr>ent_req := Some q\<rparr>) (w3\<lparr>bytes_held := bytes_held w3 + int (length (req_body q))\<rparr>)"
    obtain ok w6 where sc: "scheduleLocked a (ent_gen (ents w5 ! a)) q 1 start (start + cacheWarmHorizon) now jitter w5 = (ok, w6)"
      by force
    have lru6: "lru (if ok then w6 else releaseLocked a w6) = a # rest"
      using sc i3(3) by (auto simp: scheduleLocked_def Let_def w5_def split: if_splits)
    have b5: "winv_but a w5" "current w5 a = []" using hold_request [OF i3(1,2) r3, of q] by (simp_all add: w5_def)
    have "ent_req (ents w5 ! a) = Some q" using i3(2) by (simp add: w5_def ents_ent_upd)
    then have "winv (if ok then w6 else releaseLocked a w6)"
      using schedule_restores [OF b5 _ refl sc] by simp
    moreover have "warm_arm k c r start now jitter w = arm_evict a now seen (if ok then w6 else releaseLocked a w6)"
      unfolding warm_arm_def s e Some prod.case option.case Let_def w3_def [symmetric] w5_def [symmetric] sc ..
    ultimately show ?thesis using fin [OF _ lru6] by simp
  qed
qed

end
