(* ===== verification/Cache_Warm_Facts.thy ===== *)
theory Cache_Warm_Facts
  imports Cache_Warm_Inv
begin

text \<open>
  The callbacks keep the warmer's invariant, so it holds in every state the machine reaches; what
  follows for the warms that are sent.
\<close>

section \<open>Changing the state of one job\<close>

definition set_state :: "nat \<Rightarrow> job_state \<Rightarrow> job \<Rightarrow> job" where
  "set_state i st j = (if job_id j = i then j\<lparr>job_state := st\<rparr> else j)"

lemma set_state_simps [simp]:
  "job_id (set_state i st j) = job_id j" "job_addr (set_state i st j) = job_addr j"
  "job_gen (set_state i st j) = job_gen j" "job_req (set_state i st j) = job_req j"
  "planned (set_state i st j) = planned j"
  by (simp_all add: set_state_def planned_def)

lemma start_job_alt: "start_job i w = w\<lparr>jobs := map (set_state i Started) (jobs w)\<rparr>"
  by (simp add: start_job_def set_state_def [abs_def])

lemma winv_set_state:
  assumes "winv w" and "send_inv (w\<lparr>sending := n, jobs := map (set_state i st) (jobs w)\<rparr>)"
  shows "winv (w\<lparr>sending := n, jobs := map (set_state i st) (jobs w)\<rparr>)"
proof -
  let ?w = "w\<lparr>sending := n, jobs := map (set_state i st) (jobs w)\<rparr>"
  have base: "base_inv w" using assms(1) by (simp add: winv_def)
  have "map job_id (jobs ?w) = map job_id (jobs w)" by simp
  then have "jobs_inv ?w" using base by (auto simp: base_inv_def jobs_inv_def job_ok_def simp del: map_map)
  moreover have "timer_inv ?w" using base by (auto simp: base_inv_def timer_inv_def)
  moreover have "lru_inv ?w" "bytes_inv ?w" using base by (simp_all add: base_inv_def lru_inv_def bytes_inv_def)
  moreover have "map job_req (current ?w a) = map job_req (current w a)" for a
    by (simp add: current_def filter_map comp_def)
  then have "\<forall>a < length (ents ?w). cur_inv ?w a" using assms(1) by (simp add: winv_def cur_inv_def)
  ultimately show ?thesis using assms(2) by (simp add: winv_def base_inv_def)
qed

lemma sending_set_state:
  assumes "distinct (map job_id xs)" and "j \<in> set xs" and "job_id j = i"
  shows "length (filter is_sending (map (set_state i st) xs)) + (if is_sending j then 1 else 0) =
    length (filter is_sending xs) + (if \<exists>t. st = Sending t then 1 else 0)"
  using assms
proof (induction xs)
  case (Cons x xs)
  show ?case
  proof (cases "x = j")
    case True
    then have "\<forall>y \<in> set xs. job_id y \<noteq> i" using Cons.prems by (auto simp: image_iff)
    then have eq: "map (set_state i st) xs = xs" by (intro map_idI) (simp add: set_state_def)
    have "is_sending (set_state i st j) = (\<exists>t. st = Sending t)" using Cons.prems(3) by (simp add: set_state_def is_sending_def)
    then show ?thesis unfolding True list.map eq filter.simps by simp
  next
    case False
    then have "j \<in> set xs" "job_id x \<noteq> i" using Cons.prems by auto
    then show ?thesis using Cons by (auto simp: set_state_def)
  qed
qed simp

lemma remove_one:
  assumes "distinct (map job_id xs)" and "j \<in> set xs" and "job_id j = i"
  shows "length (filter P (filter (\<lambda>j. job_id j \<noteq> i) xs)) + (if P j then 1 else 0) = length (filter P xs)"
  using assms
proof (induction xs)
  case (Cons x xs)
  show ?case
  proof (cases "x = j")
    case True
    then have "\<forall>y \<in> set xs. job_id y \<noteq> i" using Cons.prems by (auto simp: image_iff)
    then have "filter (\<lambda>j. job_id j \<noteq> i) xs = xs" by (simp add: filter_id_conv)
    then show ?thesis using True Cons.prems by auto
  next
    case False
    then have "j \<in> set xs" "job_id x \<noteq> i" using Cons.prems by auto
    then show ?thesis using Cons by auto
  qed
qed simp

section \<open>The callbacks\<close>

lemma winv_jobs: "winv w \<Longrightarrow> distinct (map job_id (jobs w))" "winv w \<Longrightarrow> j \<in> set (jobs w) \<Longrightarrow> job_ok w j"
  by (auto simp: winv_def base_inv_def jobs_inv_def)

lemma same_id: "winv w \<Longrightarrow> j \<in> set (jobs w) \<Longrightarrow> j' \<in> set (jobs w) \<Longrightarrow> job_id j' = job_id j \<Longrightarrow> j' = j"
  using winv_jobs(1) [of w] by (auto simp: distinct_map dest: inj_onD)

lemma start_inv:
  assumes "winv w" and "j \<in> set (jobs w)" and "job_state j = Armed at"
  shows "winv (start_job (job_id j) w)"
proof -
  have "length (filter is_sending (map (set_state (job_id j) Started) (jobs w))) = length (filter is_sending (jobs w))"
    using sending_set_state [OF winv_jobs(1) [OF assms(1)] assms(2) refl, of Started] assms(3) by (simp add: is_sending_def)
  then have "send_inv (w\<lparr>sending := sending w, jobs := map (set_state (job_id j) Started) (jobs w)\<rparr>)"
    using assms(1) by (simp add: winv_def base_inv_def send_inv_def)
  from winv_set_state [OF assms(1) this] show ?thesis by (simp add: start_job_alt)
qed

text \<open>A job that is still current is the one job of its entry, and holds the entry's request.\<close>

lemma current_job:
  assumes "winv w" and "j \<in> set (jobs w)" and "ent_gen (ents w ! job_addr j) = job_gen j"
  shows "current w (job_addr j) = [j] \<and> ent_req (ents w ! job_addr j) = Some (job_req j)"
proof -
  let ?a = "job_addr j"
  have "?a < length (ents w)" using winv_jobs(2) [OF assms(1,2)] by (simp add: job_ok_def)
  then have c: "map job_req (current w ?a) = (case ent_req (ents w ! ?a) of None \<Rightarrow> [] | Some r \<Rightarrow> [r])"
    using assms(1) by (simp add: winv_def cur_inv_def)
  have "j \<in> set (current w ?a)" using assms(2,3) by (simp add: current_def)
  with c show ?thesis by (cases "current w ?a"; cases "ent_req (ents w ! ?a)") auto
qed

lemma remove_job_base:
  assumes "winv w" and "j \<in> set (jobs w)" and "n = sending w - (if is_sending j then 1 else 0)"
  shows "base_inv (remove_job (job_id j) (w\<lparr>sending := n\<rparr>))"
    and "current (remove_job (job_id j) (w\<lparr>sending := n\<rparr>)) a = filter (\<lambda>j'. job_id j' \<noteq> job_id j) (current w a)"
proof -
  have base: "base_inv w" using assms(1) by (simp add: winv_def)
  have "int (length (filter is_sending (filter (\<lambda>j'. job_id j' \<noteq> job_id j) (jobs w)))) = n"
    using remove_one [OF winv_jobs(1) [OF assms(1)] assms(2) refl, of is_sending] base assms(3)
    by (auto simp: base_inv_def send_inv_def)
  then show "base_inv (remove_job (job_id j) (w\<lparr>sending := n\<rparr>))"
    using base assms(3)
    by (auto simp: remove_job_def base_inv_def jobs_inv_def job_ok_def timer_inv_def lru_inv_def bytes_inv_def send_inv_def
        intro: distinct_map_filter)
  show "current (remove_job (job_id j) (w\<lparr>sending := n\<rparr>)) a = filter (\<lambda>j'. job_id j' \<noteq> job_id j) (current w a)"
    by (auto simp: remove_job_def current_def intro: filter_cong)
qed

text \<open>A job leaves: nothing changes when it was stale; otherwise its entry waits to be repaired.\<close>

lemma remove_job_inv:
  assumes "winv w" and "j \<in> set (jobs w)" and "n = sending w - (if is_sending j then 1 else 0)"
  defines "w' \<equiv> remove_job (job_id j) (w\<lparr>sending := n\<rparr>)"
  shows "ent_gen (ents w ! job_addr j) \<noteq> job_gen j \<Longrightarrow> winv w'"
    and "ent_gen (ents w ! job_addr j) = job_gen j \<Longrightarrow> winv_but (job_addr j) w' \<and> current w' (job_addr j) = []
      \<and> ent_req (ents w' ! job_addr j) = Some (job_req j)"
proof -
  note r = remove_job_base [OF assms(1-3)]
  have ents: "ents w' = ents w" by (simp add: w'_def remove_job_def)
  have a: "job_addr j < length (ents w)" using winv_jobs(2) [OF assms(1,2)] by (simp add: job_ok_def)
  have keep: "current w' b = current w b" if "j \<notin> set (current w b)" for b
  proof -
    have "\<forall>j' \<in> set (current w b). job_id j' \<noteq> job_id j"
      using that same_id [OF assms(1,2)] by (auto simp: current_def)
    then show ?thesis using r(2) [of b] by (simp add: w'_def filter_id_conv)
  qed
  have other: "cur_inv w' b" if "b < length (ents w)" "j \<notin> set (current w b)" for b
    using assms(1) keep [OF that(2)] that(1) ents by (simp add: winv_def cur_inv_def)
  show "winv w'" if "ent_gen (ents w ! job_addr j) \<noteq> job_gen j"
  proof -
    have "j \<notin> set (current w b)" for b using that by (auto simp: current_def)
    then show ?thesis using r(1) other ents by (simp add: winv_def w'_def)
  qed
  assume g: "ent_gen (ents w ! job_addr j) = job_gen j"
  have "winv_but (job_addr j) w'"
  proof -
    have "j \<notin> set (current w b)" if "b \<noteq> job_addr j" for b using that by (auto simp: current_def)
    then show ?thesis using r(1) other a ents by (simp add: winv_but_def w'_def)
  qed
  moreover have "current w' (job_addr j) = []"
    using r(2) [of "job_addr j"] current_job [OF assms(1,2) g] by (simp add: w'_def)
  ultimately show "winv_but (job_addr j) w' \<and> current w' (job_addr j) = [] \<and> ent_req (ents w' ! job_addr j) = Some (job_req j)"
    using current_job [OF assms(1,2) g] ents by simp
qed

lemma fire_inv:
  assumes "winv w" and "j \<in> set (jobs w)" and "job_state j = Started"
  shows "winv (fire j now enabled w)"
proof (cases "ent_gen (ents w ! job_addr j) = job_gen j")
  case False
  then show ?thesis using remove_job_inv(1) [OF assms(1,2), of "sending w"] assms(3)
    by (simp add: fire_def is_sending_def)
next
  case True
  let ?a = "job_addr j" and ?w = "ent_upd (job_addr j) (\<lambda>e. e\<lparr>ent_timer := None\<rparr>) w"
  have ok: "job_ok w j" using winv_jobs(2) [OF assms(1,2)] .
  then have a: "?a < length (ents w)" by (simp add: job_ok_def)
  have w1: "winv ?w" using assms(1) a by (rule winv_upd_plain) auto
  have g: "ent_gen (ents ?w ! ?a) = job_gen j" using a True by (simp add: ents_ent_upd)
  have same: "?w\<lparr>sending := sending w\<rparr> = ?w" by (simp add: ent_upd_def)
  have r: "winv_but ?a (remove_job (job_id j) ?w)" "current (remove_job (job_id j) ?w) ?a = []"
    "ent_req (ents (remove_job (job_id j) ?w) ! ?a) = Some (job_req j)"
    using remove_job_inv(2) [OF w1, of j "sending ?w"] assms(2,3) g same by (simp_all add: is_sending_def)
  have rel: "winv (releaseLocked ?a (remove_job (job_id j) ?w))" using r(1,2) by (rule release_restores)
  have re: "winv (after_func t j (remove_job (job_id j) ?w))" for t
    using ok g by (intro after_restores [OF r(1,2,3)]) (simp_all add: job_ok_def remove_job_def)
  have snd: "winv (?w\<lparr>sending := sending ?w + 1, jobs := map (set_state (job_id j) (Sending now)) (jobs ?w)\<rparr>)"
    if "sending w < int cacheWarmMaxConcurrent"
  proof (rule winv_set_state [OF w1])
    have "length (filter is_sending (map (set_state (job_id j) (Sending now)) (jobs w))) = Suc (length (filter is_sending (jobs w)))"
      using sending_set_state [OF winv_jobs(1) [OF assms(1)] assms(2) refl, of "Sending now"] assms(3) by (simp add: is_sending_def)
    then show "send_inv (?w\<lparr>sending := sending ?w + 1, jobs := map (set_state (job_id j) (Sending now)) (jobs ?w)\<rparr>)"
      using assms(1) that by (simp add: winv_def base_inv_def send_inv_def)
  qed
  show ?thesis using True rel re snd
    by (simp add: fire_def Let_def set_state_def [abs_def])
qed

lemma fire_done_inv:
  assumes "winv w" and "j \<in> set (jobs w)" and "job_state j = Sending at"
  shows "winv (fire_done j at again now jitter w)"
proof -
  let ?w = "remove_job (job_id j) (w\<lparr>sending := sending w - 1\<rparr>)"
  have n: "sending w - 1 = sending w - (if is_sending j then 1 else 0)" using assms(3) by (simp add: is_sending_def)
  have ents: "ents ?w = ents w" by (simp add: remove_job_def)
  show ?thesis
  proof (cases "ent_gen (ents w ! job_addr j) = job_gen j")
    case False
    then show ?thesis using remove_job_inv(1) [OF assms(1,2) n] ents by (simp add: fire_done_def Let_def)
  next
    case True
    note r = remove_job_inv(2) [OF assms(1,2) n True]
    then have rel: "winv (releaseLocked (job_addr j) ?w)" by (blast intro: release_restores)
    obtain ok w2 where sc: "scheduleLocked (job_addr j) (job_gen j) (job_req j) (job_k j + 1) at (job_horizon j) now jitter ?w = (ok, w2)"
      by force
    have "winv (if ok then w2 else releaseLocked (job_addr j) w2)"
      using r True ents by (intro schedule_restores [OF _ _ _ _ sc]) auto
    then show ?thesis using True ents rel sc by (simp add: fire_done_def Let_def)
  qed
qed

section \<open>Methods that only let go\<close>

text \<open>Everything but \<open>arm\<close> takes no request in: what is held, counted or listed can only go.\<close>

definition shrinks :: "cacheWarmer \<Rightarrow> cacheWarmer \<Rightarrow> bool" where
  "shrinks w w' \<longleftrightarrow> length (ents w') = length (ents w) \<and> bytes_held w' \<le> bytes_held w
     \<and> length (lru w') \<le> length (lru w) \<and> set (lru w') \<subseteq> set (lru w)
     \<and> (\<forall>a < length (ents w). ent_key (ents w' ! a) = ent_key (ents w ! a)
          \<and> ent_req (ents w' ! a) \<in> {None, ent_req (ents w ! a)})
     \<and> (\<forall>a \<in> set (lru w) - set (lru w'). a < length (ents w) \<longrightarrow> ent_req (ents w' ! a) = None)"

lemma shrinks_refl [simp]: "shrinks w w"
  by (simp add: shrinks_def)

lemma shrinks_trans:
  assumes "shrinks w w1" and "shrinks w1 w2"
  shows "shrinks w w2"
proof -
  have len: "length (ents w1) = length (ents w)" "length (ents w2) = length (ents w)"
    using assms by (simp_all add: shrinks_def)
  have cell: "ent_key (ents w2 ! a) = ent_key (ents w ! a) \<and> ent_req (ents w2 ! a) \<in> {None, ent_req (ents w ! a)}
      \<and> (ent_req (ents w1 ! a) = None \<longrightarrow> ent_req (ents w2 ! a) = None)" if "a < length (ents w)" for a
    using assms that len unfolding shrinks_def by (metis insert_iff empty_iff)
  have "ent_req (ents w2 ! a) = None" if "a \<in> set (lru w) - set (lru w2)" "a < length (ents w)" for a
  proof (cases "a \<in> set (lru w1)")
    case True
    then show ?thesis using assms(2) that len by (auto simp: shrinks_def)
  next
    case False
    then have "ent_req (ents w1 ! a) = None" using assms(1) that by (auto simp: shrinks_def)
    then show ?thesis using cell that by blast
  qed
  then show ?thesis using assms cell len by (auto simp: shrinks_def)
qed

lemma shrinks_ent_upd:
  "a < length (ents w) \<Longrightarrow> ent_key (f (ents w ! a)) = ent_key (ents w ! a) \<Longrightarrow>
     ent_req (f (ents w ! a)) = ent_req (ents w ! a) \<Longrightarrow> shrinks w (ent_upd a f w)"
  by (auto simp: shrinks_def ents_ent_upd)

lemma shrinks_release: "a < length (ents w) \<Longrightarrow> shrinks w (releaseLocked a w)"
  by (auto simp: shrinks_def ents_releaseLocked) (simp add: releaseLocked_def ent_upd_def split: option.split)

lemma shrinks_stop: "a < length (ents w) \<Longrightarrow> shrinks w (stopLocked a w)"
proof -
  assume a: "a < length (ents w)"
  let ?s = "stop_timer (ent_timer (ents w ! a)) w"
  have "shrinks w ?s" by (simp add: shrinks_def)
  moreover have "shrinks ?s (ent_upd a (\<lambda>e. e\<lparr>ent_gen := ent_gen e + 1, ent_timer := None\<rparr>) ?s)"
    using a by (intro shrinks_ent_upd) auto
  ultimately show ?thesis using a shrinks_release [of a "ent_upd a (\<lambda>e. e\<lparr>ent_gen := ent_gen e + 1, ent_timer := None\<rparr>) ?s"]
    by (auto simp: stopLocked_def intro: shrinks_trans)
qed

lemma shrinks_after: "shrinks w (after_func at cb w)"
  by (auto simp: shrinks_def ents_after_func)

lemma shrinks_remove_job: "shrinks w (remove_job i (w\<lparr>sending := n\<rparr>))" "shrinks w (remove_job i w)"
  by (simp_all add: shrinks_def remove_job_def)

lemma shrinks_drop:
  assumes "a \<in> set (lru w)" and "a < length (ents w)"
  shows "shrinks w (snd (dropLocked a now w))"
proof -
  let ?v = "if ent_pending (ents w ! a) then ent_upd a (\<lambda>e. e\<lparr>ent_pending := False\<rparr>) w else w"
  have v: "shrinks w ?v" "a < length (ents ?v)" "lru ?v = lru w" using assms(2) by (auto intro: shrinks_ent_upd)
  have st: "shrinks w (stopLocked a ?v)" using v shrinks_stop [of a ?v] shrinks_trans by blast
  have none: "ent_req (ents (stopLocked a ?v) ! a) = None" using v(2) by (simp add: ents_stopLocked)
  let ?u = "(stopLocked a ?v)\<lparr>lru := remove1 a (lru w), entries := (entries (stopLocked a ?v))(ent_key (ents w ! a) := None)\<rparr>"
  have "\<forall>b \<in> set (lru w) - set (remove1 a (lru w)). ent_req (ents (stopLocked a ?v) ! b) = None"
    using none by (metis Diff_iff in_set_remove1)
  moreover have "set (remove1 a (lru w)) \<subseteq> set (lru w)" by (rule set_remove1_subset)
  ultimately have "shrinks (stopLocked a ?v) ?u"
    using v(3) by (simp add: shrinks_def length_remove1)
  then show ?thesis using shrinks_trans [OF st] v(3) by (simp add: dropLocked_def Let_def)
qed

lemma shrinks_schedule: "scheduleLocked a g r k from h now jitter w = (ok, w') \<Longrightarrow> shrinks w w'"
  by (auto simp: scheduleLocked_def Let_def shrinks_after split: if_splits)

lemma shrinks_sweep:
  assumes "winv w"
  shows "shrinks w (snd (sweepLocked now w))"
proof -
  have "shrinks w (snd (foldl (sweep_entry now) (seen, w) as))" if "set as \<subseteq> {..<length (ents w)}" for as seen w
    using that
  proof (induction as arbitrary: seen w)
    case (Cons a as)
    obtain seen' w' where s: "sweep_entry now (seen, w) a = (seen', w')" by force
    then have "shrinks w w'" "length (ents w') = length (ents w)"
      using Cons.prems by (auto simp: sweep_entry_def Let_def split: if_splits intro: shrinks_ent_upd)
    then show ?case using Cons.IH [of w' seen'] Cons.prems s shrinks_trans by simp
  qed simp
  moreover have "set (lru w) \<subseteq> {..<length (ents w)}" using assms by (auto simp: winv_def base_inv_def lru_inv_def)
  moreover have "shrinks w (w\<lparr>swept := now\<rparr>)" by (simp add: shrinks_def)
  ultimately show ?thesis by (auto simp: sweepLocked_def intro: shrinks_trans)
qed

lemma shrinks_begin: "winv w \<Longrightarrow> shrinks w (snd (warm_begin k now w))"
proof -
  assume w: "winv w"
  let ?w = "w\<lparr>real_count := (real_count w)(k := real_count w k + 1)\<rparr>"
  have s: "shrinks w ?w" by (simp add: shrinks_def)
  show ?thesis
  proof (cases "entries w k")
    case None
    then show ?thesis using s by (simp add: warm_begin_def Let_def)
  next
    case (Some a)
    then have a: "a < length (ents w)" using winv_entry [OF w] by blast
    have "shrinks ?w (stopLocked a ?w)" using a by (intro shrinks_stop) simp
    moreover have "shrinks ?w (stopLocked a (ent_upd a (\<lambda>e. e\<lparr>ent_pending := False\<rparr>) ?w))"
      using a by (intro shrinks_trans [OF shrinks_ent_upd [of a ?w "\<lambda>e. e\<lparr>ent_pending := False\<rparr>"] shrinks_stop]) auto
    ultimately show ?thesis using s Some by (auto simp: warm_begin_def Let_def intro: shrinks_trans)
  qed
qed

lemma shrinks_fire:
  assumes "job_addr j < length (ents w)"
  shows "shrinks w (fire j now enabled w)"
proof -
  let ?a = "job_addr j" and ?w = "ent_upd (job_addr j) (\<lambda>e. e\<lparr>ent_timer := None\<rparr>) w"
  have 1: "shrinks w ?w" using assms by (intro shrinks_ent_upd) auto
  have 2: "shrinks w (remove_job (job_id j) ?w)" using shrinks_trans [OF 1 shrinks_remove_job(2)] .
  have 3: "shrinks w (releaseLocked ?a (remove_job (job_id j) ?w))"
    using assms by (intro shrinks_trans [OF 2 shrinks_release]) (simp add: remove_job_def)
  have 4: "shrinks w (after_func t j (remove_job (job_id j) ?w))" for t using shrinks_trans [OF 2 shrinks_after] .
  have "shrinks ?w (?w\<lparr>sending := n, jobs := js\<rparr>)" for n js by (simp add: shrinks_def)
  then have 5: "shrinks w (?w\<lparr>sending := n, jobs := js\<rparr>)" for n js using shrinks_trans [OF 1] by blast
  show ?thesis using 3 4 5 shrinks_remove_job(2) [of w] by (simp add: fire_def Let_def)
qed

lemma shrinks_done:
  assumes "job_addr j < length (ents w)"
  shows "shrinks w (fire_done j at again now jitter w)"
proof -
  let ?a = "job_addr j" and ?w = "remove_job (job_id j) (w\<lparr>sending := sending w - 1\<rparr>)"
  have 1: "shrinks w ?w" by (rule shrinks_remove_job)
  have a: "?a < length (ents ?w)" using assms by (simp add: remove_job_def)
  have 2: "shrinks w (releaseLocked ?a ?w)" using shrinks_trans [OF 1 shrinks_release [OF a]] .
  obtain ok w2 where sc: "scheduleLocked ?a (job_gen j) (job_req j) (job_k j + 1) at (job_horizon j) now jitter ?w = (ok, w2)"
    by force
  have 3: "shrinks w w2" using shrinks_trans [OF 1 shrinks_schedule [OF sc]] .
  moreover have "?a < length (ents w2)" using 3 assms by (simp add: shrinks_def)
  ultimately have 4: "shrinks w (releaseLocked ?a w2)" using shrinks_trans [OF 3 shrinks_release] by blast
  show ?thesis using 1 2 3 4 sc by (simp add: fire_done_def Let_def)
qed

section \<open>Entries that hold nothing\<close>

text \<open>No entry of the stream holds a request; and no forgotten entry does.\<close>

definition quiet :: "bytes \<Rightarrow> cacheWarmer \<Rightarrow> bool" where
  "quiet k w \<longleftrightarrow> (\<forall>a < length (ents w). ent_key (ents w ! a) = k \<longrightarrow> ent_req (ents w ! a) = None)"

definition gone_inv :: "cacheWarmer \<Rightarrow> bool" where
  "gone_inv w \<longleftrightarrow> (\<forall>a < length (ents w). a \<notin> set (lru w) \<longrightarrow> ent_req (ents w ! a) = None)"

lemma shrinks_quiet: "shrinks w w' \<Longrightarrow> quiet k w \<Longrightarrow> quiet k w'"
  by (fastforce simp: shrinks_def quiet_def)

lemma shrinks_gone: "shrinks w w' \<Longrightarrow> gone_inv w \<Longrightarrow> gone_inv w'"
  unfolding shrinks_def gone_inv_def by (metis Diff_iff insertE singletonD)

lemma shrinks_cap: "shrinks w w' \<Longrightarrow> cap_inv w \<Longrightarrow> cap_inv w'"
  by (auto simp: shrinks_def cap_inv_def)

lemma shrinks_evict:
  "winv w \<Longrightarrow> lru w = a # rest \<Longrightarrow> shrinks w (snd (arm_evict a now seen w))"
proof (induction a now seen w arbitrary: rest rule: arm_evict.induct)
  case (1 a now seen w)
  let ?over = "(length (lru w) > cacheWarmMaxEntries \<or> bytes_held w > cacheWarmMaxBytes) \<and> lru w \<noteq> []"
  have dist: "distinct (a # rest)" and lt: "\<forall>b \<in> set (lru w). b < length (ents w)"
    using "1.prems" by (simp_all add: winv_def base_inv_def lru_inv_def)
  show ?case
  proof (cases "?over \<and> rest \<noteq> []")
    case True
    then have na: "\<not> (last (lru w) = a \<and> length (lru w) = 1)" "last (lru w) = last rest" "last rest \<noteq> a"
      using "1.prems"(2) dist by auto
    obtain gaps w1 where d: "dropLocked (last (lru w)) now w = (gaps, w1)" by force
    have eq: "arm_evict a now seen w = arm_evict a now (seen @ gaps) w1"
      using True na d by (subst arm_evict.simps) (auto simp: Let_def)
    have l: "last (lru w) \<in> set (lru w)" using "1.prems"(2) by simp
    then have w1: "winv w1" "shrinks w w1"
      using drop_inv [OF "1.prems"(1)] shrinks_drop lt d by (metis snd_conv)+
    have "lru w1 = remove1 (last (lru w)) (lru w)" using lru_dropLocked [of "last (lru w)" now w] d by simp
    then have "lru w1 = a # remove1 (last rest) rest" using na "1.prems"(2) by simp
    moreover have "?over" using True by blast
    ultimately have "shrinks w1 (snd (arm_evict a now (seen @ gaps) w1))"
      using "1.IH" [OF _ refl na(1) d [symmetric]] w1(1) by blast
    then show ?thesis using shrinks_trans [OF w1(2)] unfolding eq by blast
  next
    case False
    then have "arm_evict a now seen w = (seen, w)"
      using "1.prems"(2) by (subst arm_evict.simps) (auto simp: Let_def)
    then show ?thesis by simp
  qed
qed

lemma shrinks_close: "winv w \<Longrightarrow> shrinks w (snd (warm_close now w))"
proof -
  have "shrinks w (snd (foldl (\<lambda>(seen, w) a. case dropLocked a now w of (gaps, w1) \<Rightarrow> (seen @ gaps, w1)) (seen, w) as))"
    if "winv w" "distinct as" "set as \<subseteq> set (lru w)" for as seen w
    using that
  proof (induction as arbitrary: seen w)
    case (Cons a as)
    have i: "winv (snd (dropLocked a now w))" using Cons.prems by (intro drop_inv) auto
    have l: "set as \<subseteq> set (lru (snd (dropLocked a now w)))"
      using Cons.prems by (auto simp: winv_def base_inv_def lru_inv_def)
    have "shrinks w (snd (dropLocked a now w))"
      using Cons.prems by (intro shrinks_drop) (auto simp: winv_def base_inv_def lru_inv_def)
    then show ?case
      using Cons.IH [OF i _ l, of "seen @ fst (dropLocked a now w)"] Cons.prems(2) shrinks_trans
      by (simp add: case_prod_beta)
  qed simp
  from this [of w "lru w" "[]"] show "winv w \<Longrightarrow> shrinks w (snd (warm_close now w))"
    by (simp add: warm_close_def winv_def base_inv_def lru_inv_def)
qed

lemma arm_entry_quiet:
  assumes "winv w" and "arm_entry k w = (a, w')"
  shows "ent_key (ents w' ! a) = k" and "quiet k' w \<Longrightarrow> quiet k' w'" and "gone_inv w \<Longrightarrow> gone_inv w'"
  using assms winv_entry [OF assms(1)]
  by (auto simp: arm_entry_def quiet_def gone_inv_def nth_append less_Suc_eq winv_def base_inv_def lru_inv_def
      split: option.splits if_splits)

lemma arm_others:
  assumes "winv w"
  shows "k' \<noteq> k \<Longrightarrow> quiet k' w \<Longrightarrow> quiet k' (snd (warm_arm k c r start now jitter w))"
    and "gone_inv w \<Longrightarrow> gone_inv (snd (warm_arm k c r start now jitter w))"
proof -
  obtain seen w1 where s: "sweepLocked now w = (seen, w1)" by force
  have i1: "winv w1" "shrinks w w1" using sweep_inv [OF assms, of now] shrinks_sweep [OF assms, of now] s by auto
  obtain a w2 where e: "arm_entry k w1 = (a, w2)" by force
  have i2: "winv w2" "a < length (ents w2)" using arm_entry_inv [OF i1(1) e] by auto
  note q2 = arm_entry_quiet [OF i1(1) e]
  obtain rest where front: "lru w2 = a # rest" using arm_entry_front [OF e] by blast
  define w3 where "w3 = ent_upd a (\<lambda>e. e\<lparr>ent_class := c, ent_lastStart := start, ent_pending := (c \<noteq> [])\<rparr>) (stopLocked a w2)"
  have i3: "winv w3" "a < length (ents w3)" "lru w3 = a # rest"
    using i2 front winv_upd_plain [OF winv_stop [OF i2], of a] by (auto simp: w3_def)
  have "shrinks (stopLocked a w2) w3" using i2(2) unfolding w3_def by (intro shrinks_ent_upd) auto
  then have s3: "shrinks w2 w3" using shrinks_trans [OF shrinks_stop [OF i2(2)]] by blast
  have k3: "ent_key (ents w3 ! a) = k" using s3 q2(1) i2(2) by (simp add: shrinks_def)
  have q3: "quiet k' w \<Longrightarrow> quiet k' w3" and g3: "gone_inv w \<Longrightarrow> gone_inv w3" for k'
    using shrinks_quiet [OF i1(2)] q2(2) shrinks_quiet [OF s3] shrinks_gone [OF i1(2)] q2(3) shrinks_gone [OF s3]
    by blast+
  have goal: "(k' \<noteq> k \<longrightarrow> quiet k' w \<longrightarrow> quiet k' (snd (warm_arm k c r start now jitter w)))
      \<and> (gone_inv w \<longrightarrow> gone_inv (snd (warm_arm k c r start now jitter w)))" for k'
  proof (cases r)
    case None
    have "shrinks w3 (snd (arm_evict a now seen w3))" using shrinks_evict [OF i3(1,3)] .
    then show ?thesis using q3 g3 shrinks_quiet shrinks_gone None s e
      by (simp add: warm_arm_def w3_def Let_def)
  next
    case (Some q)
    define w5 where "w5 = ent_upd a (\<lambda>e. e\<lparr>ent_req := Some q\<rparr>) (w3\<lparr>bytes_held := bytes_held w3 + int (length (req_body q))\<rparr>)"
    obtain ok w6 where sc: "scheduleLocked a (ent_gen (ents w5 ! a)) q 1 start (start + cacheWarmHorizon) now jitter w5 = (ok, w6)"
      by force
    let ?w7 = "if ok then w6 else releaseLocked a w6"
    have q5: "k' \<noteq> k \<Longrightarrow> quiet k' w3 \<Longrightarrow> quiet k' w5" "gone_inv w3 \<Longrightarrow> gone_inv w5" for k'
      using k3 i3(2,3) by (auto simp: quiet_def gone_inv_def w5_def ents_ent_upd)
    have s6: "shrinks w5 w6" using shrinks_schedule [OF sc] .
    then have "a < length (ents w6)" using i3(2) by (simp add: shrinks_def w5_def)
    then have s7: "shrinks w5 ?w7" using s6 shrinks_trans [OF s6 shrinks_release] by simp
    have eq: "warm_arm k c r start now jitter w = arm_evict a now seen ?w7"
      unfolding warm_arm_def s e Some prod.case option.case Let_def w3_def [symmetric] w5_def [symmetric] sc ..
    have r3: "ent_req (ents w3 ! a) = None" using i2 by (simp add: w3_def ents_ent_upd ents_stopLocked)
    have b5: "winv_but a w5" "current w5 a = []" using hold_request [OF i3(1,2) r3, of q] by (simp_all add: w5_def)
    have "ent_req (ents w5 ! a) = Some q" using i3(2) by (simp add: w5_def ents_ent_upd)
    then have w7: "winv ?w7" using schedule_restores [OF b5 _ refl sc] by simp
    have "lru ?w7 = a # rest"
      using sc i3(3) by (auto simp: scheduleLocked_def Let_def w5_def split: if_splits)
    then have "shrinks ?w7 (snd (arm_evict a now seen ?w7))" by (rule shrinks_evict [OF w7])
    then have "shrinks w5 (snd (arm_evict a now seen ?w7))" using shrinks_trans [OF s7] by blast
    then show ?thesis using q3 g3 q5 shrinks_quiet shrinks_gone unfolding eq by blast
  qed
  then show "k' \<noteq> k \<Longrightarrow> quiet k' w \<Longrightarrow> quiet k' (snd (warm_arm k c r start now jitter w))"
    and "gone_inv w \<Longrightarrow> gone_inv (snd (warm_arm k c r start now jitter w))" by blast+
qed

text \<open>A real request quiets its stream.\<close>

lemma begin_quiet:
  assumes "winv w" and "gone_inv w"
  shows "quiet k (snd (warm_begin k now w))"
proof -
  have l: "lru_inv w" using assms(1) by (simp add: winv_def base_inv_def)
  have other: "ent_req (ents w ! b) = None" if "b < length (ents w)" "ent_key (ents w ! b) = k" "entries w k \<noteq> Some b" for b
    using that l assms(2) by (auto simp: lru_inv_def gone_inv_def)
  show ?thesis
  proof (cases "entries w k")
    case None
    then show ?thesis using other by (auto simp: warm_begin_def Let_def quiet_def)
  next
    case (Some a)
    then have a: "a < length (ents w)" using winv_entry [OF assms(1)] by blast
    then show ?thesis using other Some
      by (auto simp: warm_begin_def Let_def quiet_def ents_stopLocked ents_ent_upd split: if_splits)
  qed
qed

end
