(* ===== verification/Cache_Warm_Reach.thy ===== *)
theory Cache_Warm_Reach
  imports Cache_Warm_Facts
begin

text \<open>
  Every state the machine reaches: the invariants hold, a warm is only sent when the code's
  conditions hold, and a stream that was heard from again is not warmed until it is armed anew.
\<close>

section \<open>Real requests are counted\<close>

lemma real_release [simp]: "real_count (releaseLocked a w) = real_count w"
  by simp

lemma real_remove [simp]: "real_count (remove_job i w) = real_count w"
  by (simp add: remove_job_def)

lemma real_drop [simp]: "real_count (snd (dropLocked a now w)) = real_count w"
  by (simp add: dropLocked_def Let_def)

lemma real_schedule [simp]: "real_count (snd (scheduleLocked a g r k from h now jitter w)) = real_count w"
  by (simp add: scheduleLocked_def Let_def)

lemma real_sweep [simp]: "real_count (snd (sweepLocked now w)) = real_count w"
proof -
  have "real_count (snd (foldl (sweep_entry now) (seen, w) as)) = real_count w" for as seen w
  proof (induction as arbitrary: seen w)
    case (Cons a as)
    obtain seen' w' where s: "sweep_entry now (seen, w) a = (seen', w')" by force
    then have "real_count w' = real_count w" by (auto simp: sweep_entry_def Let_def split: if_splits)
    then show ?case using Cons s by simp
  qed simp
  then show ?thesis by (simp add: sweepLocked_def)
qed

lemma real_evict [simp]: "real_count (snd (arm_evict a now seen w)) = real_count w"
proof (induction a now seen w rule: arm_evict.induct)
  case (1 a now seen w)
  obtain gaps w1 where d: "dropLocked (last (lru w)) now w = (gaps, w1)" by force
  have "real_count w1 = real_count w" using real_drop [of "last (lru w)" now w] d by simp
  then show ?case using "1.IH" [OF _ refl _ d [symmetric]] d
    by (subst arm_evict.simps) (simp add: Let_def)
qed

lemma real_arm [simp]: "real_count (snd (warm_arm k c r start now jitter w)) = real_count w"
proof -
  have e: "real_count (snd (arm_entry k w)) = real_count w" for w
    by (simp add: arm_entry_def split: option.split)
  show ?thesis
    by (simp add: warm_arm_def case_prod_beta Let_def e split: option.split)
qed

lemma real_close [simp]: "real_count (snd (warm_close now w)) = real_count w"
proof -
  have "real_count (snd (foldl (\<lambda>(seen, w) a. case dropLocked a now w of (gaps, w1) \<Rightarrow> (seen @ gaps, w1)) (seen, w) as)) = real_count w"
    for as seen w
  proof (induction as arbitrary: seen w)
    case (Cons a as)
    then show ?case by (simp add: case_prod_beta)
  qed simp
  then show ?thesis by (simp add: warm_close_def)
qed

lemma real_fire [simp]: "real_count (fire j now enabled w) = real_count w"
  by (simp add: fire_def Let_def)

lemma real_done [simp]: "real_count (fire_done j at again now jitter w) = real_count w"
  by (simp add: fire_done_def Let_def case_prod_beta)

lemma real_begin: "real_count (snd (warm_begin k now w)) = (real_count w)(k := real_count w k + 1)"
  by (simp add: warm_begin_def Let_def split: option.split)

section \<open>Reachable states\<close>

definition counts_inv :: "warm_world \<Rightarrow> bool" where
  "counts_inv s \<longleftrightarrow> (\<forall>k. real_count (warmer s) k = int (count_list (inflight s) k))"

definition world_inv :: "warm_world \<Rightarrow> bool" where
  "world_inv s \<longleftrightarrow> winv (warmer s) \<and> cap_inv (warmer s) \<and> gone_inv (warmer s) \<and> counts_inv s"

lemma init_inv: "world_inv (warm_init t)"
  by (simp add: world_inv_def warm_init_def newCacheWarmer_def winv_def base_inv_def jobs_inv_def timer_inv_def lru_inv_def
      bytes_inv_def send_inv_def cap_inv_def gone_inv_def counts_inv_def cacheWarmMaxBytes_def)

lemma count_remove1: "k \<in> set xs \<Longrightarrow> count_list (remove1 k xs) x = count_list xs x - (if x = k then 1 else 0)"
proof (induction xs)
  case (Cons y xs)
  have "k \<in> set xs \<Longrightarrow> 0 < count_list xs k" by (metis count_list_0_iff neq0_conv)
  then show ?case using Cons by auto
qed simp

lemma shrinks_other: "shrinks w (start_job i w)" "shrinks w (backoff c until now w)" "shrinks w (warm_end k w)"
  by (simp_all add: shrinks_def start_job_def backoff_def warm_end_def Let_def)

lemma step_inv:
  assumes "warm_step s ev s'" and "world_inv s"
  shows "world_inv s'"
  using assms
proof (induction rule: warm_step.induct)
  case (begins s k)
  then have i: "winv (warmer s)" "cap_inv (warmer s)" "gone_inv (warmer s)" by (simp_all add: world_inv_def)
  note sh = shrinks_begin [OF i(1), of k "wall s"]
  show ?case using begins begin_inv [OF i(1)] shrinks_cap [OF sh i(2)] shrinks_gone [OF sh i(3)]
    by (simp add: world_inv_def counts_inv_def real_begin)
next
  case (ends k s)
  then have i: "winv (warmer s)" "cap_inv (warmer s)" "gone_inv (warmer s)" by (simp_all add: world_inv_def)
  note sh = shrinks_other(3) [of "warmer s" k]
  have "0 < count_list (inflight s) k" using ends(1) by (metis count_list_0_iff neq0_conv)
  then have "counts_inv (s\<lparr>warmer := warm_end k (warmer s), inflight := remove1 k (inflight s)\<rparr>)"
    using ends by (auto simp: world_inv_def counts_inv_def warm_end_def count_remove1)
  then show ?case using end_inv [OF i(1)] shrinks_cap [OF sh i(2)] shrinks_gone [OF sh i(3)]
    by (simp add: world_inv_def)
next
  case (arms jitter s k c r start)
  then show ?case using arm_inv [of "warmer s" k c r start "wall s" jitter] arm_others(2) [of "warmer s" k c r start "wall s" jitter]
    by (simp add: world_inv_def counts_inv_def)
next
  case (expires j s at)
  then have i: "winv (warmer s)" "cap_inv (warmer s)" "gone_inv (warmer s)" by (simp_all add: world_inv_def)
  note sh = shrinks_other(1) [of "warmer s" "job_id j"]
  have "real_count (start_job (job_id j) (warmer s)) = real_count (warmer s)" by (simp add: start_job_def)
  then show ?case
    using expires start_inv [OF i(1) expires(1,2)] shrinks_cap [OF sh i(2)] shrinks_gone [OF sh i(3)]
    by (simp add: world_inv_def counts_inv_def)
next
  case (fires j s enabled)
  then have i: "winv (warmer s)" "cap_inv (warmer s)" "gone_inv (warmer s)" by (simp_all add: world_inv_def)
  have "job_addr j < length (ents (warmer s))" using winv_jobs(2) [OF i(1) fires(1)] by (simp add: job_ok_def)
  note sh = shrinks_fire [OF this, of "wall s" enabled]
  show ?case using fires fire_inv [OF i(1) fires(1,2)] shrinks_cap [OF sh i(2)] shrinks_gone [OF sh i(3)]
    by (simp add: world_inv_def counts_inv_def)
next
  case (sent j s at jitter again)
  then have i: "winv (warmer s)" "cap_inv (warmer s)" "gone_inv (warmer s)" by (simp_all add: world_inv_def)
  have "job_addr j < length (ents (warmer s))" using winv_jobs(2) [OF i(1) sent(1)] by (simp add: job_ok_def)
  note sh = shrinks_done [OF this, of at again "wall s" jitter]
  show ?case using sent fire_done_inv [OF i(1) sent(1,2)] shrinks_cap [OF sh i(2)] shrinks_gone [OF sh i(3)]
    by (simp add: world_inv_def counts_inv_def)
next
  case (backs s c until)
  then have i: "winv (warmer s)" "cap_inv (warmer s)" "gone_inv (warmer s)" by (simp_all add: world_inv_def)
  note sh = shrinks_other(2) [of "warmer s" c until "wall s"]
  have "real_count (backoff c until (wall s) (warmer s)) = real_count (warmer s)" by (simp add: backoff_def Let_def)
  then show ?case using backs backoff_inv [OF i(1)] shrinks_cap [OF sh i(2)] shrinks_gone [OF sh i(3)]
    by (simp add: world_inv_def counts_inv_def)
next
  case (closes s)
  then have i: "winv (warmer s)" "cap_inv (warmer s)" "gone_inv (warmer s)" by (simp_all add: world_inv_def)
  note sh = shrinks_close [OF i(1), of "wall s"]
  show ?case using closes close_inv [OF i(1)] shrinks_cap [OF sh i(2)] shrinks_gone [OF sh i(3)]
    by (simp add: world_inv_def counts_inv_def)
qed (simp add: world_inv_def counts_inv_def)

lemma run_inv: "warm_run s evs s' \<Longrightarrow> world_inv s \<Longrightarrow> world_inv s'"
  by (induction rule: warm_run.induct) (auto intro: step_inv)

lemma reach_inv: "warm_run (warm_init t) evs s \<Longrightarrow> world_inv s"
  using run_inv init_inv by blast

section \<open>What is sent\<close>

text \<open>The conditions of the code for starting a send.\<close>

definition may_send :: "warm_world \<Rightarrow> job \<Rightarrow> bool \<Rightarrow> bool" where
  "may_send s j enabled \<longleftrightarrow>
     enabled \<and> wall s \<le> job_deadline j \<and> \<not> pausedLocked (req_cred (job_req j)) (wall s) (warmer s)
     \<and> ent_key (ents (warmer s) ! job_addr j) \<notin> set (inflight s)
     \<and> sending (warmer s) < int cacheWarmMaxConcurrent
     \<and> ent_req (ents (warmer s) ! job_addr j) = Some (job_req j)
     \<and> job_k j < length (req_plan (job_req j)) \<and> req_plan (job_req j) ! job_k j"

lemma fire_sends_only:
  assumes "world_inv s" and "j \<in> set (jobs (warmer s))"
    and "sending (fire j (wall s) enabled (warmer s)) > sending (warmer s)"
  shows "may_send s j enabled"
proof -
  let ?w = "warmer s" and ?a = "job_addr j"
  have inv: "winv ?w" and cnt: "counts_inv s" using assms(1) by (simp_all add: world_inv_def)
  have ok: "job_ok ?w j" using winv_jobs(2) [OF inv assms(2)] .
  have g: "ent_gen (ents ?w ! ?a) = job_gen j"
    using assms(3) by (rule_tac ccontr) (simp add: fire_def remove_job_def)
  let ?u = "ent_upd ?a (\<lambda>e. e\<lparr>ent_timer := None\<rparr>) ?w"
  have key: "ent_key (ents ?u ! ?a) = ent_key (ents ?w ! ?a)" using ok by (simp add: ents_ent_upd job_ok_def)
  have p: "pausedLocked c now ?u = pausedLocked c now ?w" for c now by (simp add: pausedLocked_def)
  have c: "\<not> (wall s > job_deadline j \<or> \<not> enabled \<or> pausedLocked (req_cred (job_req j)) (wall s) ?w)"
    using assms(3) g by (rule_tac notI) (simp add: fire_def Let_def p remove_job_def)
  moreover have "\<not> (real_count ?w (ent_key (ents ?w ! ?a)) > 0 \<or> sending ?w \<ge> int cacheWarmMaxConcurrent)"
    using assms(3) g c by (rule_tac notI) (auto simp: fire_def Let_def p key remove_job_def split: if_splits)
  moreover have "count_list (inflight s) k = 0 \<Longrightarrow> k \<notin> set (inflight s)" for k by (simp add: count_list_0_iff)
  ultimately show ?thesis
    using current_job [OF inv assms(2) g] ok cnt
    by (auto simp: may_send_def counts_inv_def job_ok_def planned_def)
qed

text \<open>In a quiet stream no job sends, and only \<open>arm\<close> ends the quiet.\<close>

lemma quiet_no_send:
  assumes "world_inv s" and "quiet k (warmer s)" and "j \<in> set (jobs (warmer s))"
    and "ent_key (ents (warmer s) ! job_addr j) = k"
  shows "sending (fire j (wall s) enabled (warmer s)) \<le> sending (warmer s)"
proof (rule ccontr)
  assume "\<not> ?thesis"
  then have "may_send s j enabled" using fire_sends_only [OF assms(1,3)] by simp
  moreover have "job_addr j < length (ents (warmer s))"
    using winv_jobs(2) [OF _ assms(3)] assms(1) by (simp add: world_inv_def job_ok_def)
  ultimately show False using assms(2,4) by (simp add: may_send_def quiet_def)
qed

lemma step_quiet:
  assumes "warm_step s ev s'" and "world_inv s" and "quiet k (warmer s)" and "\<forall>c r start j. ev \<noteq> Arm k c r start j"
  shows "quiet k (warmer s')"
  using assms
proof (induction rule: warm_step.induct)
  case (begins s k')
  then show ?case using shrinks_quiet [OF shrinks_begin] by (simp add: world_inv_def)
next
  case (ends k' s)
  then show ?case using shrinks_quiet [OF shrinks_other(3)] by simp
next
  case (arms jitter s k' c r start)
  then have "k \<noteq> k'" by blast
  then show ?case using arms(3,4) arm_others(1) by (simp add: world_inv_def)
next
  case (expires j s at)
  then show ?case using shrinks_quiet [OF shrinks_other(1)] by simp
next
  case (fires j s enabled)
  then have "job_addr j < length (ents (warmer s))" using winv_jobs(2) by (auto simp: world_inv_def job_ok_def)
  from shrinks_quiet [OF shrinks_fire [OF this]] show ?case using fires by simp
next
  case (sent j s at jitter again)
  then have "job_addr j < length (ents (warmer s))" using winv_jobs(2) by (auto simp: world_inv_def job_ok_def)
  from shrinks_quiet [OF shrinks_done [OF this]] show ?case using sent by simp
next
  case (backs s c until)
  then show ?case using shrinks_quiet [OF shrinks_other(2)] by simp
next
  case (closes s)
  then show ?case using shrinks_quiet [OF shrinks_close] by (simp add: world_inv_def)
qed simp

lemma run_quiet:
  "warm_run s evs s' \<Longrightarrow> world_inv s \<Longrightarrow> quiet k (warmer s) \<Longrightarrow> \<forall>ev \<in> set evs. \<forall>c r start j. ev \<noteq> Arm k c r start j \<Longrightarrow>
     quiet k (warmer s')"
proof (induction rule: warm_run.induct)
  case (run_snoc s evs t ev u)
  have "world_inv t" using run_inv [OF run_snoc.hyps(1) run_snoc.prems(1)] .
  then show ?case using run_snoc by (intro step_quiet [OF run_snoc.hyps(2)]) auto
qed simp

text \<open>Single steps are determined by the event: what \<open>Fire\<close> does.\<close>

inductive_cases FireE: "warm_step s (Fire i enabled) s'"
inductive_cases BeginE: "warm_step s (Begin k) s'"

end
