(* ===== verification/Cache_Properties.thy ===== *)
theory Cache_Properties
  imports Cache_Guard Raw_Pin_Facts Prefix_Monitor_Facts Cache_Warm_Reach
begin

text \<open>
  The properties of the prompt-cache protection: the cache guard, the replacement cache, raw pins and
  lineages, the tripwire and the warmer, each with its example.
\<close>

text \<open>
  C9. As long as a guard sees at most 8192 epochs, its bounded memory is the unbounded specification: every
  epoch keeps the first digest inspected for it, until a new epoch is started.
\<close>

theorem guard_remembers_first:
  assumes "card (epochs_used h ops) \<le> defaultEpochCap"
  shows "\<exists>g. guard_run h ops = Some g \<and> epochs g = fold (epoch_spec h) ops Map.empty"
  using guard_refines [OF assms] by blast

abbreviation two_epochs :: "guard_op list" where
  "two_epochs \<equiv> [DoNewEpoch ''a'' ''x'', DoNewEpoch ''b'' ''y'', DoNewEpoch ''a'' ''z'']"

lemma two_epochs_used: "card (epochs_used (\<lambda>b. b) two_epochs) \<le> defaultEpochCap"
proof -
  have "epochs_used (\<lambda>b. b) two_epochs \<subseteq> {''a'', ''b''}"
    by (auto simp: epochs_used_def)
  then have "card (epochs_used (\<lambda>b. b) two_epochs) \<le> card {''a'', ''b''}" by (intro card_mono) auto
  then show ?thesis by (simp add: defaultEpochCap_def)
qed

theorem guard_remembers_first_witness:
  "\<exists>g. guard_run (\<lambda>b. b) two_epochs = Some g \<and> epochs g = fold (epoch_spec (\<lambda>b. b)) two_epochs Map.empty"
  using guard_remembers_first [OF two_epochs_used] .

text \<open>
  Whatever it is asked, a guard holds at most 8192 epochs, and its queue lists exactly those, once each.
\<close>

theorem guard_bounded:
  "\<exists>g. guard_run h ops = Some g \<and> distinct (epoch_order g) \<and> dom (epochs g) = set (epoch_order g)
     \<and> length (epoch_order g) \<le> defaultEpochCap"
  using guard_run_ok [of h ops] by (auto simp: guard_ok_def fifo_inv_def)

text \<open>
  C10. A drift warning is never spurious: some earlier call submitted another digest for the same epoch.
\<close>

theorem drift_has_a_cause:
  assumes "guard_run h ops = Some g" and "Inspect h (Some g) inp = (Inr r, g')"
    and "WarningPrefixDrift \<in> set (Warnings r)"
  shows "\<exists>op \<in> set ops. \<exists>s s'. submitted h op = Some (EpochID inp, s)
    \<and> submitted h (DoInspect inp) = Some (EpochID inp, s') \<and> s \<noteq> s'"
proof -
  obtain s prev where s: "inspect_sum h inp = Inr s" "epochs g (EpochID inp) = Some prev" "prev \<noteq> s"
    using assms(2,3) Inspect_drift by blast
  moreover have "EpochID inp \<noteq> []" using assms(2) by (auto simp: Inspect_def)
  ultimately show ?thesis using guard_remembers [OF assms(1) s(2)] by auto
qed

abbreviation drift_input :: GuardInput where
  "drift_input \<equiv> \<lparr>EpochID = ''a'', Prefix = ''y'', PrefixSHA256 = [], BoundaryKnown = True, AdapterKnown = True\<rparr>"

lemma drift_run: "guard_run (\<lambda>b. b) [DoNewEpoch ''a'' ''x''] = Some (putEpoch ''a'' ''x'' guard_New)"
  by (simp add: guard_run_def StartNewEpoch_def)

lemma drift_seen: "\<exists>r. fst (Inspect (\<lambda>b. b) (Some (putEpoch ''a'' ''x'' guard_New)) drift_input) = Inr r
    \<and> WarningPrefixDrift \<in> set (Warnings r)"
  by (simp add: Inspect_def inspect_sum_def Let_def)

theorem drift_has_a_cause_witness:
  "\<exists>op \<in> set [DoNewEpoch ''a'' ''x'']. \<exists>s s'. submitted (\<lambda>b. b) op = Some (''a'', s)
    \<and> submitted (\<lambda>b. b) (DoInspect drift_input) = Some (''a'', s') \<and> s \<noteq> s'"
proof -
  obtain r where "fst (Inspect (\<lambda>b. b) (Some (putEpoch ''a'' ''x'' guard_New)) drift_input) = Inr r"
      "WarningPrefixDrift \<in> set (Warnings r)"
    using drift_seen by blast
  then show ?thesis
    using drift_has_a_cause [OF drift_run, of drift_input r
        "snd (Inspect (\<lambda>b. b) (Some (putEpoch ''a'' ''x'' guard_New)) drift_input)"]
    by (metis (no_types, lifting) GuardInput.select_convs(1) prod.collapse)
qed

text \<open>
  C11. A pin in the replacement cache stays, whatever lookups and writes follow and whichever of their
  statements fail.
\<close>

theorem pin_never_leaves:
  assumes "pc.cache_steps h s t" and "store_ok s" and "stored s k = Some (RawPinHandle, b)"
  shows "stored t k = Some (RawPinHandle, b)"
  using assms by (rule pc.pin_stays)

abbreviation pin_table :: prefix_store where
  "pin_table \<equiv> \<lparr>prefix_rows = [\<lparr>original_sha256 = ''k'', row_handle = RawPinHandle, row_replacement = ''v'',
     created_at = [], last_used_at = []\<rparr>], prefixWrites = 0\<rparr>"

lemma pin_table_step: "pc.cache_steps (\<lambda>b. b) pin_table
    (snd (RememberReplacement (\<lambda>b. b) (True, True, True, True) ''1'' pin_table ''s'' ''o'' (Some ''r'') ''x''))"
  using pc.steps_remember [OF pc.steps_refl, of "\<lambda>b. b" pin_table "((True, True, True, True), ''1'')" "''s''" "''o''" "Some ''r''" "''x''"]
  by simp

theorem pin_never_leaves_witness:
  "stored (snd (RememberReplacement (\<lambda>b. b) (True, True, True, True) ''1'' pin_table ''s'' ''o'' (Some ''r'') ''x'')) ''k''
     = Some (RawPinHandle, ''v'')"
  using pin_never_leaves [OF pin_table_step, of "''k''" "''v''"] by (simp add: store_ok_def stored_def)


text \<open>
  C12. An eviction that is due leaves at most 100000 rows that are not pins, and at most 4096 pixel rows.
\<close>

theorem eviction_bounds:
  assumes "store_ok s" and "prefixWrites s mod prefixCacheEvictEvery = 0"
    and "rows = prefix_rows (evictPrefixReplacements (True, True) s)"
  shows "length (filter (\<lambda>r. row_handle r \<noteq> RawPinHandle) rows) \<le> prefixCacheMaxEntries
    \<and> length (filter (\<lambda>r. row_handle r = PixelHandle) rows) \<le> prefixCachePixelMaxEntries"
  using evict_bounds [OF assms(1,2)] assms(3) by simp

theorem eviction_bounds_witness:
  "length (filter (\<lambda>r. row_handle r \<noteq> RawPinHandle) (prefix_rows (evictPrefixReplacements (True, True) pin_table)))
      \<le> prefixCacheMaxEntries
    \<and> length (filter (\<lambda>r. row_handle r = PixelHandle) (prefix_rows (evictPrefixReplacements (True, True) pin_table)))
      \<le> prefixCachePixelMaxEntries"
  using eviction_bounds [OF _ _ refl, of pin_table] by (simp add: store_ok_def)

text \<open>
  C13. The framing of components is unambiguous: under a hash without collisions, different component lists
  have different digests, also where their bytes concatenate to the same string.
\<close>

theorem digests_tell_components_apart:
  assumes "inj h" and "\<forall>c \<in> set cs. length c < 2 ^ 64" and "\<forall>d \<in> set ds. length d < 2 ^ 64" and "cs \<noteq> ds"
  shows "digestComponents h (map frameComponent cs) \<noteq> digestComponents h (map frameComponent ds)"
  using assms frames_inject [of cs ds] by (auto simp: digestComponents_def inj_eq)

theorem digests_tell_components_apart_witness:
  "digestComponents (\<lambda>b. b) (map frameComponent [''ab'', ''c'']) \<noteq>
     digestComponents (\<lambda>b. b) (map frameComponent [''a'', ''bc''])"
  using digests_tell_components_apart [of "\<lambda>b. b" "[''ab'', ''c'']" "[''a'', ''bc'']"] by simp

text \<open>
  C14. A pin written through to the store is found again by a process that starts later, with nothing in
  memory, whatever other calls the store served in between.
\<close>

theorem pin_survives_restart:
  assumes "\<forall>j. rio j = ((True, True, snd (snd (fst (rio j)))), snd (rio j))"
    and "slots_ready h identity (encode p) s" and "identity \<noteq> []" and "0 < pin_n p" and "length (pin_digest p) = 32"
    and "pc.cache_steps h (pin_slots h rio identity (encode p) [0..<rawPinSlots] s) t" and "\<forall>j. fst (fst (io j))"
  shows "p \<in> set (fst (pinsFor h io identity [] t))"
  using assms by (rule pin_found_again)

abbreviation empty_store :: prefix_store where
  "empty_store \<equiv> \<lparr>prefix_rows = [], prefixWrites = 0\<rparr>"

abbreviation good_write :: "nat \<Rightarrow> remember_io" where
  "good_write \<equiv> \<lambda>_. ((True, True, True, True), ''1'')"

abbreviation good_read :: "nat \<Rightarrow> lookup_io" where
  "good_read \<equiv> \<lambda>_. ((True, True), ''2'', ''0'')"

abbreviation some_pin :: rawPin where
  "some_pin \<equiv> \<lparr>pin_n = 7, pin_digest = replicate 32 (CHR ''d'')\<rparr>"

lemma empty_ready: "slots_ready h identity value empty_store"
  by (auto simp: slots_ready_def store_ok_def stored_def rawPinSlots_def intro: exI [of _ 0])

theorem pin_survives_restart_witness:
  "some_pin \<in> set (fst (pinsFor (\<lambda>b. b) good_read ''conv'' []
     (pin_slots (\<lambda>b. b) good_write ''conv'' (encode some_pin) [0..<rawPinSlots] empty_store)))"
  using pin_survives_restart [OF _ empty_ready _ _ _ pc.steps_refl, of good_write "''conv''" some_pin good_read]
  by simp

text \<open>
  The identity that takes the last free place in memory loses its pins: the load adds them and then
  empties the map, and every later call finds an empty set that is marked as loaded.
\<close>

theorem pinsFor_forgets:
  assumes "Suc (length ids) = rawPinIdentities" and "map_of ids identity = None"
  shows "fst (pinsFor h io identity ids s) = []
    \<and> fst (pinsFor h io' identity (fst (snd (pinsFor h io identity ids s))) s') = []"
  using pinsFor_loses [OF assms] by blast

abbreviation full_memory :: rawPins where
  "full_memory \<equiv> map (\<lambda>i. (be_bytes 2 i, \<lparr>loaded = True, pins = [some_pin]\<rparr>)) [0..<4095]"

lemma map_of_two_bytes: "length k \<noteq> 2 \<Longrightarrow> map_of (map (\<lambda>i. (be_bytes 2 i, st)) ns) k = None"
  by (induction ns) auto

lemma full_memory_new: "map_of full_memory ''conv'' = None"
  by (rule map_of_two_bytes) simp

theorem pinsFor_forgets_witness:
  "fst (pinsFor (\<lambda>b. b) good_read ''conv'' full_memory
     (pin_slots (\<lambda>b. b) good_write ''conv'' (encode some_pin) [0..<rawPinSlots] empty_store)) = []"
  using pinsFor_forgets [OF _ full_memory_new, of "\<lambda>b. b" good_read
      "pin_slots (\<lambda>b. b) good_write ''conv'' (encode some_pin) [0..<rawPinSlots] empty_store"]
  by (simp add: rawPinIdentities_def)





text \<open>
  The tripwire's memory is bounded: 8192 sessions, 16 anchors each.
\<close>

theorem monitor_bounded:
  "\<exists>m. monitor_run h obs = Some m \<and> distinct (session_order m) \<and> dom (last_anchors m) = set (session_order m)
     \<and> length (session_order m) \<le> defaultPrefixMonitorCap
     \<and> (\<forall>session. length (session_anchors m session) \<le> maxAnchorsPerSession)"
proof -
  obtain m where m: "monitor_run h obs = Some m" "monitor_ok m" using monitor_run_ok by blast
  then have "length (session_anchors m session) \<le> maxAnchorsPerSession" for session
    using session_anchors_ok [OF m(2), of session] by (simp add: anchors_ok_def)
  then show ?thesis using m by (auto simp: monitor_ok_def fifo_inv_def)
qed

text \<open>
  C16. While every request is forwarded as the client sent it, the tripwire never blames the proxy.
\<close>

theorem monitor_no_false_alarm:
  assumes "\<forall>(session, ob) \<in> set obs. obs_forwarded ob = obs_client ob" and "obs_forwarded ob = obs_client ob"
  shows "fst (fst (observe h (monitor_run h obs) session ob)) \<in> {NoCause, bustCauseClient}"
proof -
  obtain m where m: "monitor_run h obs = Some m" "honest m" using monitor_run_honest [OF assms(1)] by blast
  obtain c i m' where o: "observe h (Some m) session ob = ((c, i), m')" by (metis prod.exhaust)
  show ?thesis using observe_honest [OF m(2) assms(2) o] m(1) o by simp
qed

abbreviation ob_of :: "bytes list \<Rightarrow> bytes list \<Rightarrow> int \<Rightarrow> nat \<Rightarrow> observation" where
  "ob_of client forwarded cached n \<equiv> \<lparr>obs_client = client, obs_forwarded = forwarded, obs_cached = cached,
     obs_rebase = NoCause, obs_pinned = 0, obs_followed = 0, obs_rollover = 0, obs_sent = 0, obs_accepted = n\<rparr>"

theorem monitor_no_false_alarm_witness:
  "fst (fst (observe (\<lambda>b. b) (monitor_run (\<lambda>b. b) [(''s'', ob_of [''a'', ''b''] [''a'', ''b''] 2 1)]) ''s''
     (ob_of [''a'', ''x''] [''a'', ''x''] 2 2))) \<in> {NoCause, bustCauseClient}"
  using monitor_no_false_alarm [of "[(''s'', ob_of [''a'', ''b''] [''a'', ''b''] 2 1)]" "ob_of [''a'', ''x''] [''a'', ''x''] 2 2"]
  by simp

text \<open>
  C17. Two requests of one session, one observed right after the other, with components compared by
  digest. If the first had a cached component, and the second repeats the cached components of the first
  as the client sent them but not as they were forwarded, then the tripwire blames the proxy, at the first
  difference or before it. The exceptions the tripwire makes on purpose are left out: the second request is no
  raw retry and no stream switch (\<open>obs_rebase\<close>), no raw pin covers a part of it (\<open>obs_pinned\<close>), it follows
  no replaced lineage (\<open>obs_followed\<close>), no frozen lever allows it a rollover (\<open>obs_rollover\<close>), and it was
  not sent before the first was accepted (or its order is not known). Both observations are well formed
  (\<open>valid_obs\<close>).
\<close>

theorem monitor_detects:
  assumes "valid_obs session ob1" and "0 < obs_cached ob1" and "observe h (Some m0) session ob1 = (r1, Some m)"
    and "valid_obs session ob2" and "obs_rebase ob2 = NoCause" and "obs_rollover ob2 = 0" and "obs_pinned ob2 = 0"
    and "obs_followed ob2 = 0" and "obs_sent ob2 = 0 \<or> obs_accepted ob1 \<le> obs_sent ob2"
    and "prefix (map h (take (nat (obs_cached ob1)) (obs_client ob1))) (map h (obs_client ob2))"
    and "\<not> prefix (map h (take (nat (obs_cached ob1)) (obs_forwarded ob1))) (map h (obs_forwarded ob2))"
  shows "\<exists>i m'. observe h (Some m) session ob2 = ((bustCauseCaveman, i), m') \<and> 0 \<le> i
    \<and> i \<le> int (commonPrefixLen (map h (take (nat (obs_cached ob1)) (obs_forwarded ob1))) (map h (obs_forwarded ob2)))"
proof -
  let ?a = "new_anchor h ob1"
  have a: "?a \<in> set (session_anchors m session)" by (rule observe_records [OF assms(1-3)])
  have "0 < nat (obs_cached ob1)" "obs_forwarded ob1 \<noteq> []"
    using assms(1,2) by (auto simp: valid_obs_def)
  then have "0 < length (anchor_forwarded ?a)" by (simp add: new_anchor_def digestEach_def)
  then have "diverges ob2 (cur_anchor h ob2) ?a"
    using assms(7-11)
    by (auto simp: diverges_def bound_anchor_def new_anchor_def cur_anchor_def digestEach_def take_map)
  from observe_detects [OF assms(4) a this assms(5,6)] show ?thesis
    by (simp add: new_anchor_def digestEach_def take_map)
qed

lemma first_observed:
  "\<exists>m r. observe (\<lambda>b. b) (Some newPrefixMonitor) ''s'' (ob_of [''a'', ''b''] [''a'', ''B''] 2 1) = (r, Some m)"
  by (simp add: observe_def Let_def newPrefixMonitor_def split: prod.split)

theorem monitor_detects_witness:
  "\<exists>m r i m'. observe (\<lambda>b. b) (Some newPrefixMonitor) ''s'' (ob_of [''a'', ''b''] [''a'', ''B''] 2 1) = (r, Some m)
     \<and> observe (\<lambda>b. b) (Some m) ''s'' (ob_of [''a'', ''b''] [''a'', ''b''] 2 2) = ((bustCauseCaveman, i), m')"
proof -
  obtain m r where o: "observe (\<lambda>b. b) (Some newPrefixMonitor) ''s'' (ob_of [''a'', ''b''] [''a'', ''B''] 2 1) = (r, Some m)"
    using first_observed by blast
  show ?thesis using o monitor_detects [OF _ _ o, of "ob_of [''a'', ''b''] [''a'', ''b''] 2 2"]
    by (auto simp: valid_obs_def)
qed

text \<open>
  C18. In every reachable state of the warmer at most two warms are in flight, held bytes and real requests
  are counted exactly, memory is bounded, and a request is held for an entry exactly when one current
  job is there to send or release it.
\<close>

theorem warm_invariant:
  assumes "warm_run (warm_init t) evs s"
  shows "sending (warmer s) = int (length (filter is_sending (jobs (warmer s)))) \<and> sending (warmer s) \<le> 2
    \<and> (\<forall>k. real_count (warmer s) k = int (count_list (inflight s) k))
    \<and> bytes_held (warmer s) = sum_list (map held (ents (warmer s)))
    \<and> length (lru (warmer s)) \<le> cacheWarmMaxEntries
    \<and> (bytes_held (warmer s) \<le> cacheWarmMaxBytes \<or> length (lru (warmer s)) \<le> 1)
    \<and> (\<forall>a < length (ents (warmer s)). map job_req (current (warmer s) a) =
         (case ent_req (ents (warmer s) ! a) of None \<Rightarrow> [] | Some r \<Rightarrow> [r]))"
  using reach_inv [OF assms]
  by (auto simp: world_inv_def winv_def base_inv_def send_inv_def bytes_inv_def cap_inv_def counts_inv_def cur_inv_def
      cacheWarmMaxConcurrent_def)

abbreviation warm_req :: warmRequest where
  "warm_req \<equiv> \<lparr>req_body = ''body'', req_ttl = 300 * second, req_cred = ''c'', req_plan = [True, True]\<rparr>"

abbreviation warm_job :: "job_state \<Rightarrow> job" where
  "warm_job st \<equiv> \<lparr>job_id = 0, job_addr = 0, job_gen = 1, job_req = warm_req, job_k = 1, job_deadline = 285 * second,
     job_horizon = 3600 * second, job_state = st\<rparr>"

abbreviation armed_warmer :: cacheWarmer where
  "armed_warmer \<equiv> \<lparr>ents = [\<lparr>ent_key = ''k'', ent_gen = 1, ent_timer = Some 0, ent_req = Some warm_req, ent_class = ''cl'',
       ent_lastStart = 0, ent_pending = True\<rparr>], entries = [''k'' \<mapsto> 0], lru = [0], bytes_held = 4, real_count = (\<lambda>_. 0),
     pausedUntil = Map.empty, swept = 0, sending = 0, jobs = [warm_job (Armed (270 * second))], next_job = 1\<rparr>"

lemma arm_evict_none:
  "length (lru w) \<le> cacheWarmMaxEntries \<Longrightarrow> bytes_held w \<le> cacheWarmMaxBytes \<Longrightarrow> arm_evict a now seen w = (seen, w)"
  by (subst arm_evict.simps) auto

lemma arm_example: "snd (warm_arm ''k'' ''cl'' (Some warm_req) 0 0 0 newCacheWarmer) = armed_warmer"
  by (simp add: warm_arm_def sweepLocked_def newCacheWarmer_def zero_time_def time_sub_def arm_entry_def stopLocked_def
      releaseLocked_def stop_timer_def ent_upd_def scheduleLocked_def cacheWarmDelay_def go_quot_def wrap64_def after_func_def
      cacheWarmHorizon_def arm_evict_none cacheWarmMaxEntries_def cacheWarmMaxBytes_def Let_def)

abbreviation warm_armed :: warm_world where
  "warm_armed \<equiv> \<lparr>warmer = armed_warmer, inflight = [], wall = 0\<rparr>"

lemma run_armed: "warm_run (warm_init 0) [Arm ''k'' ''cl'' (Some warm_req) 0 0] warm_armed"
  using run_snoc [OF run_nil arms [of 0 "warm_init 0" "''k''" "''cl''" "Some warm_req" 0]] arm_example
  by (simp add: cacheWarmJitter_def warm_init_def)

theorem warm_invariant_witness: "sending (warmer warm_armed) \<le> 2"
  using warm_invariant [OF run_armed] by simp

text \<open>
  C19. A warm is sent only when it is enabled, in time, not paused, its stream has no real request in
  flight, a slot is free and the plan asks for it.
\<close>

theorem warm_sends_only:
  assumes "warm_run (warm_init t) evs s" and "warm_step s (Fire i enabled) s'"
    and "sending (warmer s) < sending (warmer s')"
  shows "\<exists>j \<in> set (jobs (warmer s)). job_id j = i \<and> may_send s j enabled"
proof -
  obtain j where j: "j \<in> set (jobs (warmer s))" "job_id j = i" "s' = s\<lparr>warmer := fire j (wall s) enabled (warmer s)\<rparr>"
    using assms(2) by (auto elim: FireE)
  then have "may_send s j enabled" using assms(3) by (intro fire_sends_only [OF reach_inv [OF assms(1)]]) auto
  then show ?thesis using j by auto
qed

abbreviation warm_started :: warm_world where
  "warm_started \<equiv> \<lparr>warmer = armed_warmer\<lparr>jobs := [warm_job Started]\<rparr>, inflight = [], wall = 270 * second\<rparr>"

lemma run_started: "\<exists>evs. warm_run (warm_init 0) evs warm_started"
proof -
  have "warm_run (warm_init 0) ([Arm ''k'' ''cl'' (Some warm_req) 0 0] @ [Tick (270 * second)]) (warm_armed\<lparr>wall := 270 * second\<rparr>)"
    by (rule run_snoc [OF run_armed tick])
  from run_snoc [OF this expires [of "warm_job (Armed (270 * second))"]] show ?thesis
    by (auto simp: start_job_def simp del: append_Cons)
qed

abbreviation warm_sending :: warm_world where
  "warm_sending \<equiv> warm_started\<lparr>warmer := fire (warm_job Started) (270 * second) True (warmer warm_started)\<rparr>"

lemma started_fires: "warm_step warm_started (Fire 0 True) warm_sending"
  using fires [of "warm_job Started" warm_started True] by simp

lemma started_sends: "sending (warmer warm_started) < sending (warmer warm_sending)"
  by (simp add: fire_def ent_upd_def pausedLocked_def zero_time_def cacheWarmMaxConcurrent_def Let_def)

theorem warm_sends_only_witness: "may_send warm_started (warm_job Started) True"
proof -
  obtain evs where "warm_run (warm_init 0) evs warm_started" using run_started by blast
  from warm_sends_only [OF this started_fires started_sends] show ?thesis by simp
qed

text \<open>
  C20. Once a request of a stream has begun, no warm of that stream is sent until the stream is armed
  again, whatever callbacks were already running.
\<close>

theorem warm_stops_at_begin:
  assumes "warm_run (warm_init t) evs s" and "warm_step s (Begin k) s1" and "warm_run s1 evs1 s2"
    and "\<forall>ev \<in> set evs1. \<forall>c r start j. ev \<noteq> Arm k c r start j" and "warm_step s2 (Fire i enabled) s3"
    and "\<forall>j \<in> set (jobs (warmer s2)). job_id j = i \<longrightarrow> ent_key (ents (warmer s2) ! job_addr j) = k"
  shows "sending (warmer s3) \<le> sending (warmer s2)"
proof -
  have i: "world_inv s" using reach_inv [OF assms(1)] .
  have i1: "world_inv s1" using step_inv [OF assms(2) i] .
  have i2: "world_inv s2" using run_inv [OF assms(3) i1] .
  have "quiet k (warmer s1)"
    using assms(2) begin_quiet [of "warmer s" k "wall s"] i by (auto simp: world_inv_def elim: BeginE)
  then have q: "quiet k (warmer s2)" using run_quiet [OF assms(3) i1 _ assms(4)] by blast
  obtain j where j: "j \<in> set (jobs (warmer s2))" "job_id j = i" "s3 = s2\<lparr>warmer := fire j (wall s2) enabled (warmer s2)\<rparr>"
    using assms(5) by (auto elim: FireE)
  then show ?thesis using quiet_no_send [OF i2 q j(1)] assms(6) by auto
qed

abbreviation warm_begun :: warm_world where
  "warm_begun \<equiv> \<lparr>warmer = snd (warm_begin ''k'' (270 * second) (warmer warm_started)), inflight = [''k''], wall = 270 * second\<rparr>"

lemma begun_jobs: "jobs (warmer warm_begun) = [warm_job Started]" "ent_key (ents (warmer warm_begun) ! 0) = ''k''"
  by (simp_all add: warm_begin_def stopLocked_def releaseLocked_def stop_timer_def ent_upd_def Let_def)

lemma started_begins: "warm_step warm_started (Begin ''k'') warm_begun"
  using begins [of warm_started "''k''"] by simp

lemma begun_fires: "warm_step warm_begun (Fire 0 True)
    (warm_begun\<lparr>warmer := fire (warm_job Started) (270 * second) True (warmer warm_begun)\<rparr>)"
  using fires [of "warm_job Started" warm_begun True] begun_jobs(1) by simp

theorem warm_stops_at_begin_witness:
  "sending (fire (warm_job Started) (270 * second) True (warmer warm_begun)) \<le> sending (warmer warm_begun)"
proof -
  obtain evs where run: "warm_run (warm_init 0) evs warm_started" using run_started by blast
  from warm_stops_at_begin [OF run started_begins run_nil _ begun_fires] show ?thesis
    using begun_jobs by simp
qed

end
