(* ===== verification/Anthropic_Splice.thy ===== *)
theory Anthropic_Splice
  imports Json_Splice
begin

text \<open>
  The Anthropic adapter's own splicer (proxy/providers/anthropic/splice.go) and the count of frozen
  messages (frozen.go). Offsets are natural numbers: the code makes no span with a negative one. A
  scanner's second result \<open>false\<close> is \<open>None\<close>. The facts say that these scanners are those of
  jsonsplice, so that what is proved of one holds of the other.
\<close>

section \<open>Scanning\<close>

record jsonSpan =
  span_start :: nat
  span_end :: nat

definition skip_byte :: "char \<Rightarrow> bool" where
  "skip_byte c \<longleftrightarrow> c = CHR '' '' \<or> c = CHR 0x0A \<or> c = CHR 0x0D \<or> c = CHR 0x09"

function skipJSONSpace :: "bytes \<Rightarrow> nat \<Rightarrow> nat" where
  "skipJSONSpace body i = (if i < length body \<and> skip_byte (body ! i) then skipJSONSpace body (Suc i) else i)"
  by pat_completeness auto
termination
  by (relation "measure (\<lambda>(b, i). length b - i)") auto

declare skipJSONSpace.simps [simp del]

text \<open>\<open>quote\<close> is the offset of the next quote at or after \<open>i\<close>, if it is at or after \<open>i\<close>.\<close>

function scan_string_loop :: "bytes \<Rightarrow> nat \<Rightarrow> int \<Rightarrow> nat option" where
  "scan_string_loop body i quote0 =
     (if i < length body then
        (case (if quote0 < int i then map_option (\<lambda>next. i + next) (index_byte (drop i body) (CHR 0x22))
               else Some (nat quote0)) of
           None \<Rightarrow> None
         | Some q \<Rightarrow>
             (case index_byte (slice body i q) (CHR 0x5C) of
                None \<Rightarrow> Some (q + 1)
              | Some escape \<Rightarrow> scan_string_loop body (i + escape + 2) (int q)))
      else None)"
  by pat_completeness auto
termination
  by (relation "measure (\<lambda>(b, i, _). length b - i)") auto

declare scan_string_loop.simps [simp del]

definition scanJSONString :: "bytes \<Rightarrow> nat \<Rightarrow> nat option" where
  "scanJSONString body i =
     (if i \<ge> length body \<or> body ! i \<noteq> CHR 0x22 then None else scan_string_loop body (i + 1) (-1))"

section \<open>The string scanner is jsonsplice's\<close>

lemma js_string_loop_plain:
  "CHR 0x22 \<notin> set (slice b i j) \<Longrightarrow> CHR 0x5C \<notin> set (slice b i j) \<Longrightarrow> i \<le> j \<Longrightarrow> j \<le> length b \<Longrightarrow>
     js_string_loop b i = js_string_loop b j"
proof (induction "j - i" arbitrary: i)
  case (Suc k)
  then have i: "i < j" "i < length b" by auto
  then have c: "slice b i j = b ! i # slice b (Suc i) j" by (rule slice_Cons_step)
  with Suc.prems have "b ! i \<noteq> CHR 0x22" "b ! i \<noteq> CHR 0x5C" by auto
  then have "js_string_loop b i = js_string_loop b (Suc i)" using i by (subst js_string_loop.simps) simp
  also have "\<dots> = js_string_loop b j" using Suc.prems Suc.hyps(2) i c by (intro Suc.hyps(1)) simp_all
  finally show ?case .
qed simp

lemma js_string_loop_none: "CHR 0x22 \<notin> set (drop i b) \<Longrightarrow> js_string_loop b i = None"
proof (induction b i rule: js_string_loop.induct)
  case (1 b i)
  have sub: "set (drop (Suc i) b) \<subseteq> set (drop i b)" "set (drop (Suc (Suc i)) b) \<subseteq> set (drop i b)"
    by (rule set_drop_subset_set_drop, simp)+
  have "i < length b \<Longrightarrow> b ! i \<noteq> CHR 0x22" using 1 by (metis Cons_nth_drop_Suc list.set_intros(1))
  moreover have "CHR 0x22 \<notin> set (drop (Suc i) b)" "CHR 0x22 \<notin> set (drop (Suc (Suc i)) b)" using 1 sub by blast+
  ultimately show ?case using "1.IH" by (subst js_string_loop.simps) simp
qed

definition next_quote :: "bytes \<Rightarrow> nat \<Rightarrow> nat \<Rightarrow> bool" where
  "next_quote b i q \<longleftrightarrow> i \<le> q \<and> q < length b \<and> b ! q = CHR 0x22 \<and> CHR 0x22 \<notin> set (slice b i q)"

lemma index_next_quote:
  assumes "index_byte (drop i b) (CHR 0x22) = Some n"
  shows "next_quote b i (i + n)"
  using index_byte_Some [OF assms] by (auto simp: next_quote_def slice_def)

lemma next_quote_later: "next_quote b i q \<Longrightarrow> i \<le> j \<Longrightarrow> j \<le> q \<Longrightarrow> next_quote b j q"
  using arg_cong [OF slice_append [of i j q b], of set] by (auto simp: next_quote_def)

lemma scan_string_loop_eq:
  "quote0 < int i \<or> next_quote b i (nat quote0) \<Longrightarrow> scan_string_loop b i quote0 = js_string_loop b i"
proof (induction b i quote0 rule: scan_string_loop.induct)
  case (1 b i quote0)
  let ?q = "if quote0 < int i then map_option (\<lambda>next. i + next) (index_byte (drop i b) (CHR 0x22)) else Some (nat quote0)"
  show ?case
  proof (cases "i < length b")
    case il: True
    show ?thesis
    proof (cases ?q)
      case None
      then have "CHR 0x22 \<notin> set (drop i b)" by (simp add: index_byte_None split: if_splits)
      then show ?thesis using None js_string_loop_none [of i b] by (subst scan_string_loop.simps) simp
    next
      case (Some q)
      then have q: "next_quote b i q" using "1.prems" index_next_quote by (auto split: if_splits)
      show ?thesis
      proof (cases "index_byte (slice b i q) (CHR 0x5C)")
        case None
        then have "js_string_loop b i = js_string_loop b q"
          using q by (intro js_string_loop_plain) (auto simp: next_quote_def index_byte_None)
        also have "\<dots> = Some (q + 1)" using q by (subst js_string_loop.simps) (simp add: next_quote_def)
        finally show ?thesis using il Some None by (subst scan_string_loop.simps) simp
      next
        case (Some e)
        have e: "i + e < q" "b ! (i + e) = CHR 0x5C" "CHR 0x5C \<notin> set (slice b i (i + e))"
          using index_byte_Some [OF Some] q
          by (auto simp: next_quote_def nth_slice slice_def min_def split: if_splits)
        have sub: "set (slice b i (i + e)) \<subseteq> set (slice b i q)"
          using e(1) slice_append [of i "i + e" q b] by (metis Un_upper1 le_add1 less_imp_le set_append)
        have "js_string_loop b i = js_string_loop b (i + e)"
          using e q sub by (intro js_string_loop_plain) (auto simp: next_quote_def)
        also have "\<dots> = js_string_loop b (i + e + 2)"
          using e q by (subst js_string_loop.simps) (simp add: next_quote_def)
        also have "\<dots> = scan_string_loop b (i + e + 2) (int q)"
          using "1.IH" [OF il \<open>?q = Some q\<close> Some] next_quote_later [OF q, of "i + e + 2"] e(1)
          by (cases "i + e + 2 \<le> q") auto
        finally show ?thesis using il \<open>?q = Some q\<close> Some by (subst scan_string_loop.simps) simp
      qed
    qed
  next
    case False
    then show ?thesis by (subst scan_string_loop.simps, subst js_string_loop.simps) simp
  qed
qed

lemma scanJSONString_eq: "scanJSONString b i = js_stringEnd b i"
  by (simp add: scanJSONString_def js_stringEnd_def scan_string_loop_eq)

lemma scanJSONString_bounds [scan_bounds]: "scanJSONString b i = Some e \<Longrightarrow> i < e \<and> e \<le> length b"
  by (simp add: scanJSONString_eq js_stringEnd_bounds)

lemma skipJSONSpace_eq: "skipJSONSpace b i = js_space b i"
proof (induction b i rule: js_space.induct)
  case (1 b i)
  then show ?case by (subst js_space.simps, subst skipJSONSpace.simps) (auto simp: skip_byte_def)
qed

lemma skipJSONSpace_ge: "i \<le> skipJSONSpace b i"
  by (simp add: skipJSONSpace_eq js_space_ge)

section \<open>Values\<close>

function scan_container :: "bytes \<Rightarrow> nat \<Rightarrow> int \<Rightarrow> nat option" where
  "scan_container body j depth =
     (if j < length body then
        (if body ! j = CHR 0x22 then
           (case scanJSONString body j of None \<Rightarrow> None | Some e \<Rightarrow> scan_container body e depth)
         else if body ! j = CHR ''{'' \<or> body ! j = CHR ''['' then scan_container body (j + 1) (depth + 1)
         else if body ! j = CHR ''}'' \<or> body ! j = CHR '']'' then
           (if depth - 1 = 0 then Some (j + 1)
            else if depth - 1 < 0 then None
            else scan_container body (j + 1) (depth - 1))
         else scan_container body (j + 1) depth)
      else None)"
  by pat_completeness auto
termination
  by (relation "measure (\<lambda>(b, j, _). length b - j)") (auto dest!: scanJSONString_bounds)

declare scan_container.simps [simp del]

definition atom_byte :: "char \<Rightarrow> bool" where
  "atom_byte c \<longleftrightarrow> c \<notin> set [CHR '','', CHR ''}'', CHR '']'', CHR '' '', CHR 0x0A, CHR 0x0D, CHR 0x09]"

function scan_atom :: "bytes \<Rightarrow> nat \<Rightarrow> nat \<Rightarrow> nat option" where
  "scan_atom body i j =
     (if j < length body then
        (if \<not> atom_byte (body ! j) then (if j = i then None else Some j)
         else scan_atom body i (j + 1))
      else if j > i then Some j else None)"
  by pat_completeness auto
termination
  by (relation "measure (\<lambda>(b, _, j). length b - j)") auto

declare scan_atom.simps [simp del]

definition scanJSONValue :: "bytes \<Rightarrow> nat \<Rightarrow> nat option" where
  "scanJSONValue body at =
     (let i = skipJSONSpace body at in
      if i \<ge> length body then None
      else if body ! i = CHR 0x22 then scanJSONString body i
      else if body ! i = CHR ''{'' \<or> body ! i = CHR ''['' then scan_container body i 0
      else scan_atom body i i)"

lemma scan_container_eq: "1 \<le> d \<Longrightarrow> scan_container b j d = js_container b j d"
proof (induction b j d rule: scan_container.induct)
  case (1 b j d)
  then show ?case
    by (subst scan_container.simps, subst js_container.simps) (auto simp: scanJSONString_eq split: option.splits)
qed

lemma scan_container_open:
  assumes "b ! j = CHR ''{'' \<or> b ! j = CHR ''[''"
  shows "scan_container b j 0 = js_container b j 0"
proof -
  have "scan_container b (j + 1) 1 = js_container b (Suc j) 1" using scan_container_eq [of 1 b "j + 1"] by simp
  then show ?thesis using assms by (subst scan_container.simps, subst js_container.simps) auto
qed

lemma scan_atom_eq: "i \<le> j \<Longrightarrow> scan_atom b i j = (let e = js_atomEnd b j in if i < e then Some e else None)"
proof (induction b i j rule: scan_atom.induct)
  case (1 b i j)
  then show ?case
    by (subst scan_atom.simps, subst js_atomEnd.simps) (auto simp: atom_byte_def Let_def)
qed

lemma scanJSONValue_eq: "scanJSONValue b i = js_value b i"
  using scan_container_open [of b "js_space b i"]
  by (auto simp: scanJSONValue_def js_value_def skipJSONSpace_eq scanJSONString_eq scan_atom_eq Let_def)

lemma scanJSONValue_bounds [scan_bounds]: "scanJSONValue b i = Some e \<Longrightarrow> i < e \<and> e \<le> length b"
  by (simp add: scanJSONValue_eq js_value_bounds)

section \<open>Objects and arrays\<close>

definition decodeJSONString :: "bytes \<Rightarrow> bytes option" where
  "decodeJSONString raw = unmarshal_string raw"

definition rootObjectSpan :: "bytes \<Rightarrow> jsonSpan option" where
  "rootObjectSpan body =
     (let i = skipJSONSpace body 0 in
      if i \<ge> length body \<or> body ! i \<noteq> CHR ''{'' then None
      else case scanJSONValue body i of
        None \<Rightarrow> None
      | Some e \<Rightarrow> if skipJSONSpace body e \<noteq> length body then None else Some \<lparr>span_start = i, span_end = e\<rparr>)"

definition opens_with :: "bytes \<Rightarrow> jsonSpan \<Rightarrow> char \<Rightarrow> bool" where
  "opens_with body s c \<longleftrightarrow> \<not> (span_end s > length body \<or> span_start s \<ge> span_end s \<or> body ! span_start s \<noteq> c)"

function find_field_loop :: "bytes \<Rightarrow> nat \<Rightarrow> bytes \<Rightarrow> nat \<Rightarrow> jsonSpan option" where
  "find_field_loop body obj_end field i =
     (if i < obj_end then
        (if body ! i = CHR ''}'' then None
         else if body ! i \<noteq> CHR 0x22 then None
         else case scanJSONString body i of
           None \<Rightarrow> None
         | Some keyEnd \<Rightarrow>
             (case decodeJSONString (slice body i keyEnd) of
                None \<Rightarrow> None
              | Some key \<Rightarrow>
                  let c = skipJSONSpace body keyEnd in
                  if c \<ge> obj_end \<or> body ! c \<noteq> CHR '':'' then None
                  else
                    let v_start = skipJSONSpace body (c + 1) in
                    (case scanJSONValue body v_start of
                       None \<Rightarrow> None
                     | Some v_end \<Rightarrow>
                         if key = field then Some \<lparr>span_start = v_start, span_end = v_end\<rparr>
                         else
                           let s = skipJSONSpace body v_end in
                           find_field_loop body obj_end field
                             (if s < obj_end \<and> body ! s = CHR '','' then skipJSONSpace body (s + 1) else s))))
      else None)"
  by pat_completeness auto
termination
proof (relation "measure (\<lambda>(body, _, _, i). length body - i)", goal_cases)
  case (2 body obj_end field i keyEnd key c v_start v_end s)
  have k: "i < keyEnd" "keyEnd \<le> length body" using scanJSONString_bounds 2 by auto
  have "keyEnd \<le> c" using 2 skipJSONSpace_ge by simp
  moreover have "c < v_start" using 2 skipJSONSpace_ge [of "c + 1" body] by simp
  moreover have "v_start < v_end" using 2 scanJSONValue_bounds by simp
  moreover have "v_end \<le> s" using 2 skipJSONSpace_ge by simp
  ultimately have "i < (if s < obj_end \<and> body ! s = CHR '','' then skipJSONSpace body (s + 1) else s)"
    using k skipJSONSpace_ge [of "s + 1" body] by auto
  then show ?case using k by auto
qed simp

declare find_field_loop.simps [simp del]

definition findObjectField :: "bytes \<Rightarrow> jsonSpan \<Rightarrow> bytes \<Rightarrow> jsonSpan option" where
  "findObjectField body ob field =
     (if \<not> opens_with body ob (CHR ''{'') then None
      else find_field_loop body (span_end ob) field (skipJSONSpace body (span_start ob + 1)))"

function array_elements_loop :: "bytes \<Rightarrow> nat \<Rightarrow> nat \<Rightarrow> jsonSpan list \<Rightarrow> jsonSpan list option" where
  "array_elements_loop body arr_end i out =
     (if i < arr_end then
        (if body ! i = CHR '']'' then Some out
         else case scanJSONValue body i of
           None \<Rightarrow> None
         | Some v_end \<Rightarrow>
             let s = skipJSONSpace body v_end in
             array_elements_loop body arr_end
               (if s < arr_end \<and> body ! s = CHR '','' then skipJSONSpace body (s + 1) else s)
               (out @ [\<lparr>span_start = i, span_end = v_end\<rparr>]))
      else None)"
  by pat_completeness auto
termination
proof (relation "measure (\<lambda>(body, _, i, _). length body - i)", goal_cases)
  case (2 body arr_end i out v_end s)
  have v: "i < v_end" "v_end \<le> length body" using scanJSONValue_bounds 2 by auto
  moreover have "v_end \<le> s" using 2 skipJSONSpace_ge by simp
  ultimately have "i < (if s < arr_end \<and> body ! s = CHR '','' then skipJSONSpace body (s + 1) else s)"
    using skipJSONSpace_ge [of "s + 1" body] by auto
  then show ?case using v by auto
qed simp

declare array_elements_loop.simps [simp del]

definition arrayElements :: "bytes \<Rightarrow> jsonSpan \<Rightarrow> jsonSpan list option" where
  "arrayElements body arr =
     (if \<not> opens_with body arr (CHR ''['') then None
      else array_elements_loop body (span_end arr) (skipJSONSpace body (span_start arr + 1)) [])"

definition isJSONString :: "bytes \<Rightarrow> jsonSpan \<Rightarrow> bool" where
  "isJSONString body s \<longleftrightarrow>
     span_start s < span_end s \<and> span_end s \<le> length body \<and> body ! span_start s = CHR 0x22"

definition objectStringField :: "bytes \<Rightarrow> jsonSpan \<Rightarrow> bytes \<Rightarrow> bytes option" where
  "objectStringField body ob field =
     (case findObjectField body ob field of
        None \<Rightarrow> None
      | Some v \<Rightarrow>
          if \<not> isJSONString body v then None else decodeJSONString (slice body (span_start v) (span_end v)))"

section \<open>Replacing strings\<close>

record spliceCandidate = jsonSpan +
  original :: bytes
  cand_kind :: bytes

definition quoteJSONStringNoHTML :: "bytes \<Rightarrow> bytes" where
  "quoteJSONStringNoHTML s = marshal_string False s"

text \<open>\<open>out\<close> is \<open>None\<close> until a candidate has changed.\<close>

fun splice_loop :: "bytes \<Rightarrow> (spliceCandidate \<times> bytes option) list \<Rightarrow> bytes option \<Rightarrow> nat \<Rightarrow>
    splice_error + (bytes option \<times> nat)" where
  "splice_loop body [] out lastEnd = Inr (out, lastEnd)"
| "splice_loop body ((c, rep) # rest) out lastEnd =
     (if span_start c < lastEnd \<or> span_end c > length body \<or> span_start c \<ge> span_end c then Inl InvalidRange
      else case rep of
        None \<Rightarrow> splice_loop body rest out lastEnd
      | Some r \<Rightarrow>
          if r = original c then splice_loop body rest out lastEnd
          else
            splice_loop body rest
              (Some ((case out of None \<Rightarrow> [] | Some x \<Rightarrow> x) @ slice body lastEnd (span_start c) @ quoteJSONStringNoHTML r))
              (span_end c))"

definition spliceStringReplacements :: "bytes \<Rightarrow> spliceCandidate list \<Rightarrow> bytes option list \<Rightarrow> splice_error + bytes" where
  "spliceStringReplacements body candidates reps =
     (if length reps \<noteq> length candidates then Inl CountMismatch
      else case splice_loop body (zip candidates reps) None 0 of
        Inl e \<Rightarrow> Inl e
      | Inr (None, _) \<Rightarrow> Inr body
      | Inr (Some out, lastEnd) \<Rightarrow> Inr (out @ drop lastEnd body))"

section \<open>Frozen messages\<close>

definition first_is :: "bytes \<Rightarrow> nat \<Rightarrow> char \<Rightarrow> bool" where
  "first_is body i c \<longleftrightarrow> i < length body \<and> body ! i = c"

text \<open>The blocks of a message's content, when it is an array.\<close>

definition content_blocks :: "bytes \<Rightarrow> jsonSpan list option" where
  "content_blocks raw =
     (case rootObjectSpan raw of
        None \<Rightarrow> None
      | Some msg \<Rightarrow>
          (case findObjectField raw msg ''content'' of
             None \<Rightarrow> None
           | Some content \<Rightarrow> if \<not> first_is raw (span_start content) (CHR ''['') then None else arrayElements raw content))"

definition object_block :: "bytes \<Rightarrow> jsonSpan \<Rightarrow> bool" where
  "object_block raw block \<longleftrightarrow> span_start block < span_end block \<and> raw ! span_start block = CHR ''{''"

definition messageHasContentCacheControl :: "bytes \<Rightarrow> bool" where
  "messageHasContentCacheControl raw =
     (case content_blocks raw of
        None \<Rightarrow> False
      | Some blocks \<Rightarrow>
          list_ex (\<lambda>block. object_block raw block \<and> findObjectField raw block ''cache_control'' \<noteq> None) blocks)"

definition messageHasToolResult :: "bytes \<Rightarrow> bool" where
  "messageHasToolResult raw =
     (case content_blocks raw of
        None \<Rightarrow> False
      | Some blocks \<Rightarrow>
          list_ex (\<lambda>block. object_block raw block \<and> objectStringField raw block ''type'' = Some ''tool_result'') blocks)"

definition messageRoleRaw :: "bytes \<Rightarrow> bytes" where
  "messageRoleRaw raw =
     (case rootObjectSpan raw of
        None \<Rightarrow> []
      | Some msg \<Rightarrow> (case objectStringField raw msg ''role'' of None \<Rightarrow> [] | Some role \<Rightarrow> role))"

definition messagesHaveContentCacheControl :: "bytes list \<Rightarrow> bool" where
  "messagesHaveContentCacheControl messages = list_ex messageHasContentCacheControl messages"

fun frozen_floor :: "bytes list \<Rightarrow> int \<Rightarrow> int \<Rightarrow> int" where
  "frozen_floor [] i fl = fl"
| "frozen_floor (raw # messages) i fl =
     frozen_floor messages (i + 1) (if messageHasContentCacheControl raw then i + 1 else fl)"

definition ComputeFrozenCount :: "bytes list \<Rightarrow> int" where
  "ComputeFrozenCount messages =
     (let fl = frozen_floor messages 0 0;
          mx = int (length messages) - 1
      in if fl > mx then
           (if mx < 0 then 0
            else if mx > 0 \<and> messageRoleRaw (messages ! nat mx) = ''system'' \<and> messageHasToolResult (messages ! nat (mx - 1))
            then mx - 1 else mx)
         else fl)"

text \<open>The member and its comma: the one after it, or before it when it is the last.\<close>

function member_span_loop :: "bytes \<Rightarrow> nat \<Rightarrow> bytes \<Rightarrow> nat option \<Rightarrow> nat \<Rightarrow> jsonSpan option" where
  "member_span_loop body obj_end field prevComma i =
     (if i < obj_end \<and> body ! i = CHR 0x22 then
        (case scanJSONString body i of
           None \<Rightarrow> None
         | Some keyEnd \<Rightarrow>
             (case decodeJSONString (slice body i keyEnd) of
                None \<Rightarrow> None
              | Some key \<Rightarrow>
                  let c = skipJSONSpace body keyEnd in
                  if c \<ge> obj_end \<or> body ! c \<noteq> CHR '':'' then None
                  else
                    (case scanJSONValue body (c + 1) of
                       None \<Rightarrow> None
                     | Some v_end \<Rightarrow>
                         let next = skipJSONSpace body v_end in
                         if key = field then
                           (if next < obj_end \<and> body ! next = CHR '','' then Some \<lparr>span_start = i, span_end = next + 1\<rparr>
                            else Some \<lparr>span_start = (case prevComma of None \<Rightarrow> i | Some p \<Rightarrow> p), span_end = v_end\<rparr>)
                         else if next \<ge> obj_end \<or> body ! next \<noteq> CHR '','' then None
                         else member_span_loop body obj_end field (Some next) (skipJSONSpace body (next + 1)))))
      else None)"
  by pat_completeness auto
termination
proof (relation "measure (\<lambda>(body, _, _, _, i). length body - i)", goal_cases)
  case (2 body obj_end field prevComma i keyEnd key c v_end s)
  have k: "i < keyEnd" "keyEnd \<le> length body" using scanJSONString_bounds 2 by auto
  have "keyEnd \<le> c" using 2 skipJSONSpace_ge by simp
  moreover have "c + 1 < v_end" using 2 scanJSONValue_bounds by blast
  moreover have "v_end \<le> s" using 2 skipJSONSpace_ge by simp
  ultimately have "i < skipJSONSpace body (s + 1)" using k skipJSONSpace_ge [of "s + 1" body] by auto
  then show ?case using k by auto
qed simp

declare member_span_loop.simps [simp del]

definition objectMemberSpan :: "bytes \<Rightarrow> jsonSpan \<Rightarrow> bytes \<Rightarrow> jsonSpan option" where
  "objectMemberSpan body ob field =
     (if \<not> opens_with body ob (CHR ''{'') then None
      else member_span_loop body (span_end ob) field None (skipJSONSpace body (span_start ob + 1)))"

fun strip_blocks :: "bytes \<Rightarrow> jsonSpan list \<Rightarrow> bytes \<Rightarrow> nat \<Rightarrow> bool \<Rightarrow> bytes \<times> nat \<times> bool" where
  "strip_blocks body [] out lastEnd changed = (out, lastEnd, changed)"
| "strip_blocks body (block # blocks) out lastEnd changed =
     (if \<not> object_block body block then strip_blocks body blocks out lastEnd changed
      else case objectMemberSpan body block ''cache_control'' of
        None \<Rightarrow> strip_blocks body blocks out lastEnd changed
      | Some m \<Rightarrow> strip_blocks body blocks (out @ slice body lastEnd (span_start m)) (span_end m) True)"

text \<open>The blocks of the value: the elements of an array, or of a message's content.\<close>

definition value_blocks :: "bytes \<Rightarrow> jsonSpan list option" where
  "value_blocks body =
     (let i = skipJSONSpace body 0 in
      if i \<ge> length body then None
      else if body ! i = CHR ''['' then
        (case scanJSONValue body i of None \<Rightarrow> None | Some e \<Rightarrow> arrayElements body \<lparr>span_start = i, span_end = e\<rparr>)
      else if body ! i = CHR ''{'' then content_blocks body
      else None)"

definition stripCacheControl :: "bytes \<Rightarrow> bytes" where
  "stripCacheControl body =
     (if \<not> contains body (quoted ''cache_control'') then body
      else case value_blocks body of
        None \<Rightarrow> body
      | Some blocks \<Rightarrow>
          (case strip_blocks body blocks [] 0 False of
             (out, lastEnd, changed) \<Rightarrow> if \<not> changed then body else out @ drop lastEnd body))"

end
