(* ===== verification/Json_Forward.thy ===== *)
theory Json_Forward
  imports Json_Splice
begin

text \<open>
  Where the JSON scanner stands after a token. The reading lemmas say what follows a token of a valid
  text; these say which state the token itself leads to, so that a text with a part taken out or put
  in can be scanned piece by piece. After a value the state is as good as the end of a value on every
  byte that may follow (\<open>ended\<close>).
\<close>

definition ended :: "jparse list \<Rightarrow> jscanner \<Rightarrow> bool" where
  "ended st q \<longleftrightarrow> (accepts q \<longleftrightarrow> accepts (EndValue, st)) \<and> (\<forall>c. atom_stop c \<longrightarrow> scan_step q c = end_value st c)"

lemma ended_EndValue [simp]: "ended st (EndValue, st)"
  by (simp add: ended_def)

lemma ended_accepts:
  assumes "ended st q" and "X = [] \<or> atom_stop (hd X)"
  shows "accepts (scan q X) \<longleftrightarrow> accepts (scan (EndValue, st) X)"
  using assms by (cases X) (auto simp: ended_def)

lemma ended_pop [simp]: "ended st (pop_state (p # st))"
  by (cases st) (auto simp: pop_state_def ended_def accepts_ended end_value_def)

section \<open>Strings\<close>

lemma hex_byte: "hex_val c \<noteq> None \<Longrightarrow> c \<noteq> CHR 0x22 \<and> c \<noteq> CHR 0x5C \<and> \<not> bval c < 32"
  by (auto simp: hex_val_def bval_def split: if_splits)

lemma hex_digits_forward:
  "str_scan t = Some m \<Longrightarrow> fst (scan (InStringEscU n, st) (take m t)) \<noteq> ScanError \<Longrightarrow>
     scan (InStringEscU n, st) (take m t) = scan (InString, st) (take m t)"
proof (induction t arbitrary: m n)
  case (Cons x t)
  have m: "0 < m" using str_scan_bounds [OF Cons.prems(1)] by simp
  then obtain k where k: "m = Suc k" by (cases m) auto
  have x: "hex_val x \<noteq> None" using Cons.prems(2) k by (rule_tac notI) simp
  then have s: "str_scan t = Some k" using hex_byte [OF x] Cons.prems(1) k by (auto simp: str_scan_plain)
  then show ?case using Cons.IH [OF s, of "n - 1"] Cons.prems(2) x hex_byte [OF x] k by auto
qed simp

lemma string_forward:
  "str_scan s = Some n \<Longrightarrow> fst (scan (InString, st) (take n s)) \<noteq> ScanError \<Longrightarrow>
     scan (InString, st) (take n s) = (EndValue, st)"
proof (induction s arbitrary: n rule: str_scan.induct)
  case (2 c)
  then show ?case by (auto split: if_splits)
next
  case (3 c d s)
  show ?case
  proof (cases "c = CHR 0x5C")
    case True
    with 3 obtain m where m: "str_scan s = Some m" "n = Suc (Suc m)" by auto
    have esc: "scan (InString, st) (take n (c # d # s)) = scan (scan_step (InStringEsc, st) d) (take m s)"
      using True m by simp
    show ?thesis
    proof (cases "d = CHR ''u''")
      case True
      then show ?thesis using esc hex_digits_forward [OF m(1), of 4 st] 3(1) [OF \<open>c = CHR 0x5C\<close> m(1)] 3(4)
        by simp
    next
      case False
      then have "scan_step (InStringEsc, st) d = (InString, st)" using esc 3(4) by (auto split: if_splits)
      then show ?thesis using esc 3(1) [OF \<open>c = CHR 0x5C\<close> m(1)] 3(4) by simp
    qed
  next
    case False
    show ?thesis
    proof (cases "c = CHR 0x22")
      case True
      then show ?thesis using 3(3) by auto
    next
      case nq: False
      then obtain m where m: "str_scan (d # s) = Some m" "n = Suc m" using 3(3) False by auto
      have "scan_step (InString, st) c = (InString, st)" using 3(4) m False nq by (auto split: if_splits)
      then show ?thesis using 3(2) [OF False nq m(1)] 3(4) m by simp
    qed
  qed
qed simp

lemma accepts_take: "accepts (scan r s) \<Longrightarrow> fst (scan r (take n s)) \<noteq> ScanError"
proof -
  assume "accepts (scan r s)"
  then have "accepts (scan (scan r (take n s)) (drop n s))" by (metis append_take_drop_id scan_append)
  then show ?thesis by (rule accepts_scanD)
qed

section \<open>Containers\<close>

lemma container_forward:
  "outside_st (p, st) \<Longrightarrow> accepts (scan (p, st) s) \<Longrightarrow> 0 < d \<Longrightarrow> d \<le> length st \<Longrightarrow> cont_scan (int d) s = Some n \<Longrightarrow>
     scan (p, st) (take n s) = pop_state (drop (d - 1) st)"
proof (induction s arbitrary: d p st n rule: length_induct)
  case (1 s)
  note IH = "1.IH" [rule_format]
  obtain c t where Cons: "s = c # t" using "1.prems"(5) by (cases s) (auto simp: cont_scan_Nil)
  have ok: "step_ok st c (scan_step (p, st) c)" using scan_step_ok [OF "1.prems"(1)] .
  have acc: "accepts (scan (scan_step (p, st) c) t)" using "1.prems"(2) Cons by simp
  obtain q st' where q: "scan_step (p, st) c = (q, st')" by force
  have ne: "q \<noteq> ScanError" using acc q by auto
  have d: "0 < d" "d \<le> length st" using "1.prems" by auto
  note cs = "1.prems"(5) [unfolded Cons]
  show ?case
  proof (cases rule: byte_cases [of c])
    case Quote
    with ok q ne have r: "(q, st') = (InString, st)" by (simp add: step_ok_def)
    from string_reads acc q r obtain k where k: "str_scan t = Some k" "accepts (scan (EndValue, st) (drop k t))" by metis
    have e: "scan (InString, st) (take k t) = (EndValue, st)"
      using string_forward [OF k(1)] accepts_take acc q r by metis
    from cs Quote k(1) obtain m where m: "cont_scan (int d) (drop k t) = Some m" "n = Suc k + m"
      by (auto simp: cont_scan_quote)
    have "length (drop k t) < length s" "outside_st (EndValue, st)" using Cons by simp_all
    from IH [OF this k(2) d m(1)] e show ?thesis
      using Cons q r m(2) by (simp add: take_add scan_append)
  next
    case Open
    then have st': "outside_st (q, st')" "st' \<noteq> []" "tl st' = st" using ok q ne by (auto simp: step_ok_def)
    then have dr: "drop d st' = drop (d - 1) st" "Suc d \<le> length st'" using d by (cases d; auto simp: drop_Suc neq_Nil_conv)+
    from cs Open obtain m where m: "cont_scan (int (Suc d)) t = Some m" "n = Suc m"
      by (auto simp: cont_scan_open add.commute)
    have "length t < length s" using Cons by simp
    from IH [OF this st'(1) acc [unfolded q] _ dr(2) m(1)] show ?thesis using Cons q m(2) dr(1) by simp
  next
    case Close
    have pop: "scan_step (p, st) c = pop_state st" "st \<noteq> []" using ok q ne Close by (auto simp: step_ok_def)
    show ?thesis
    proof (cases "d = 1")
      case True
      then have "n = 1" using cs Close by (simp add: cont_scan_close)
      then show ?thesis using Cons True pop by simp
    next
      case False
      then have l: "tl st \<noteq> []" "0 < d - 1" "d - 1 \<le> length (tl st)" using d by (cases st; auto)+
      have dr: "drop (d - 1 - 1) (tl st) = drop (d - 1) st" using d False by (cases "d - 1") (auto simp: drop_Suc)
      have acc': "accepts (scan (EndValue, tl st) t)" using acc pop l by (simp add: pop_state_def)
      have i: "int (d - 1) = int d - 1" using d(1) by simp
      from cs Close False obtain m where m: "cont_scan (int (d - 1)) t = Some m" "n = Suc m"
        unfolding i by (auto simp: cont_scan_close)
      have "length t < length s" "outside_st (EndValue, tl st)" using Cons by simp_all
      from IH [OF this acc' l(2,3) m(1)] show ?thesis using Cons pop l m(2) dr by (simp add: pop_state_def)
    qed
  next
    case Plain
    then have st': "outside_st (q, st')" "tl st' = tl st" "st' = [] \<longleftrightarrow> st = []"
      using ok q ne by (auto simp: step_ok_def plain_byte_def)
    have dl: "d \<le> length st'" using st' d by (cases d; cases st; cases st') auto
    have dr: "pop_state (drop (d - 1) st') = pop_state (drop (d - 1) st)"
      using st' d by (cases "d - 1"; cases st; cases st') (auto simp: pop_state_def)
    from cs Plain obtain m where m: "cont_scan (int d) t = Some m" "n = Suc m" by (auto simp: cont_scan_plain)
    have "length t < length s" using Cons by simp
    from IH [OF this st'(1) acc [unfolded q] d(1) dl m(1)] show ?thesis using Cons q m(2) dr by simp
  qed
qed

section \<open>Atoms and values\<close>

lemma number_ended:
  assumes "p = State1 \<or> p = State0 \<or> p = Dot0 \<or> p = StateE0"
  shows "ended st (p, st)"
proof -
  have "atom_stop c \<Longrightarrow> scan_step (p, st) c = end_value st c" for c
    using assms stop_not_digit [of c] by (auto simp: state0_def)
  moreover from this [of "CHR '' ''"] have "accepts (p, st) \<longleftrightarrow> accepts (EndValue, st)"
    using assms by (auto simp: accepts_def atom_stop_def isSpace_def)
  ultimately show ?thesis by (simp add: ended_def)
qed

lemma atom_ends:
  assumes "in_atom p" and "accepts (p, st) \<or> (\<exists>c. atom_stop c \<and> fst (scan_step (p, st) c) \<noteq> ScanError)"
  shows "ended st (p, st)"
proof (rule number_ended)
  show "p = State1 \<or> p = State0 \<or> p = Dot0 \<or> p = StateE0"
  proof (cases "accepts (p, st)")
    case True
    then show ?thesis using assms(1) accepts_atom [of p st]
      by (cases p) (auto simp: accepts_def e_sign_def is_digit_def bval_def)
  next
    case False
    then obtain c where c: "atom_stop c" "fst (scan_step (p, st) c) \<noteq> ScanError" using assms(2) by blast
    then show ?thesis using assms(1) stop_not_digit [OF c(1)] bval_letters [of c]
      by (cases p) (auto simp: e_sign_def lit_rest_def split: list.splits if_splits)
  qed
qed

lemma atom_forward:
  "in_atom p \<Longrightarrow> accepts (scan (p, st) s) \<Longrightarrow> ended st (scan (p, st) (takeWhile (\<lambda>c. \<not> atom_stop c) s))"
proof (induction s arbitrary: p)
  case Nil
  then show ?case by (simp add: atom_ends)
next
  case (Cons c s)
  have acc: "accepts (scan (scan_step (p, st) c) s)" using Cons.prems by simp
  then have ne: "fst (scan_step (p, st) c) \<noteq> ScanError" by (rule accepts_scanD)
  show ?case
  proof (cases "atom_stop c")
    case True
    then show ?thesis using atom_ends [OF Cons.prems(1), of st] ne by auto
  next
    case False
    then obtain q where q: "scan_step (p, st) c = (q, st)" "in_atom q \<or> q = EndValue"
      using atom_step_go [OF Cons.prems(1) False, of st] ne by blast
    show ?thesis
    proof (cases "q = EndValue")
      case True
      then have "s = [] \<or> atom_stop (hd s)" using accepts_stop acc q by simp
      then have "takeWhile (\<lambda>c. \<not> atom_stop c) s = []" by (cases s) auto
      then show ?thesis using False q True by simp
    next
      case False
      then show ?thesis using Cons.IH [of q] acc q \<open>\<not> atom_stop c\<close> by simp
    qed
  qed
qed

lemma value_forward:
  assumes "accepts (scan (BeginValue, st) s)" and "s = [] \<or> \<not> is_json_space (hd s)" and "value_len s = Some n"
  shows "ended st (scan (BeginValue, st) (take n s))"
proof (cases s)
  case Nil
  with assms(1) show ?thesis by simp
next
  case (Cons c t)
  have nsp: "\<not> is_json_space c" using assms(2) Cons by simp
  have acc: "accepts (scan (begin_value st c) t)" using assms(1) Cons by simp
  then have ne: "fst (begin_value st c) \<noteq> ScanError" by (rule accepts_scanD)
  consider (quote) "c = CHR 0x22" | (opn) "open_byte c"
    | (atom) p where "c \<noteq> CHR 0x22" "\<not> open_byte c" "\<not> atom_stop c" "in_atom p" "begin_value st c = (p, st)"
    using begin_value_cases [OF ne nsp] by blast
  then show ?thesis
  proof cases
    case quote
    then have b: "begin_value st c = (InString, st)" using nsp by (simp add: begin_value_def)
    obtain m where m: "str_scan t = Some m" "n = Suc m" using assms(3) Cons quote by (auto simp: value_len_def)
    have "scan (InString, st) (take m t) = (EndValue, st)"
      using string_forward [OF m(1)] accepts_take acc b by metis
    then show ?thesis using Cons b m by simp
  next
    case opn
    then obtain p q where b: "begin_value st c = push_state p q st" "outside q" "q \<noteq> EndTop"
      using nsp by (auto simp: begin_value_def open_byte_def)
    with ne have bv: "begin_value st c = (q, p # st)" by (auto simp: push_state_def)
    have o: "outside_st (q, p # st)" using b by (auto simp: outside_st_def)
    obtain m where m: "cont_scan (int 1) t = Some m" "n = Suc m"
      using assms(3) Cons opn by (auto simp: value_len_container)
    have "scan (q, p # st) (take m t) = pop_state (p # st)"
      using container_forward [OF o _ _ _ m(1)] acc bv by simp
    then show ?thesis using Cons bv m by simp
  next
    case (atom p)
    let ?w = "takeWhile (\<lambda>c. \<not> atom_stop c) t"
    have "n = Suc (length ?w)"
      using assms(3) Cons atom(1-3) by (auto simp: value_len_def open_byte_def Let_def split: if_splits)
    moreover have "take (length ?w) t = ?w" by (metis takeWhile_eq_take)
    ultimately show ?thesis using Cons atom(5) atom_forward [OF atom(4), of st t] acc by simp
  qed
qed

section \<open>Tokens at an offset\<close>

text \<open>What stands between two offsets of a text.\<close>

definition steps :: "bytes \<Rightarrow> jscanner \<Rightarrow> nat \<Rightarrow> nat \<Rightarrow> jscanner" where
  "steps b r i j = scan r (slice b i j)"

lemma steps_append: "i \<le> j \<Longrightarrow> j \<le> k \<Longrightarrow> steps b r i k = steps b (steps b r i j) j k"
  by (simp add: steps_def slice_append [symmetric, of i j k] scan_append)

lemma steps_drop: "i \<le> j \<Longrightarrow> scan r (drop i b) = scan (steps b r i j) (drop j b)"
proof -
  assume "i \<le> j"
  then have "drop i b = slice b i j @ drop j b"
    by (metis append_take_drop_id drop_drop le_add_diff_inverse2 slice_def)
  then show ?thesis by (simp add: steps_def scan_append)
qed

lemma steps_Suc: "i < length b \<Longrightarrow> steps b r i (Suc i) = scan_step r (b ! i)"
  by (simp add: steps_def slice_Cons_step)

lemma steps_skip:
  "(\<And>c. is_json_space c \<Longrightarrow> scan_step r c = r) \<Longrightarrow> steps b r i (skipSpace b i) = r"
proof (induction b i rule: skipSpace.induct)
  case (1 b i)
  show ?case
  proof (cases "i < length b \<and> isSpace (b ! i)")
    case True
    then have s: "skipSpace b i = skipSpace b (Suc i)" by (subst skipSpace.simps) simp
    have "steps b r i (Suc i) = r" using True 1(2) by (simp add: steps_Suc isSpace_json)
    then show ?thesis using 1 True skipSpace_ge [of "Suc i" b] steps_append [of i "Suc i" "skipSpace b (Suc i)" b r]
      by (simp add: s)
  next
    case False
    then have "skipSpace b i = i" by (subst skipSpace.simps) auto
    then show ?thesis by (simp add: steps_def)
  qed
qed

lemma steps_skip_simps [simp]:
  "steps b (BeginValue, st) i (skipSpace b i) = (BeginValue, st)"
  "steps b (BeginString, st) i (skipSpace b i) = (BeginString, st)"
  "steps b (BeginStringOrEmpty, st) i (skipSpace b i) = (BeginStringOrEmpty, st)"
  "steps b (BeginValueOrEmpty, st) i (skipSpace b i) = (BeginValueOrEmpty, st)"
  "steps b (EndValue, q # st) i (skipSpace b i) = (EndValue, q # st)"
  by (rule steps_skip; simp add: begin_value_def begin_string_def end_value_def)+

lemma value_steps:
  assumes "accepts (scan (BeginValue, st) (drop i b))" and "i \<le> length b" and "valueEnd b (skipSpace b i) = Some e"
  shows "ended st (steps b (BeginValue, st) i e)"
proof -
  let ?j = "skipSpace b i"
  have j: "?j \<le> length b" using assms(2) by (rule skipSpace_le)
  have a: "accepts (scan (BeginValue, st) (drop ?j b))" using assms(1,2) by (simp add: scan_skip_simps)
  obtain n where n: "value_len (drop ?j b) = Some n" "e = ?j + n"
    using assms(3) valueEnd_scan [OF j] by auto
  have "ended st (scan (BeginValue, st) (take n (drop ?j b)))"
    by (rule value_forward [OF a drop_skipSpace_hd [OF assms(2)] n(1)])
  then have "ended st (steps b (BeginValue, st) ?j e)" using n(2) by (simp add: steps_def slice_def)
  then show ?thesis using steps_append [of i ?j e b "(BeginValue, st)"] n(2) skipSpace_ge [of i b] by simp
qed

lemma string_steps:
  assumes "accepts (scan (BeginString, st) (drop i b))" and "i < length b" and "b ! i = CHR 0x22" and "stringEnd b i = Some k"
  shows "steps b (BeginString, st) i k = (EndValue, st)"
proof -
  obtain n where n: "str_scan (drop (Suc i) b) = Some n" "k = Suc i + n"
    using assms(2-4) by (auto simp: stringEnd_scan)
  have d: "drop i b = b ! i # drop (Suc i) b" using assms(2) by (simp add: Cons_nth_drop_Suc)
  have s: "begin_string st (b ! i) = (InString, st)" using assms(3) by (simp add: begin_string_def is_json_space_def)
  have "scan (InString, st) (take n (drop (Suc i) b)) = (EndValue, st)"
    using string_forward [OF n(1)] accepts_take [of "(InString, st)" "drop (Suc i) b" n] assms(1) d s by simp
  then show ?thesis using n(2) s by (simp add: steps_def slice_def d)
qed

section \<open>Passing over a value inside a container\<close>

lemma str_scan_take: "str_scan s = Some n \<Longrightarrow> str_scan (take n s) = Some n"
proof (induction s arbitrary: n rule: str_scan.induct)
  case (2 c)
  then show ?case by (auto split: if_splits)
next
  case (3 c d s)
  show ?case
  proof (cases "c = CHR 0x5C")
    case True
    with 3(3) obtain m where m: "str_scan s = Some m" "n = Suc (Suc m)" by auto
    then show ?thesis using 3(1) [OF True m(1)] True by simp
  next
    case False
    show ?thesis
    proof (cases "c = CHR 0x22")
      case True
      then show ?thesis using 3(3) by (auto simp: str_scan_quote)
    next
      case nq: False
      then obtain m where m: "str_scan (d # s) = Some m" "n = Suc m" using 3(3) False by auto
      then show ?thesis using 3(2) [OF False nq m(1)] False nq by (simp add: str_scan_plain)
    qed
  qed
qed simp

lemma cont_scan_take: "cont_scan d s = Some n \<Longrightarrow> cont_scan d (take n s) = Some n"
proof (induction s arbitrary: d n rule: length_induct)
  case (1 s)
  obtain c t where s: "s = c # t" using "1.prems" by (cases s) (auto simp: cont_scan_Nil)
  note IH = "1.IH" [rule_format, unfolded s] and cs = "1.prems" [unfolded s]
  show ?case
  proof (cases rule: byte_cases [of c])
    case Quote
    then obtain k m where k: "str_scan t = Some k" "cont_scan d (drop k t) = Some m" "n = Suc k + m"
      using cs by (auto simp: cont_scan_Cons split: option.splits)
    have le: "k \<le> length t" using str_scan_bounds [OF k(1)] by simp
    have "cont_scan d (take m (drop k t)) = Some m" using k(2) by (intro IH) simp_all
    moreover have "str_scan (take k t @ take m (drop k t)) = Some k" by (rule str_scan_append [OF str_scan_take [OF k(1)]])
    ultimately show ?thesis using Quote s k(3) le by (simp add: take_add cont_scan_quote)
  next
    case Open
    then obtain m where m: "cont_scan (d + 1) t = Some m" "n = Suc m" using cs by (auto simp: cont_scan_open)
    then show ?thesis using Open s IH [of t "d + 1" m] by (simp add: cont_scan_open)
  next
    case Close
    show ?thesis
    proof (cases "d = 1")
      case True
      then show ?thesis using cs Close s by (auto simp: cont_scan_close)
    next
      case False
      then obtain m where m: "cont_scan (d - 1) t = Some m" "n = Suc m" using cs Close by (auto simp: cont_scan_close)
      then show ?thesis using Close s False IH [of t "d - 1" m] by (simp add: cont_scan_close)
    qed
  next
    case Plain
    then obtain m where m: "cont_scan d t = Some m" "n = Suc m" using cs by (auto simp: cont_scan_plain)
    then show ?thesis using Plain s IH [of t d m] by (simp add: cont_scan_plain)
  qed
qed

lemma container_bound: "cont_scan d s = Some n \<Longrightarrow> n \<le> length s"
  using containerEnd_bounds [of s 0 d n] by (simp add: containerEnd_scan)

lemma cont_scan_over:
  assumes "accepts (scan (BeginValue, st) s)" and "s = [] \<or> \<not> is_json_space (hd s)" and "value_len s = Some n" and "0 < d"
  shows "cont_scan d s = map_option ((+) n) (cont_scan d (drop n s))"
proof (cases s)
  case Nil
  with assms(1) show ?thesis by simp
next
  case (Cons c t)
  have nsp: "\<not> is_json_space c" using assms(2) Cons by simp
  have acc: "accepts (scan (begin_value st c) t)" using assms(1) Cons by simp
  then have ne: "fst (begin_value st c) \<noteq> ScanError" by (rule accepts_scanD)
  consider (quote) "c = CHR 0x22" | (opn) "c \<noteq> CHR 0x22" "open_byte c"
    | (atom) p where "c \<noteq> CHR 0x22" "\<not> open_byte c" "\<not> atom_stop c" "in_atom p" "begin_value st c = (p, st)"
    using begin_value_cases [OF ne nsp] by blast
  then show ?thesis
  proof cases
    case quote
    then show ?thesis using Cons assms(3) by (auto simp: value_len_def cont_scan_quote)
  next
    case opn
    then obtain m where m: "cont_scan 1 t = Some m" "n = Suc m" using assms(3) Cons by (auto simp: value_len_container)
    have "m \<le> length t" using container_bound [OF m(1)] .
    then have "cont_scan 1 (take m t) = Some (length (take m t))" using cont_scan_take [OF m(1)] by simp
    from cont_scan_shift [OF this _ assms(4), of "drop m t"] \<open>m \<le> length t\<close>
    have "cont_scan (d + 1) t = map_option ((+) m) (cont_scan d (drop m t))" by simp
    then show ?thesis using opn m(2) Cons by (simp add: cont_scan_open option.map_comp comp_def)
  next
    case (atom p)
    let ?w = "takeWhile (\<lambda>c. \<not> atom_stop c) t"
    have n: "n = Suc (length ?w)"
      using assms(3) Cons atom(1-3) by (auto simp: value_len_def open_byte_def Let_def split: if_splits)
    have "list_all plain_byte ?w" using atom_plain [OF atom(4), of st t] acc atom(5) by simp
    moreover have "plain_byte c" using atom(1-3) by (auto simp: plain_byte_def close_byte_def atom_stop_def)
    ultimately have "list_all plain_byte (c # ?w)" by simp
    from cont_scan_plains [OF this, of d "drop (length ?w) t"] show ?thesis
      using Cons n by (simp add: takeWhile_dropWhile_id dropWhile_eq_drop [symmetric])
  qed
qed

end
