(* ===== verification/Anthropic_Strip.thy ===== *)
theory Anthropic_Strip
  imports Anthropic_Splice Json_Forward
begin

text \<open>
  \<open>stripCacheControl\<close> on a valid value: what is left is valid, it is the value with the members taken
  out, and the frozen count stays in its bounds. The two splicers of the proxy agree.
\<close>

section \<open>Tokens of a valid text at an offset\<close>

definition no_key :: "jparse list \<Rightarrow> bool" where
  "no_key st \<longleftrightarrow> (\<forall>st'. st \<noteq> ObjectKey # st')"

lemma no_colon:
  assumes "accepts (scan (EndValue, st) (drop e b))" and "e < length b" and "no_key st"
  shows "b ! e \<noteq> CHR '':''"
proof
  assume c: "b ! e = CHR '':''"
  have "accepts (scan (end_value st (b ! e)) (drop (Suc e) b))"
    using assms(1,2) by (simp add: Cons_nth_drop_Suc [symmetric])
  then have "fst (end_value st (b ! e)) \<noteq> ScanError" by (rule accepts_scanD)
  then show False using assms(3) c
    by (auto simp: end_value_def end_top_def is_json_space_def no_key_def split: list.splits jparse.splits)
qed

lemma value_at:
  assumes "accepts (scan (BeginValue, st) (drop i b))" and "i \<le> length b" and "no_key st"
  obtains e where "scanJSONValue b i = Some e" "scanJSONValue b (skipSpace b i) = Some e"
    "valueEnd b (skipSpace b i) = Some e" "skipSpace b i < e" "e \<le> length b"
    "accepts (scan (EndValue, st) (drop e b))" "ended st (steps b (BeginValue, st) i e)"
proof -
  let ?j = "skipSpace b i"
  obtain e where e: "valueEnd b ?j = Some e" "?j < e" "e \<le> length b" "accepts (scan (EndValue, st) (drop e b))"
    using value_at_reads [OF assms(1,2)] by blast
  have ns: "\<not> isSpace (b ! ?j)" using skipSpace_stop [of b i] e by simp
  have "js_value b ?j = Some e"
    by (rule js_value_eq [OF e(1) ns]) (rule no_colon [OF e(4) _ assms(3)])
  moreover have "js_value b i = js_value b ?j"
    using skipSpace_id [of ?j b] ns e by (simp add: js_value_def js_space_eq Let_def)
  ultimately show ?thesis
    using that e value_steps [OF assms(1,2) e(1)] by (simp add: scanJSONValue_eq)
qed

text \<open>The reader's depth is the same at both offsets.\<close>

definition passes :: "bytes \<Rightarrow> nat \<Rightarrow> nat \<Rightarrow> bool" where
  "passes b i j \<longleftrightarrow> i \<le> j \<and> cont_scan 1 (drop i b) = map_option ((+) (j - i)) (cont_scan 1 (drop j b))"

lemma passes_trans: "passes b i j \<Longrightarrow> passes b j k \<Longrightarrow> passes b i k"
  by (cases "cont_scan 1 (drop k b)") (auto simp: passes_def)

lemma passes_le: "passes b i j \<Longrightarrow> i \<le> j"
  by (simp add: passes_def)

lemma passes_value:
  assumes "accepts (scan (BeginValue, st) (drop i b))" and "i \<le> length b" and "valueEnd b (skipSpace b i) = Some e"
  shows "passes b (skipSpace b i) e"
proof -
  let ?j = "skipSpace b i"
  have j: "?j \<le> length b" using assms(2) by (rule skipSpace_le)
  have a: "accepts (scan (BeginValue, st) (drop ?j b))" using assms(1,2) by (simp add: scan_skip_simps)
  obtain n where n: "value_len (drop ?j b) = Some n" "e = ?j + n"
    using assms(3) valueEnd_scan [OF j] by auto
  from cont_scan_over [OF a drop_skipSpace_hd [OF assms(2)] n(1), of 1] n(2) show ?thesis
    by (simp add: passes_def add.commute)
qed

lemma passes_skip: "i \<le> length b \<Longrightarrow> passes b i (skipSpace b i)"
proof -
  assume i: "i \<le> length b"
  let ?w = "takeWhile isSpace (drop i b)"
  have s: "skipSpace b i = i + length ?w" using skipSpace_takeWhile [OF i] .
  have "list_all plain_byte ?w" by (auto simp: list_all_iff isSpace_json dest: set_takeWhileD)
  from cont_scan_plains [OF this, of 1 "drop (skipSpace b i) b"] show ?thesis
    using s unfolding passes_def
    by (metis add_diff_cancel_left' append_take_drop_id drop_drop takeWhile_eq_take add.commute le_add1)
qed

lemma passes_byte: "i < length b \<Longrightarrow> plain_byte (b ! i) \<Longrightarrow> passes b i (Suc i)"
  by (simp add: passes_def Cons_nth_drop_Suc [symmetric] cont_scan_plain)

lemma passes_string:
  assumes "i < length b" and "b ! i = CHR 0x22" and "stringEnd b i = Some k"
  shows "passes b i k"
proof -
  obtain n where n: "str_scan (drop (Suc i) b) = Some n" "k = Suc i + n" using assms by (auto simp: stringEnd_scan)
  then show ?thesis using assms(1,2)
    by (simp add: passes_def Cons_nth_drop_Suc [symmetric] cont_scan_quote add.commute)
qed

section \<open>One member of an object\<close>

abbreviation in_key :: "jparse list \<Rightarrow> jscanner" where
  "in_key st \<equiv> (BeginString, ObjectKey # st)"

abbreviation in_member :: "jparse list \<Rightarrow> jparse list" where
  "in_member st \<equiv> ObjectValue # st"

text \<open>The offsets of a member: its key ends at \<open>k\<close>, the colon is at \<open>c\<close>, its value ends at \<open>e\<close>.\<close>

definition member_at :: "bytes \<Rightarrow> jparse list \<Rightarrow> nat \<Rightarrow> nat \<Rightarrow> nat \<Rightarrow> nat \<Rightarrow> bool" where
  "member_at b st i k c e \<longleftrightarrow>
     b ! i = CHR 0x22 \<and> scanJSONString b i = Some k \<and> c = skipSpace b k \<and> b ! c = CHR '':''
     \<and> scanJSONValue b (Suc c) = Some e \<and> scanJSONValue b (skipSpace b (Suc c)) = Some e
     \<and> i < c \<and> c < skipSpace b (Suc c) \<and> skipSpace b (Suc c) < e \<and> e \<le> length b
     \<and> steps b (in_key st) i (skipSpace b (Suc c)) = (BeginValue, in_member st)
     \<and> accepts (scan (BeginValue, in_member st) (drop (skipSpace b (Suc c)) b))
     \<and> ended (in_member st) (steps b (in_key st) i e)
     \<and> accepts (scan (EndValue, in_member st) (drop e b))
     \<and> passes b i e"

lemma key_steps:
  assumes "accepts (scan (in_key st) (drop i b))" and "i \<le> length b" and "\<not> isSpace (b ! i)"
  obtains k c where "i < length b" "b ! i = CHR 0x22" "scanJSONString b i = Some k" "c = skipSpace b k" "b ! c = CHR '':''"
    "i < k" "k \<le> c" "c < length b" "steps b (in_key st) i (Suc c) = (BeginValue, in_member st)"
    "accepts (scan (BeginValue, in_member st) (drop (Suc c) b))"
    "passes b i (Suc c)"
proof -
  from string_at_reads [OF assms] obtain k where
    i: "i < length b" "b ! i = CHR 0x22" and
    k: "stringEnd b i = Some k" "i < k" "k \<le> length b" "accepts (scan (EndValue, ObjectKey # st) (drop k b))" by auto
  define c where "c = skipSpace b k"
  from after_key [OF k(4,3)] have c: "c < length b" "b ! c = CHR '':''"
    "accepts (scan (BeginValue, in_member st) (drop (Suc c) b))" by (auto simp: c_def)
  have kc: "k \<le> c" by (simp add: c_def skipSpace_ge)
  have "steps b (in_key st) i k = (EndValue, ObjectKey # st)" by (rule string_steps [OF assms(1) i k(1)])
  then have "steps b (in_key st) i c = (EndValue, ObjectKey # st)"
    using steps_append [of i k c b "in_key st"] k(2) kc by (simp add: c_def)
  then have st: "steps b (in_key st) i (Suc c) = (BeginValue, in_member st)"
    using steps_append [of i c "Suc c" b "in_key st"] k(2) kc c(1,2)
    by (simp add: steps_Suc end_value_def is_json_space_def)
  have d: "passes b i (Suc c)"
    using passes_string [OF i k(1)] passes_skip [OF k(3)] passes_byte [OF c(1)] c(2)
    by (auto simp: c_def intro: passes_trans)
  show ?thesis
    by (rule that [OF i _ c_def c(2) k(2) kc c(1) st c(3) d]) (use k i in \<open>simp add: scanJSONString_eq js_stringEnd_eq\<close>)
qed

lemma member_reads:
  assumes "accepts (scan (in_key st) (drop i b))" and "i \<le> length b" and "\<not> isSpace (b ! i)"
  shows "\<exists>k c e. member_at b st i k c e"
proof -
  obtain k c where kc: "i < length b" "b ! i = CHR 0x22" "scanJSONString b i = Some k" "c = skipSpace b k" "b ! c = CHR '':''"
    "i < k" "k \<le> c" "c < length b" "steps b (in_key st) i (Suc c) = (BeginValue, in_member st)"
    "accepts (scan (BeginValue, in_member st) (drop (Suc c) b))"
    "passes b i (Suc c)"
    by (rule key_steps [OF assms])
  let ?v = "skipSpace b (Suc c)"
  have nk: "no_key (in_member st)" by (simp add: no_key_def)
  have cl: "Suc c \<le> length b" using kc(8) by simp
  obtain e where e: "scanJSONValue b (Suc c) = Some e" "scanJSONValue b ?v = Some e" "valueEnd b ?v = Some e"
    "?v < e" "e \<le> length b" "accepts (scan (EndValue, in_member st) (drop e b))"
    "ended (in_member st) (steps b (BeginValue, in_member st) (Suc c) e)"
    by (rule value_at [OF kc(10) cl nk])
  have v: "Suc c \<le> ?v" by (rule skipSpace_ge)
  have st: "steps b (in_key st) i ?v = (BeginValue, in_member st)"
    using steps_append [of i "Suc c" ?v b "in_key st"] kc v by simp
  have en: "ended (in_member st) (steps b (in_key st) i e)"
    using steps_append [of i "Suc c" e b "in_key st"] kc e(4,7) v by simp
  have acc: "accepts (scan (BeginValue, in_member st) (drop ?v b))" using kc(10) cl by (simp add: scan_skip_simps)
  have "passes b i e" by (rule passes_trans [OF kc(11) passes_trans [OF passes_skip [OF cl] passes_value [OF kc(10) cl e(3)]]])
  then have "member_at b st i k c e" using kc e st en acc v by (simp add: member_at_def)
  then show ?thesis by blast
qed

text \<open>What follows a member: the end of the object, or a comma and the next key.\<close>

lemma member_then:
  assumes "member_at b st i k c e"
  obtains (final) "b ! skipSpace b e = CHR ''}''" "skipSpace b e < length b" "cont_scan 1 (drop i b) = Some (Suc (skipSpace b e) - i)"
    | (more) "b ! skipSpace b e = CHR '',''" "skipSpace b e < length b"
        "accepts (scan (in_key st) (drop (skipSpace b (Suc (skipSpace b e))) b))"
        "steps b (in_key st) i (Suc (skipSpace b e)) = in_key st"
        "steps b (in_key st) i (skipSpace b (Suc (skipSpace b e))) = in_key st"
        "passes b i (skipSpace b (Suc (skipSpace b e)))"
proof -
  let ?s = "skipSpace b e" and ?n = "skipSpace b (Suc (skipSpace b e))"
  note m = assms [unfolded member_at_def]
  have e: "accepts (scan (EndValue, in_member st) (drop e b))" "e \<le> length b" "i < e" using m by auto
  have s: "?s < length b" "e \<le> ?s" using after_member [OF e(1,2)] skipSpace_ge by auto
  have n: "Suc ?s \<le> ?n" by (rule skipSpace_ge)
  have ds: "passes b i ?s" using m passes_skip [OF e(2)] by (auto intro: passes_trans)
  from after_member [OF e(1,2)] consider "b ! ?s = CHR ''}''"
    | "b ! ?s = CHR '',''" "accepts (scan (in_key st) (drop (Suc ?s) b))" by blast
  then show ?thesis
  proof cases
    case 1
    then have "cont_scan 1 (drop ?s b) = Some 1"
      using s(1) by (simp add: Cons_nth_drop_Suc [symmetric] cont_scan_close close_byte_def)
    then show ?thesis using ds 1 s e(3) by (intro final) (simp_all add: passes_def Suc_diff_le)
  next
    case 2
    let ?q = "steps b (in_key st) i e"
    have q: "ended (in_member st) ?q" using m by simp
    have st: "steps b ?q e (Suc ?s) = in_key st"
    proof (cases "e = ?s")
      case True
      then have "steps b ?q e (Suc ?s) = end_value (in_member st) (CHR '','')"
        using s(1) 2(1) q steps_Suc [of e b ?q] by (simp add: ended_def atom_stop_def)
      then show ?thesis by (simp add: end_value_def is_json_space_def)
    next
      case False
      then have el: "e < length b" "isSpace (b ! e)" using s skipSpace_id [of e b] by fastforce+
      then have one: "steps b ?q e (Suc e) = (EndValue, in_member st)"
        using q by (simp add: steps_Suc ended_def atom_stop_def end_value_def isSpace_json)
      have "skipSpace b e = skipSpace b (Suc e)" using el by (subst skipSpace.simps) simp
      then have "steps b (EndValue, in_member st) (Suc e) ?s = (EndValue, in_member st)" by simp
      then have "steps b ?q e ?s = (EndValue, in_member st)"
        using one steps_append [of e "Suc e" ?s b ?q] s False by simp
      then show ?thesis using steps_append [of e ?s "Suc ?s" b ?q] s 2(1)
        by (simp add: steps_Suc end_value_def is_json_space_def)
    qed
    then have c: "steps b (in_key st) i (Suc ?s) = in_key st"
      using steps_append [of i e "Suc ?s" b "in_key st"] s e(3) by simp
    then have c': "steps b (in_key st) i ?n = in_key st"
      using steps_append [of i "Suc ?s" ?n b "in_key st"] s e(3) n by simp
    have "passes b ?s (Suc ?s)" using s 2(1) by (intro passes_byte) simp_all
    moreover have "passes b (Suc ?s) ?n" using s by (intro passes_skip) simp
    ultimately have "passes b i ?n" using ds by (blast intro: passes_trans)
    then show ?thesis using 2 s c c' by (intro more) (simp_all add: scan_skip_simps)
  qed
qed

lemma ended_space:
  assumes "ended (p # st) (steps b r i v)" and "i \<le> v"
  shows "ended (p # st) (steps b r i (skipSpace b v))"
proof (cases "v < length b \<and> isSpace (b ! v)")
  case True
  let ?q = "steps b r i v"
  have s: "skipSpace b v = skipSpace b (Suc v)" using True by (subst skipSpace.simps) simp
  have "steps b ?q v (Suc v) = (EndValue, p # st)"
    using assms(1) True by (simp add: steps_Suc ended_def atom_stop_def end_value_def isSpace_json)
  then have "steps b r i (Suc v) = (EndValue, p # st)" using steps_append [of i v "Suc v" b r] assms(2) by simp
  then show ?thesis using steps_append [of i "Suc v" "skipSpace b (Suc v)" b r] assms(2) skipSpace_ge [of "Suc v" b] s by simp
next
  case False
  then have "skipSpace b v = v" by (subst skipSpace.simps) auto
  with assms(1) show ?thesis by simp
qed

lemma member_space: "member_at b st i k c v \<Longrightarrow> ended (in_member st) (steps b (in_key st) i (skipSpace b v))"
  by (rule ended_space) (auto simp: member_at_def)

section \<open>Taking a member out\<close>

text \<open>
  The three ways a member goes: with the comma after it, with the comma before it, or as the only
  member. \<open>F\<close> is the scanner's state at an offset, counted from the first key at \<open>i0\<close>.
\<close>

definition taken_out :: "bytes \<Rightarrow> jparse list \<Rightarrow> nat \<Rightarrow> nat \<Rightarrow> jsonSpan \<Rightarrow> bool" where
  "taken_out b st i0 e m \<longleftrightarrow>
     (let F = steps b (in_key st) i0; s = span_start m; t = span_end m in
      i0 \<le> s \<and> s < t \<and> t < e \<and>
      (F t = in_key st \<and> F s = in_key st
       \<or> ended (in_member st) (F t) \<and> atom_stop (b ! t) \<and>
          (i0 < s \<and> ended (in_member st) (F s) \<or> s = i0 \<and> b ! skipSpace b t = CHR ''}'' \<and> skipSpace b t < e)))"

lemma stop_byte: "accepts (scan (EndValue, st) (drop e b)) \<Longrightarrow> e < length b \<Longrightarrow> atom_stop (b ! e)"
  using accepts_stop [of st "drop e b"] by (simp add: hd_drop_conv_nth)

lemma skip_eq: "skipJSONSpace = skipSpace"
  by (simp add: fun_eq_iff skipJSONSpace_eq js_space_eq)

lemma passes_end:
  assumes "passes b i n" and "cont_scan 1 (drop i b) = Some (e - i)" and "i < e"
  shows "n < e \<and> cont_scan 1 (drop n b) = Some (e - n)"
proof -
  show ?thesis
  proof (cases "cont_scan 1 (drop n b)")
    case None
    then show ?thesis using assms by (simp add: passes_def)
  next
    case (Some k)
    then show ?thesis using cont_scan_pos [OF Some] assms by (auto simp: passes_def)
  qed
qed

lemma member_span_taken:
  assumes "member_span_loop b e f prev i = Some m"
    and "accepts (scan (in_key st) (drop i b))" and "i \<le> length b" and "\<not> isSpace (b ! i)"
    and "cont_scan 1 (drop i b) = Some (e - i)" and "i < e"
    and "i0 \<le> i" and "steps b (in_key st) i0 i = in_key st"
    and "case prev of None \<Rightarrow> i = i0 | Some p \<Rightarrow> i0 < p \<and> p < i \<and> ended (in_member st) (steps b (in_key st) i0 p)"
  shows "taken_out b st i0 e m"
  using assms
proof (induction b e f prev i rule: member_span_loop.induct)
  case (1 b e f prev i)
  note prem = "1.prems"
  obtain k c v where mem: "member_at b st i k c v" using member_reads [OF prem(2-4)] by blast
  note d = mem [unfolded member_at_def]
  let ?s = "skipSpace b v"
  have F: "steps b (in_key st) i0 x = steps b (in_key st) i x" if "i \<le> x" for x
    using steps_append [of i0 i x b "in_key st"] prem(7,8) that by simp
  have le: "i < v" "v \<le> ?s" using d skipSpace_ge [of v b] by auto
  have se: "?s < e"
  proof (cases rule: member_then [OF mem])
    case 1
    then show ?thesis using prem(5,6) le by simp
  next
    case 2
    then show ?thesis using passes_end [OF 2(6) prem(5,6)] skipSpace_ge [of "Suc ?s" b] by simp
  qed
  have ce: "c < e" using d le se by simp
  have d1: "b ! i = CHR 0x22" "scanJSONString b i = Some k" "b ! skipSpace b k = CHR '':''" "skipSpace b k < e"
      "scanJSONValue b (Suc (skipSpace b k)) = Some v"
    using d ce by auto
  have key: "decodeJSONString (slice b i k) \<noteq> None"
    using prem(1) d prem(6) by (subst (asm) member_span_loop.simps) (auto split: option.splits)
  then obtain key where key: "decodeJSONString (slice b i k) = Some key" by blast
  have n: "(e \<le> skipSpace b k) = False" "(e \<le> ?s) = False" "(i < e) = True" "(?s < e) = True"
    using d1(4) se prem(6) by simp_all
  have step: "member_span_loop b e f prev i =
      (if key = f then
         (if b ! ?s = CHR '','' then Some \<lparr>span_start = i, span_end = ?s + 1\<rparr>
          else Some \<lparr>span_start = (case prev of None \<Rightarrow> i | Some p \<Rightarrow> p), span_end = v\<rparr>)
       else if b ! ?s \<noteq> CHR '','' then None
       else member_span_loop b e f (Some ?s) (skipSpace b (?s + 1)))"
    by (subst member_span_loop.simps)
      (simp only: skip_eq Let_def d1(1-3,5) key n Suc_eq_plus1 [symmetric] option.case simp_thms if_True if_False)
  have "v < length b" using le se container_bound [OF prem(5)] prem(3,6) by simp
  then have stop: "atom_stop (b ! v)" using d by (intro stop_byte [of "in_member st"]) simp_all
  have ev: "ended (in_member st) (steps b (in_key st) i0 v)" using F [of v] d by simp
  show ?case
  proof (cases "key = f")
    case True
    show ?thesis
    proof (cases rule: member_then [OF mem])
      case 1
      then show ?thesis using step True prem(1,7,9) ev stop le se
        by (cases prev) (auto simp: taken_out_def Let_def)
    next
      case 2
      then have "Suc ?s < e" using passes_end [OF 2(6) prem(5,6)] skipSpace_ge [of "Suc ?s" b] by simp
      then show ?thesis using 2 step True prem(1,7,8) F [of "Suc ?s"] le
        by (auto simp: taken_out_def Let_def)
    qed
  next
    case False
    show ?thesis
    proof (cases rule: member_then [OF mem])
      case 1
      then show ?thesis using step False prem(1) by simp
    next
      case 2
      let ?n = "skipSpace b (Suc ?s)"
      have n: "Suc ?s \<le> ?n" by (rule skipSpace_ge)
      have nl: "?n \<le> length b" using 2(2) by (intro skipSpace_le) simp
      have l: "member_span_loop b e f (Some ?s) ?n = Some m" using step False 2(1) prem(1) by simp
      have ds: "cont_scan 1 (drop ?n b) = Some (e - ?n)" "?n < e" using passes_end [OF 2(6) prem(5,6)] by simp_all
      have ns: "\<not> isSpace (b ! ?n)" using ds(1) skipSpace_stop [of b "Suc ?s"]
        by (cases "?n < length b") (auto simp: cont_scan_Nil)
      have F2: "steps b (in_key st) i0 ?n = in_key st" "steps b (in_key st) i0 ?s = steps b (in_key st) i ?s"
        using F [of ?n] F [of ?s] 2(5) n le by simp_all
      have es: "ended (in_member st) (steps b (in_key st) i ?s)" by (rule member_space [OF mem])
      have c: "i < e \<and> b ! i = CHR 0x22" "\<not> (skipSpace b k \<ge> e \<or> b ! skipSpace b k \<noteq> CHR '':'')"
          "scanJSONValue b (skipSpace b k + 1) = Some v" "\<not> (?s \<ge> e \<or> b ! ?s \<noteq> CHR '','')" "scanJSONString b i = Some k"
        using d prem(6) ce se 2(1) by auto
      show ?thesis
        by (rule "1.IH" [unfolded skip_eq, OF c(1) c(5) key refl c(2,3) refl False c(4)])
          (use l 2(3) nl ns ds F2 es prem(7) le n in simp_all)
    qed
  qed
qed

lemma key_or_empty: "accepts (scan (in_key st) Y) \<Longrightarrow> accepts (scan (BeginStringOrEmpty, ObjectKey # st) Y)"
proof (induction Y)
  case (Cons c Y)
  show ?case
  proof (cases "is_json_space c")
    case True
    then show ?thesis using Cons by (simp add: begin_string_def)
  next
    case False
    have "accepts (scan (begin_string (ObjectKey # st) c) Y)" using Cons.prems by simp
    moreover from this have "c = CHR 0x22" using False accepts_scanD by (auto simp: begin_string_def split: if_splits)
    ultimately show ?thesis by (simp add: is_json_space_def)
  qed
qed simp

lemma close_or_empty:
  assumes "\<forall>c \<in> set w. is_json_space c"
  shows "scan (BeginStringOrEmpty, ObjectKey # st) (w @ CHR ''}'' # Z) = scan (EndValue, in_member st) (w @ CHR ''}'' # Z)"
proof -
  have "scan (BeginStringOrEmpty, ObjectKey # st) w = (BeginStringOrEmpty, ObjectKey # st)"
      "scan (EndValue, in_member st) w = (EndValue, in_member st)"
    using assms by (induction w) (auto simp: end_value_def)
  then show ?thesis by (simp add: scan_append is_json_space_def)
qed

text \<open>A block without the member can stand wherever the block stood.\<close>

lemma block_without:
  assumes acc: "accepts (scan (BeginValue, st) (drop i b))" and il: "i < length b" and br: "b ! i = CHR ''{''"
    and nk: "no_key st" and e: "scanJSONValue b i = Some e"
    and m: "objectMemberSpan b \<lparr>span_start = i, span_end = e\<rparr> f = Some m"
    and X: "accepts (scan (EndValue, st) X)"
  shows "i < span_start m \<and> span_start m < span_end m \<and> span_end m < e \<and>
    accepts (scan (BeginValue, st) (slice b i (span_start m) @ slice b (span_end m) e @ X))"
proof -
  let ?S = "steps b (BeginValue, st) i" and ?j = "skipSpace b (Suc i)" and ?E = "(BeginStringOrEmpty, ObjectKey # st)"
  have si: "skipSpace b i = i" using il br by (intro skipSpace_id) (simp_all add: isSpace_def)
  obtain e' where e': "scanJSONValue b i = Some e'" "valueEnd b i = Some e'" "i < e'" "e' \<le> length b" "ended st (?S e')"
    by (rule value_at [OF acc _ nk]) (use il si in auto)
  then have ve: "valueEnd b i = Some e" "i < e" "e \<le> length b" "ended st (?S e)" using e by auto
  have d: "drop i b = CHR ''{'' # drop (Suc i) b" using il br by (metis Cons_nth_drop_Suc)
  have a1: "accepts (scan (push_state ObjectKey BeginStringOrEmpty st) (drop (Suc i) b))"
    using acc d by (simp add: begin_value_def is_json_space_def)
  then have "fst (push_state ObjectKey BeginStringOrEmpty st) \<noteq> ScanError" by (rule accepts_scanD)
  then have push: "push_state ObjectKey BeginStringOrEmpty st = ?E" by (simp add: push_state_def split: if_splits)
  have S1: "?S (Suc i) = ?E" using il br push by (simp add: steps_Suc begin_value_def is_json_space_def)
  have ij: "Suc i \<le> ?j" by (rule skipSpace_ge)
  have Sj: "?S ?j = ?E" using steps_append [of i "Suc i" ?j b "(BeginValue, st)"] S1 ij by simp
  have aj: "accepts (scan ?E (drop ?j b))" using a1 push steps_drop [OF ij, of ?E b] by simp
  have jl: "?j \<le> length b" using il by (intro skipSpace_le) simp
  have depth: "cont_scan 1 (drop (Suc i) b) = Some (e - Suc i)"
    using ve(1) il br valueEnd_scan [of i b] d by (auto simp: value_len_container open_byte_def)
  have "1 \<le> e - Suc i" using cont_scan_pos [OF depth] by simp
  then have je: "?j < e" "cont_scan 1 (drop ?j b) = Some (e - ?j)"
    using passes_end [OF passes_skip depth] il by auto
  have loop: "member_span_loop b e f None ?j = Some m"
    using m ve by (simp add: objectMemberSpan_def skip_eq split: if_splits)
  then have q: "b ! ?j = CHR 0x22" using je by (subst (asm) member_span_loop.simps) (auto split: if_splits)
  have drj: "drop ?j b = CHR 0x22 # drop (Suc ?j) b" using je ve(3) q by (metis Cons_nth_drop_Suc less_le_trans)
  have ak: "accepts (scan (in_key st) (drop ?j b))"
    using aj drj by (simp add: begin_string_def is_json_space_def)
  have t: "taken_out b st ?j e m"
    by (rule member_span_taken [OF loop ak jl _ je(2,1)]) (use q in \<open>simp_all add: isSpace_def steps_def\<close>)
  let ?s = "span_start m" and ?t = "span_end m"
  note t' = t [unfolded taken_out_def Let_def]
  have F: "?S x = steps b (in_key st) ?j x" if "?j < x" for x
  proof -
    have "steps b ?E ?j x = steps b (in_key st) ?j x"
      using that je ve(3) q by (simp add: steps_def slice_Cons_step begin_string_def is_json_space_def)
    then show ?thesis using steps_append [of i ?j x b "(BeginValue, st)"] Sj that ij by simp
  qed
  have b1: "?j \<le> ?s" "?s < ?t" "?t < e" using t' by auto
  have St: "?S ?t = steps b (in_key st) ?j ?t" using F b1 by simp
  define Y where "Y = slice b ?t e @ X"
  have "accepts (scan (?S e) X)" using ended_accepts [OF ve(4) accepts_stop [OF X]] X by simp
  then have AY: "accepts (scan (?S ?t) Y)"
    using steps_append [of i ?t e b "(BeginValue, st)"] b1 ij by (simp add: Y_def scan_append steps_def)
  have Y: "slice b ?t e = b ! ?t # slice b (Suc ?t) e" using b1 ve(3) by (intro slice_Cons_step) auto
  have hY: "Y \<noteq> []" "hd Y = b ! ?t" using Y by (simp_all add: Y_def)
  have "accepts (scan (?S ?s) Y)"
  proof (cases "?s = ?j")
    case True
    then consider "?S ?t = in_key st"
      | "ended (in_member st) (?S ?t)" "atom_stop (b ! ?t)" "b ! skipSpace b ?t = CHR ''}''" "skipSpace b ?t < e"
      using t' St by auto
    then show ?thesis
    proof cases
      case 1
      then show ?thesis using AY True Sj by (simp add: key_or_empty)
    next
      case 2
      let ?n = "skipSpace b ?t" and ?w = "slice b ?t (skipSpace b ?t)"
      have n: "?t \<le> ?n" by (rule skipSpace_ge)
      have "length b \<ge> ?t" using b1 ve(3) by simp
      then have "?w = takeWhile isSpace (drop ?t b)"
        by (simp add: slice_def skipSpace_takeWhile takeWhile_eq_take [symmetric])
      then have w: "\<forall>c \<in> set ?w. is_json_space c" by (auto simp: isSpace_json dest: set_takeWhileD)
      have "slice b ?t e = ?w @ b ! ?n # slice b (Suc ?n) e"
        using slice_append [of ?t ?n e b] n 2(4) ve(3) slice_Cons_step [of ?n e b] by simp
      then have Yw: "Y = ?w @ CHR ''}'' # slice b (Suc ?n) e @ X" using 2(3) by (simp add: Y_def)
      have "accepts (scan (EndValue, in_member st) Y)" using ended_accepts [OF 2(1), of Y] AY 2(2) hY by simp
      then show ?thesis using True Sj unfolding Yw by (simp only: close_or_empty [OF w])
    qed
  next
    case False
    then have Ss: "?S ?s = steps b (in_key st) ?j ?s" using F b1 by simp
    from t' False consider "?S ?t = in_key st" "?S ?s = in_key st"
      | "ended (in_member st) (?S ?t)" "atom_stop (b ! ?t)" "ended (in_member st) (?S ?s)"
      using St Ss by auto
    then show ?thesis
    proof cases
      case 1
      then show ?thesis using AY by simp
    next
      case 2
      then show ?thesis using AY hY ended_accepts [OF 2(1), of Y] ended_accepts [OF 2(3), of Y] by simp
    qed
  qed
  then show ?thesis using b1 ij by (simp add: Y_def steps_def scan_append)
qed

section \<open>All blocks of an array\<close>

definition block_cut :: "bytes \<Rightarrow> jsonSpan \<Rightarrow> jsonSpan option" where
  "block_cut b block = (if object_block b block then objectMemberSpan b block ''cache_control'' else None)"

text \<open>What is left from the offset \<open>l\<close> on.\<close>

fun left_over :: "bytes \<Rightarrow> jsonSpan list \<Rightarrow> nat \<Rightarrow> bytes" where
  "left_over b [] l = drop l b"
| "left_over b (block # blocks) l =
     (case block_cut b block of
        None \<Rightarrow> left_over b blocks l
      | Some m \<Rightarrow> slice b l (span_start m) @ left_over b blocks (span_end m))"

lemma strip_blocks_left:
  "strip_blocks b bs out l changed = (out', l', changed') \<Longrightarrow>
     out' @ drop l' b = out @ left_over b bs l \<and> (\<not> changed' \<longrightarrow> \<not> changed \<and> out' = out \<and> l' = l)"
proof (induction bs arbitrary: out l changed)
  case (Cons block bs)
  show ?case
  proof (cases "block_cut b block")
    case None
    then have "strip_blocks b bs out l changed = (out', l', changed')"
      using Cons.prems by (simp add: block_cut_def split: if_splits)
    from Cons.IH [OF this] show ?thesis using None by simp
  next
    case (Some m)
    then have "strip_blocks b bs (out @ slice b l (span_start m)) (span_end m) True = (out', l', changed')"
      using Cons.prems by (simp add: block_cut_def split: if_splits)
    from Cons.IH [OF this] show ?thesis using Some by simp
  qed
qed simp

lemma slice_to_drop: "l \<le> i \<Longrightarrow> slice b l i @ drop i b = drop l b"
  by (metis append_take_drop_id drop_drop le_add_diff_inverse2 slice_def)

lemma drop_slice: "i \<le> j \<Longrightarrow> drop i b = slice b i j @ drop j b"
  by (simp add: slice_to_drop)

lemma value_not_close: "accepts (scan (BeginValue, st) (drop i b)) \<Longrightarrow> i < length b \<Longrightarrow> b ! i \<noteq> CHR '']''"
proof
  assume a: "accepts (scan (BeginValue, st) (drop i b))" "i < length b" "b ! i = CHR '']''"
  then have "accepts (scan (begin_value st (b ! i)) (drop (Suc i) b))" by (simp add: Cons_nth_drop_Suc [symmetric])
  then have "fst (begin_value st (b ! i)) \<noteq> ScanError" by (rule accepts_scanD)
  then show False using a(3) by (simp add: begin_value_def is_json_space_def is_digit_def bval_def)
qed

lemma subseq_same: "subseq x y \<Longrightarrow> subseq (z @ x) (z @ y)"
  by (simp add: list_emb_append_mono)

text \<open>What the induction over the elements from \<open>i\<close> on shows of the blocks \<open>bs\<close>.\<close>

definition strips_well :: "bytes \<Rightarrow> jparse list \<Rightarrow> nat \<Rightarrow> jsonSpan list \<Rightarrow> bool" where
  "strips_well b st i bs \<longleftrightarrow>
     (\<forall>l \<le> i. left_over b bs l = slice b l i @ left_over b bs i)
     \<and> subseq (left_over b bs i) (drop i b)
     \<and> (b ! i = CHR '']'' \<longrightarrow> bs = [])
     \<and> (b ! i \<noteq> CHR '']'' \<longrightarrow> accepts (scan (BeginValue, ArrayValue # st) (left_over b bs i)))"

lemma strips_well_from: "strips_well b st i bs \<Longrightarrow> l \<le> i \<Longrightarrow> left_over b bs l = slice b l i @ left_over b bs i"
  and strips_well_subseq: "strips_well b st i bs \<Longrightarrow> subseq (left_over b bs i) (drop i b)"
  and strips_well_close: "strips_well b st i bs \<Longrightarrow> b ! i = CHR '']'' \<Longrightarrow> bs = []"
  and strips_well_accepts: "strips_well b st i bs \<Longrightarrow> b ! i \<noteq> CHR '']'' \<Longrightarrow>
    accepts (scan (BeginValue, ArrayValue # st) (left_over b bs i))"
  unfolding strips_well_def by blast+

lemma strips_well_step:
  assumes acc: "accepts (scan (BeginValue, ArrayValue # st) (drop i b))" and il: "i < length b" and nb: "b ! i \<noteq> CHR '']''"
    and v: "scanJSONValue b i = Some e" "i < e" "e \<le> length b" "ended (ArrayValue # st) (steps b (BeginValue, ArrayValue # st) i e)"
    and n: "e \<le> j" and sw: "strips_well b st j bs"
    and X: "accepts (scan (EndValue, ArrayValue # st) (slice b e j @ left_over b bs j))"
  shows "strips_well b st i (\<lparr>span_start = i, span_end = e\<rparr> # bs)"
proof -
  let ?blk = "\<lparr>span_start = i, span_end = e\<rparr>" and ?X = "slice b e j @ left_over b bs j"
  have lo: "left_over b bs l = slice b l e @ ?X" if "l \<le> e" for l
  proof -
    have "left_over b bs l = slice b l j @ left_over b bs j" using n that by (intro strips_well_from [OF sw]) simp
    then show ?thesis using slice_append [OF that n, of b, symmetric] by (simp only: append_assoc)
  qed
  have "subseq (left_over b bs j) (drop j b)" by (rule strips_well_subseq [OF sw])
  then have sub: "subseq ?X (drop e b)" unfolding drop_slice [OF n, of b] by (rule subseq_same)
  show ?thesis
  proof (cases "block_cut b ?blk")
    case None
    have "slice b l i @ slice b i e = slice b l e" if "l \<le> i" for l using that v(2) by (simp add: slice_append)
    moreover have "accepts (scan (BeginValue, ArrayValue # st) (slice b i e @ ?X))"
      using ended_accepts [OF v(4) accepts_stop [OF X]] X by (simp add: steps_def scan_append)
    moreover have "subseq (slice b i e @ ?X) (drop i b)" unfolding drop_slice [OF less_imp_le [OF v(2)], of b] by (rule subseq_same [OF sub])
    ultimately show ?thesis using None lo nb v(2) by (simp add: strips_well_def)
  next
    case (Some m)
    then have ob: "b ! i = CHR ''{''" and om: "objectMemberSpan b ?blk ''cache_control'' = Some m"
      by (auto simp: block_cut_def object_block_def split: if_splits)
    have "no_key (ArrayValue # st)" by (simp add: no_key_def)
    from block_without [OF acc il ob this v(1) om X]
    have m: "i < span_start m" "span_start m < span_end m" "span_end m < e"
      "accepts (scan (BeginValue, ArrayValue # st) (slice b i (span_start m) @ slice b (span_end m) e @ ?X))" by auto
    have "subseq (slice b (span_end m) e @ ?X) (drop (span_end m) b)"
      unfolding drop_slice [OF less_imp_le [OF m(3)], of b] by (rule subseq_same [OF sub])
    then have "subseq (slice b (span_end m) e @ ?X) (slice b (span_start m) (span_end m) @ drop (span_end m) b)"
      by (rule list_emb_append2)
    then have "subseq (slice b i (span_start m) @ slice b (span_end m) e @ ?X) (drop i b)"
      unfolding drop_slice [OF less_imp_le [OF m(1)], of b] drop_slice [OF less_imp_le [OF m(2)], of b]
      by (rule subseq_same)
    moreover have "slice b l i @ slice b i (span_start m) = slice b l (span_start m)" if "l \<le> i" for l
      using that m(1) by (simp add: slice_append)
    ultimately show ?thesis using Some lo nb m by (simp add: strips_well_def)
  qed
qed

lemma elements_strip:
  "array_elements_loop b arr_end i out = Some xs \<Longrightarrow> i < length b \<Longrightarrow>
   b ! i = CHR '']'' \<or> accepts (scan (BeginValue, ArrayValue # st) (drop i b)) \<and> \<not> isSpace (b ! i) \<Longrightarrow>
     \<exists>bs. xs = out @ bs \<and> strips_well b st i bs"
proof (induction b arr_end i out rule: array_elements_loop.induct)
  case (1 b arr_end i out)
  note prem = "1.prems"
  have lt: "i < arr_end" using prem(1) by (subst (asm) array_elements_loop.simps) (simp split: if_splits)
  show ?case
  proof (cases "b ! i = CHR '']''")
    case True
    then have "xs = out" using prem(1) lt by (subst (asm) array_elements_loop.simps) simp
    then show ?thesis using True by (intro exI [of _ "[]"]) (simp add: strips_well_def slice_to_drop)
  next
    case False
    then have acc: "accepts (scan (BeginValue, ArrayValue # st) (drop i b))" and ns: "\<not> isSpace (b ! i)"
      using prem(3) by auto
    have nk: "no_key (ArrayValue # st)" by (simp add: no_key_def)
    have si: "skipSpace b i = i" using skipSpace_id [OF prem(2) ns] .
    obtain e where e: "scanJSONValue b i = Some e" "i < e" "e \<le> length b"
      "accepts (scan (EndValue, ArrayValue # st) (drop e b))" "ended (ArrayValue # st) (steps b (BeginValue, ArrayValue # st) i e)"
      by (rule value_at [OF acc _ nk]) (use prem(2) si in auto)
    let ?s = "skipSpace b e"
    let ?j = "if ?s < arr_end \<and> b ! ?s = CHR '','' then skipSpace b (?s + 1) else ?s"
    let ?out = "out @ [\<lparr>span_start = i, span_end = e\<rparr>]"
    have loop: "array_elements_loop b arr_end ?j ?out = Some xs"
      using prem(1) lt False e(1)
      by (subst (asm) array_elements_loop.simps) (simp only: skip_eq Let_def if_True if_False option.case)
    have sa: "?s < arr_end" using loop by (subst (asm) array_elements_loop.simps) (auto split: if_splits)
    have es: "e \<le> ?s" by (rule skipSpace_ge)
    from after_item [OF e(4,3)] have sep: "?s < length b" "b ! ?s = CHR '']'' \<or>
        b ! ?s = CHR '','' \<and> accepts (scan (BeginValue, ArrayValue # st) (drop (Suc ?s) b))" by auto
    have j: "e \<le> ?j" "?j < length b" "b ! ?j = CHR '']'' \<or> accepts (scan (BeginValue, ArrayValue # st) (drop ?j b)) \<and> \<not> isSpace (b ! ?j)"
      and fwd: "b ! ?j = CHR '']'' \<or> scan (EndValue, ArrayValue # st) (slice b e ?j) = (BeginValue, ArrayValue # st)"
    proof -
      show "e \<le> ?j" using es skipSpace_ge [of "?s + 1" b] by simp
      show "?j < length b"
      proof (cases "b ! ?s = CHR '',''")
        case True
        then have "accepts (scan (BeginValue, ArrayValue # st) (drop ?j b))" using sep sa by (simp add: scan_skip_simps)
        then show ?thesis by (rule_tac ccontr) simp
      next
        case False
        then show ?thesis using sep by simp
      qed
      then show "b ! ?j = CHR '']'' \<or> accepts (scan (BeginValue, ArrayValue # st) (drop ?j b)) \<and> \<not> isSpace (b ! ?j)"
        using sep sa skipSpace_stop [of b "?s + 1"] by (auto simp: scan_skip_simps)
      show "b ! ?j = CHR '']'' \<or> scan (EndValue, ArrayValue # st) (slice b e ?j) = (BeginValue, ArrayValue # st)"
      proof (cases "b ! ?s = CHR '',''")
        case True
        let ?E = "(EndValue, ArrayValue # st)"
        have "steps b ?E e (Suc ?s) = (BeginValue, ArrayValue # st)"
          using steps_append [of e ?s "Suc ?s" b ?E] es sep(1) True by (simp add: steps_Suc end_value_def is_json_space_def)
        then have "steps b ?E e (skipSpace b (Suc ?s)) = (BeginValue, ArrayValue # st)"
          using steps_append [of e "Suc ?s" "skipSpace b (Suc ?s)" b ?E] es skipSpace_ge [of "Suc ?s" b] by simp
        then show ?thesis using True sa by (simp add: steps_def)
      next
        case False
        then show ?thesis using sep by simp
      qed
    qed
    have "\<exists>bs. xs = ?out @ bs \<and> strips_well b st ?j bs"
      by (rule "1.IH" [unfolded skip_eq, OF lt False e(1) refl loop j(2,3)])
    then obtain bs where bs: "xs = ?out @ bs" "strips_well b st ?j bs" by blast
    have "accepts (scan (EndValue, ArrayValue # st) (slice b e ?j @ left_over b bs ?j))"
    proof (cases "b ! ?j = CHR '']''")
      case True
      then have "bs = []" by (rule strips_well_close [OF bs(2)])
      then have "slice b e ?j @ left_over b bs ?j = drop e b" using slice_to_drop [OF j(1), of b] by (simp only: left_over.simps)
      then show ?thesis using e(4) by (simp only:)
    next
      case False
      then have "accepts (scan (BeginValue, ArrayValue # st) (left_over b bs ?j))" by (rule strips_well_accepts [OF bs(2)])
      moreover have "scan (EndValue, ArrayValue # st) (slice b e ?j) = (BeginValue, ArrayValue # st)" using fwd False by blast
      ultimately show ?thesis by (simp only: scan_append)
    qed
    from strips_well_step [OF acc prem(2) False e(1,2,3,5) j(1) bs(2) this] bs(1) show ?thesis
      by (intro exI [of _ "\<lparr>span_start = i, span_end = e\<rparr> # bs"]) simp
  qed
qed

end
