(* ===== verification/Anthropic_Strip_Facts.thy ===== *)
theory Anthropic_Strip_Facts
  imports Anthropic_Strip
begin

text \<open>
  The whole of \<open>stripCacheControl\<close>: from the elements of one array to the value of a field of an
  object to the text. A valid text stays valid and only loses bytes.
\<close>

section \<open>Where an array or an object opens\<close>

lemma value_or_empty:
  "accepts (scan (BeginValue, ArrayValue # st) X) \<Longrightarrow> accepts (scan (BeginValueOrEmpty, ArrayValue # st) X)"
proof (induction X)
  case (Cons c X)
  show ?case
  proof (cases "is_json_space c")
    case True
    then show ?thesis using Cons by (simp add: begin_value_def)
  next
    case False
    have a: "accepts (scan (begin_value (ArrayValue # st) c) X)" using Cons.prems by simp
    then have "fst (begin_value (ArrayValue # st) c) \<noteq> ScanError" by (rule accepts_scanD)
    then have "c \<noteq> CHR '']''" by (rule_tac notI) (simp add: begin_value_def is_json_space_def is_digit_def bval_def)
    then show ?thesis using a False by (simp add: begin_value_def)
  qed
qed simp

lemma empty_or_value:
  "accepts (scan (BeginValueOrEmpty, ArrayValue # st) (drop j b)) \<Longrightarrow> j < length b \<Longrightarrow> b ! j \<noteq> CHR '']'' \<Longrightarrow>
     \<not> isSpace (b ! j) \<Longrightarrow> accepts (scan (BeginValue, ArrayValue # st) (drop j b))"
  by (simp add: Cons_nth_drop_Suc [symmetric] isSpace_json)

lemma array_opens:
  assumes "accepts (scan (BeginValue, st) (drop i b))" and "i < length b" and "b ! i = CHR ''[''"
  defines "j \<equiv> skipSpace b (Suc i)"
  shows "Suc i \<le> j" and "j < length b" and "steps b (BeginValue, st) i j = (BeginValueOrEmpty, ArrayValue # st)"
    and "b ! j = CHR '']'' \<or> accepts (scan (BeginValue, ArrayValue # st) (drop j b)) \<and> \<not> isSpace (b ! j)"
proof -
  let ?E = "(BeginValueOrEmpty, ArrayValue # st)"
  have a: "accepts (scan (push_state ArrayValue BeginValueOrEmpty st) (drop (Suc i) b))"
    using assms by (simp add: Cons_nth_drop_Suc [symmetric] begin_value_def is_json_space_def)
  then have "fst (push_state ArrayValue BeginValueOrEmpty st) \<noteq> ScanError" by (rule accepts_scanD)
  then have push: "push_state ArrayValue BeginValueOrEmpty st = ?E" by (simp add: push_state_def split: if_splits)
  show ij: "Suc i \<le> j" by (simp add: j_def skipSpace_ge)
  have "steps b (BeginValue, st) i (Suc i) = ?E"
    using assms(2,3) push by (simp add: steps_Suc begin_value_def is_json_space_def)
  then show "steps b (BeginValue, st) i j = ?E"
    using steps_append [of i "Suc i" j b "(BeginValue, st)"] ij by (simp add: j_def)
  have aj: "accepts (scan ?E (drop j b))" using a push steps_drop [OF ij, of ?E b] by (simp add: j_def)
  then show jl: "j < length b" by (rule_tac ccontr) simp
  show "b ! j = CHR '']'' \<or> accepts (scan (BeginValue, ArrayValue # st) (drop j b)) \<and> \<not> isSpace (b ! j)"
    using empty_or_value [OF aj jl] skipSpace_stop [of b "Suc i"] jl unfolding j_def by blast
qed

lemma object_opens:
  assumes "accepts (scan (BeginValue, st) (drop i b))" and "i < length b" and "b ! i = CHR ''{''"
  defines "j \<equiv> skipSpace b (Suc i)"
  shows "Suc i \<le> j" and "j < length b"
    and "b ! j = CHR ''}'' \<or> accepts (scan (in_key st) (drop j b)) \<and> \<not> isSpace (b ! j)
           \<and> (\<forall>x > j. steps b (BeginValue, st) i x = steps b (in_key st) j x)"
proof -
  let ?E = "(BeginStringOrEmpty, ObjectKey # st)"
  have a: "accepts (scan (push_state ObjectKey BeginStringOrEmpty st) (drop (Suc i) b))"
    using assms by (simp add: Cons_nth_drop_Suc [symmetric] begin_value_def is_json_space_def)
  then have "fst (push_state ObjectKey BeginStringOrEmpty st) \<noteq> ScanError" by (rule accepts_scanD)
  then have push: "push_state ObjectKey BeginStringOrEmpty st = ?E" by (simp add: push_state_def split: if_splits)
  show ij: "Suc i \<le> j" by (simp add: j_def skipSpace_ge)
  have "steps b (BeginValue, st) i (Suc i) = ?E"
    using assms(2,3) push by (simp add: steps_Suc begin_value_def is_json_space_def)
  then have Sj: "steps b (BeginValue, st) i j = ?E"
    using steps_append [of i "Suc i" j b "(BeginValue, st)"] ij by (simp add: j_def)
  have aj: "accepts (scan ?E (drop j b))" using a push steps_drop [OF ij, of ?E b] by (simp add: j_def)
  then show jl: "j < length b" by (rule_tac ccontr) simp
  have ns: "\<not> isSpace (b ! j)" using skipSpace_stop [of b "Suc i"] jl by (simp add: j_def)
  then have nj: "\<not> is_json_space (b ! j)" by (simp add: isSpace_json)
  show "b ! j = CHR ''}'' \<or> accepts (scan (in_key st) (drop j b)) \<and> \<not> isSpace (b ! j)
           \<and> (\<forall>x > j. steps b (BeginValue, st) i x = steps b (in_key st) j x)"
  proof (cases "b ! j = CHR ''}''")
    case False
    have one: "scan_step ?E (b ! j) = scan_step (in_key st) (b ! j)" using False nj by simp
    have "steps b (BeginValue, st) i x = steps b (in_key st) j x" if "x > j" for x
      using steps_append [of i j x b "(BeginValue, st)"] Sj ij that jl one by (simp add: steps_def slice_Cons_step)
    moreover have "accepts (scan (in_key st) (drop j b))" using aj jl one by (simp add: Cons_nth_drop_Suc [symmetric])
    ultimately show ?thesis using ns by blast
  qed simp
qed

section \<open>The value of a field\<close>

lemma field_loop_at:
  "find_field_loop b e f i = Some v \<Longrightarrow> accepts (scan (in_key st) (drop i b)) \<Longrightarrow> i \<le> length b \<Longrightarrow> \<not> isSpace (b ! i) \<Longrightarrow>
     i < span_start v \<and> span_start v < span_end v
     \<and> scanJSONValue b (span_start v) = Some (span_end v) \<and> steps b (in_key st) i (span_start v) = (BeginValue, in_member st)
     \<and> accepts (scan (BeginValue, in_member st) (drop (span_start v) b)) \<and> passes b i (span_end v)"
proof (induction b e f i rule: find_field_loop.induct)
  case (1 b e f i)
  note prem = "1.prems"
  obtain k c x where mem: "member_at b st i k c x" using member_reads [OF prem(2-4)] by blast
  note d = mem [unfolded member_at_def]
  let ?s = "skipSpace b x" and ?v = "skipSpace b (Suc c)"
  have lt: "i < e" using prem(1) by (subst (asm) find_field_loop.simps) (simp split: if_splits)
  obtain key where key: "decodeJSONString (slice b i k) = Some key"
    using prem(1) d lt by (subst (asm) find_field_loop.simps) (auto split: option.splits)
  have ce: "c < e"
  proof (rule ccontr)
    assume "\<not> c < e"
    then show False using prem(1) lt key d by (subst (asm) find_field_loop.simps) (simp add: skip_eq)
  qed
  have d1: "b ! i = CHR 0x22" "scanJSONString b i = Some k" "skipSpace b k = c" "b ! c = CHR '':''" "scanJSONValue b ?v = Some x"
    using d by auto
  have n: "(e \<le> c) = False" "(i < e) = True" "(CHR 0x22 = CHR ''}'') = False" using ce lt by simp_all
  let ?n = "if ?s < e \<and> b ! ?s = CHR '','' then skipSpace b (?s + 1) else ?s"
  have step: "find_field_loop b e f i =
      (if key = f then Some \<lparr>span_start = ?v, span_end = x\<rparr> else find_field_loop b e f ?n)"
    by (subst find_field_loop.simps)
      (simp only: skip_eq Let_def d1 key n Suc_eq_plus1 [symmetric] option.case simp_thms if_True if_False)
  show ?case
  proof (cases "key = f")
    case True
    then show ?thesis using step prem(1) d by auto
  next
    case False
    then have l: "find_field_loop b e f ?n = Some v" using step prem(1) by simp
    show ?thesis
    proof (cases rule: member_then [OF mem])
      case 1
      then have "find_field_loop b e f ?s = Some v" using l by simp
      then show ?thesis using 1(1) by (subst (asm) find_field_loop.simps) (simp split: if_splits)
    next
      case 2
      have se: "?s < e"
      proof (rule ccontr)
        assume "\<not> ?s < e"
        then show False using l by (subst (asm) find_field_loop.simps) simp
      qed
      let ?m = "skipSpace b (Suc ?s)"
      have m: "Suc ?s \<le> ?m" "x \<le> ?s" by (rule skipSpace_ge)+
      have lm: "find_field_loop b e f ?m = Some v" using l 2(1) se by simp
      have me: "?m < e" using lm by (subst (asm) find_field_loop.simps) (simp split: if_splits)
      have ml: "?m < length b" using 2(3) by (rule_tac ccontr) simp
      have ns: "\<not> isSpace (b ! ?m)" using skipSpace_stop [of b "Suc ?s"] ml by simp
      have c: "b ! i \<noteq> CHR ''}''" "\<not> b ! i \<noteq> CHR 0x22" "\<not> (c \<ge> e \<or> b ! c \<noteq> CHR '':'')" using d ce by auto
      have IH: "?m < span_start v \<and> span_start v < span_end v
         \<and> scanJSONValue b (span_start v) = Some (span_end v) \<and> steps b (in_key st) ?m (span_start v) = (BeginValue, in_member st)
         \<and> accepts (scan (BeginValue, in_member st) (drop (span_start v) b)) \<and> passes b ?m (span_end v)"
        using "1.IH" [unfolded skip_eq, OF lt c(1,2) d1(2) key d1(3) [symmetric] c(3) _ _ False, of ?v x] d1(5) ml ns 2 se lm
        by simp
      have im: "i < ?m" using m d by auto
      have "steps b (in_key st) i (span_start v) = (BeginValue, in_member st)"
        using steps_append [of i ?m "span_start v" b "in_key st"] 2(5) IH im by simp
      moreover have "passes b i (span_end v)" using passes_trans [OF 2(6)] IH by blast
      ultimately show ?thesis using IH im by simp
    qed
  qed
qed

section \<open>The strip\<close>

lemma array_strip:
  assumes "accepts (scan (BeginValue, st) (drop i b))" and "i < length b"
    and "arrayElements b \<lparr>span_start = i, span_end = e\<rparr> = Some bs"
  shows "left_over b bs 0 = take i b @ left_over b bs i" and "subseq (left_over b bs i) (drop i b)"
    and "accepts (scan (BeginValue, st) (left_over b bs i))"
proof -
  let ?j = "skipSpace b (Suc i)"
  have br: "b ! i = CHR ''[''" and loop: "array_elements_loop b e ?j [] = Some bs"
    using assms(3) by (auto simp: arrayElements_def opens_with_def skip_eq split: if_splits)
  note o = array_opens [OF assms(1,2) br]
  from elements_strip [OF loop o(2,4)] have sw: "strips_well b st ?j bs" by auto
  have lo: "left_over b bs l = slice b l ?j @ left_over b bs ?j" if "l \<le> ?j" for l
    by (rule strips_well_from [OF sw that])
  have ij: "0 \<le> i" "i \<le> ?j" using o(1) by simp_all
  show "left_over b bs 0 = take i b @ left_over b bs i"
    using lo [of 0] lo [OF ij(2)] slice_append [OF ij, of b] by (simp add: slice_def)
  have "subseq (left_over b bs ?j) (drop ?j b)" by (rule strips_well_subseq [OF sw])
  then show "subseq (left_over b bs i) (drop i b)"
    unfolding lo [OF ij(2)] drop_slice [OF ij(2), of b] by (rule subseq_same)
  show "accepts (scan (BeginValue, st) (left_over b bs i))"
  proof (cases "b ! ?j = CHR '']''")
    case True
    then have "bs = []" by (rule strips_well_close [OF sw])
    then show ?thesis using assms(1) by simp
  next
    case False
    have "accepts (scan (BeginValueOrEmpty, ArrayValue # st) (left_over b bs ?j))"
      by (rule value_or_empty [OF strips_well_accepts [OF sw False]])
    then show ?thesis unfolding lo [OF ij(2)] scan_append using o(3) by (simp add: steps_def)
  qed
qed

lemma content_strip:
  assumes "accepts (scan (BeginValue, []) b)" and "content_blocks b = Some bs"
  shows "subseq (left_over b bs 0) b" and "accepts (scan (BeginValue, []) (left_over b bs 0))"
proof -
  let ?i = "skipSpace b 0"
  let ?j = "skipSpace b (Suc ?i)"
  obtain e v where m: "b ! ?i = CHR ''{''" "?i < length b" "findObjectField b \<lparr>span_start = ?i, span_end = e\<rparr> ''content'' = Some v"
    and bs: "arrayElements b v = Some bs"
    using assms(2) by (auto simp: content_blocks_def rootObjectSpan_def skip_eq Let_def split: option.splits if_splits)
  have loop: "find_field_loop b e ''content'' ?j = Some v"
    using m(3) by (auto simp: findObjectField_def skip_eq split: if_splits)
  have a: "accepts (scan (BeginValue, []) (drop ?i b))" using assms(1) scan_skip_simps(1) [of 0 b "[]"] by simp
  note o = object_opens [OF a m(2,1)]
  have "b ! ?j \<noteq> CHR ''}''" using loop by (subst (asm) find_field_loop.simps) (auto split: if_splits)
  then have k: "accepts (scan (in_key []) (drop ?j b))" "\<not> isSpace (b ! ?j)"
    "\<forall>x > ?j. steps b (BeginValue, []) ?i x = steps b (in_key []) ?j x" using o(3) by blast+
  have "?j \<le> length b" using o(2) by simp
  note v = field_loop_at [OF loop k(1) this k(2)]
  let ?s = "span_start v"
  have si: "?i < ?s" using v o(1) by simp
  have sl: "?s < length b" using bs by (auto simp: arrayElements_def opens_with_def split: if_splits)
  have "v = \<lparr>span_start = ?s, span_end = span_end v\<rparr>" by simp
  then have ae: "arrayElements b \<lparr>span_start = ?s, span_end = span_end v\<rparr> = Some bs" using bs by metis
  have av: "accepts (scan (BeginValue, in_member []) (drop ?s b))" using v by blast
  note s = array_strip [OF av sl ae]
  show "subseq (left_over b bs 0) b"
    using subseq_same [OF s(2), of "take ?s b"] unfolding s(1) append_take_drop_id .
  have "steps b (BeginValue, []) 0 ?i = (BeginValue, [])" by simp
  then have "steps b (BeginValue, []) 0 ?s = (BeginValue, in_member [])"
    using steps_append [of 0 ?i ?s b "(BeginValue, [])"] si k(3) v by simp
  then show "accepts (scan (BeginValue, []) (left_over b bs 0))"
    unfolding s(1) scan_append using s(3) by (simp add: steps_def slice_def)
qed

lemma value_blocks_strip:
  assumes "accepts (scan (BeginValue, []) b)" and "value_blocks b = Some bs"
  shows "subseq (left_over b bs 0) b \<and> accepts (scan (BeginValue, []) (left_over b bs 0))"
proof (cases "b ! skipSpace b 0 = CHR ''{''")
  case True
  then have "content_blocks b = Some bs"
    using assms(2) by (auto simp: value_blocks_def Let_def skip_eq split: if_splits)
  from content_strip [OF assms(1) this] show ?thesis ..
next
  case False
  let ?i = "skipSpace b 0"
  obtain e where il: "?i < length b" and ae: "arrayElements b \<lparr>span_start = ?i, span_end = e\<rparr> = Some bs"
    using assms(2) False by (auto simp: value_blocks_def Let_def skip_eq split: if_splits option.splits)
  have a: "accepts (scan (BeginValue, []) (drop ?i b))" using assms(1) scan_skip_simps(1) [of 0 b "[]"] by simp
  note s = array_strip [OF a il ae]
  have "subseq (left_over b bs 0) b"
    using subseq_same [OF s(2), of "take ?i b"] unfolding s(1) append_take_drop_id .
  moreover have "steps b (BeginValue, []) 0 ?i = (BeginValue, [])" by simp
  then have "accepts (scan (BeginValue, []) (left_over b bs 0))"
    unfolding s(1) scan_append using s(3) by (simp add: steps_def slice_def)
  ultimately show ?thesis ..
qed

lemma stripCacheControl_left:
  "stripCacheControl b = (if \<not> contains b (quoted ''cache_control'') then b
     else case value_blocks b of None \<Rightarrow> b | Some bs \<Rightarrow> left_over b bs 0)"
proof (cases "value_blocks b")
  case (Some bs)
  obtain out' l' changed' where s: "strip_blocks b bs [] 0 False = (out', l', changed')" by (cases "strip_blocks b bs [] 0 False")
  from strip_blocks_left [OF s] show ?thesis using Some s by (auto simp: stripCacheControl_def)
qed (simp add: stripCacheControl_def)

theorem strip_valid_subseq:
  assumes "json_valid b"
  shows "json_valid (stripCacheControl b)" and "subseq (stripCacheControl b) b"
  using value_blocks_strip [of b] assms
  by (auto simp: stripCacheControl_left json_valid_accepts split: option.splits)

end
