(* ===== verification/Json_Decode.thy ===== *)
theory Json_Decode
  imports Toon
begin

text \<open>
  \<open>json.Unmarshal\<close> into a \<open>map[string]any\<close>, as the adapters use it to ask what a body holds:
  the whole text must be valid, the tokens are folded into maps and slices, the last of duplicate keys
  stays, and a number must fit a 64-bit float. A number keeps its text; its float value is not modelled.
\<close>

section \<open>Numbers that fit\<close>

definition digits_value :: "bytes \<Rightarrow> int" where
  "digits_value ds = foldl (\<lambda>a c. a * 10 + int (bval c - 48)) 0 ds"

text \<open>The exponent's digits are read while the value is below 10000, as \<open>strconv\<close> does.\<close>

definition exponent_value :: "bytes \<Rightarrow> int" where
  "exponent_value w =
     (if w = [] then 0
      else
        let s = tl w;
            ds = (if s \<noteq> [] \<and> (hd s = CHR ''-'' \<or> hd s = CHR ''+'') then tl s else s);
            n = foldl (\<lambda>e c. if e < 10000 then e * 10 + int (bval c - 48) else e) (0 :: int) ds
        in if s \<noteq> [] \<and> hd s = CHR ''-'' then - n else n)"

text \<open>The least magnitude that rounds to infinity.\<close>

definition float64_limit :: int where
  "float64_limit = 2 ^ 1024 - 2 ^ 970"

definition float64_fits :: "bytes \<Rightarrow> bool" where
  "float64_fits w =
     (let u = (if w \<noteq> [] \<and> hd w = CHR ''-'' then tl w else w);
          ip = takeWhile is_digit u;
          r = dropWhile is_digit u;
          dot = (r \<noteq> [] \<and> hd r = CHR ''.'');
          fp = (if dot then takeWhile is_digit (tl r) else []);
          x = exponent_value (if dot then dropWhile is_digit (tl r) else r) - int (length fp);
          m = digits_value (ip @ fp)
      in if 0 \<le> x then m * 10 ^ nat x < float64_limit else m < float64_limit * 10 ^ nat (- x))"

section \<open>Folding tokens\<close>

text \<open>All tokens of a text; \<open>None\<close> when one is malformed.\<close>

function tokens :: "decoder \<Rightarrow> token list option" where
  "tokens dec =
     (case Token dec of
        Inl e \<Rightarrow> if e = TokenEOF then Some [] else None
      | Inr (t, d) \<Rightarrow> map_option ((#) t) (tokens d))"
  by pat_completeness auto
termination
  by (relation "measure (\<lambda>dec. length (unread dec))") (auto dest: Token_shorter)

declare tokens.simps [simp del]

text \<open>A map being filled, with the key whose value comes next, or a slice.\<close>

datatype frame =
    MapFrame "(bytes \<times> goval) list" "bytes option"
  | SliceFrame "goval list"

datatype folded = Done goval | Open "frame list"

fun fold_value :: "goval \<Rightarrow> frame list \<Rightarrow> folded option" where
  "fold_value v [] = Some (Done v)"
| "fold_value v (SliceFrame xs # fs) = Some (Open (SliceFrame (xs @ [v]) # fs))"
| "fold_value v (MapFrame m (Some k) # fs) = Some (Open (MapFrame (map_put k v m) None # fs))"
| "fold_value v (MapFrame m None # fs) = None"

fun fold_token :: "token \<Rightarrow> frame list \<Rightarrow> folded option" where
  "fold_token (TokString k) (MapFrame m None # fs) = Some (Open (MapFrame m (Some k) # fs))"
| "fold_token (TokString s) fs = fold_value (GString s) fs"
| "fold_token TokNull fs = fold_value GNil fs"
| "fold_token (TokBool b) fs = fold_value (GBool b) fs"
| "fold_token (TokNumber s) fs = (if float64_fits s then fold_value (GNumber s) fs else None)"
| "fold_token (Delim c) fs =
     (if c = CHR ''{'' then Some (Open (MapFrame [] None # fs))
      else if c = CHR ''['' then Some (Open (SliceFrame [] # fs))
      else case fs of
        MapFrame m None # rest \<Rightarrow> if c = CHR ''}'' then fold_value (GMap m) rest else None
      | SliceFrame xs # rest \<Rightarrow> if c = CHR '']'' then fold_value (GSlice xs) rest else None
      | _ \<Rightarrow> None)"

fun fold_tokens :: "token list \<Rightarrow> frame list \<Rightarrow> goval option" where
  "fold_tokens [] fs = None"
| "fold_tokens (t # ts) fs =
     (case fold_token t fs of
        None \<Rightarrow> None
      | Some (Done v) \<Rightarrow> if ts = [] then Some v else None
      | Some (Open fs') \<Rightarrow> fold_tokens ts fs')"

definition unmarshal_any :: "bytes \<Rightarrow> goval option" where
  "unmarshal_any data =
     (if \<not> json_valid data then None
      else case tokens \<lparr>tok_state = tokenTopValue, tok_stack = [], unread = data\<rparr> of
        None \<Rightarrow> None
      | Some ts \<Rightarrow> fold_tokens ts [])"

text \<open>\<open>null\<close> leaves the map nil; any other value that is not an object is an error.\<close>

definition unmarshal_map :: "bytes \<Rightarrow> (bytes \<times> goval) list option" where
  "unmarshal_map data =
     (case unmarshal_any data of
        Some (GMap m) \<Rightarrow> Some m
      | Some GNil \<Rightarrow> Some []
      | _ \<Rightarrow> None)"

lemma unmarshal_map_valid: "unmarshal_map data = Some m \<Longrightarrow> json_valid data"
  by (simp add: unmarshal_map_def unmarshal_any_def split: if_splits)

end
