(* ===== verification/Anthropic_Plan.thy ===== *)
theory Anthropic_Plan
  imports Anthropic_Splice Json_Decode
begin

text \<open>
  The three places that put \<open>cache_control\<close> markers into an Anthropic request: the breakpoint
  planner (proxy/providers/anthropic/breakpoint_plan.go), the explicit breakpoint optimizer
  (cache_breakpoints.go) and the automatic marker (automatic_cache.go). A second result \<open>false\<close>
  is \<open>None\<close>.
\<close>

section \<open>Edits\<close>

definition maxCacheBreakpoints :: nat where
  "maxCacheBreakpoints = 4"

definition cacheControlField :: bytes where
  "cacheControlField = quoted ''cache_control'' @ '':{'' @ quoted ''type'' @ '':'' @ quoted ''ephemeral'' @ ''}''"

record spliceEdit =
  edit_start :: int
  edit_end :: int
  edit_bytes :: bytes

definition isJSONObject :: "bytes \<Rightarrow> Span \<Rightarrow> bool" where
  "isJSONObject data s \<longleftrightarrow>
     Start s \<ge> 0 \<and> Start s < End s \<and> End s \<le> int (length data)
     \<and> data ! nat (Start s) = CHR ''{'' \<and> data ! nat (End s - 1) = CHR ''}''"

definition isJSONArray :: "bytes \<Rightarrow> Span \<Rightarrow> bool" where
  "isJSONArray data s \<longleftrightarrow>
     Start s \<ge> 0 \<and> Start s < End s \<and> End s \<le> int (length data)
     \<and> data ! nat (Start s) = CHR ''['' \<and> data ! nat (End s - 1) = CHR '']''"

definition isJSONSpaceByte :: "char \<Rightarrow> bool" where
  "isJSONSpaceByte b \<longleftrightarrow> b = CHR '' '' \<or> b = CHR 0x0A \<or> b = CHR 0x0D \<or> b = CHR 0x09"

text \<open>From \<open>insertAt\<close> back over the space, never before \<open>first\<close>.\<close>

fun back_over_space :: "bytes \<Rightarrow> nat \<Rightarrow> nat \<Rightarrow> nat" where
  "back_over_space data first 0 = 0"
| "back_over_space data first (Suc k) =
     (if Suc k > first \<and> isJSONSpaceByte (data ! k) then back_over_space data first k else Suc k)"

definition appendFieldEdit :: "bytes \<Rightarrow> Span \<Rightarrow> spliceEdit option" where
  "appendFieldEdit data ob =
     (if \<not> isJSONObject data ob then None
      else
        let first = nat (Start ob) + 1;
            insertAt = back_over_space data first (nat (End ob - 1))
        in Some \<lparr>edit_start = int insertAt, edit_end = int insertAt,
             edit_bytes = (if insertAt > first then '','' else []) @ cacheControlField\<rparr>)"

text \<open>One pass over the edits sorted by where they start; \<open>None\<close> when two overlap.\<close>

fun apply_sorted :: "bytes \<Rightarrow> spliceEdit list \<Rightarrow> bytes \<Rightarrow> int \<Rightarrow> bytes option" where
  "apply_sorted data [] out lastEnd = Some (out @ drop (nat lastEnd) data)"
| "apply_sorted data (e # es) out lastEnd =
     (if edit_start e < lastEnd \<or> edit_end e < edit_start e \<or> edit_end e > int (length data) then None
      else apply_sorted data es (out @ slice data (nat lastEnd) (nat (edit_start e)) @ edit_bytes e) (edit_end e))"

definition applySpliceEdits :: "bytes \<Rightarrow> spliceEdit list \<Rightarrow> bytes option" where
  "applySpliceEdits data edits = apply_sorted data (sort_key edit_start edits) [] 0"

section \<open>What the body already holds\<close>

fun countJSONKey :: "goval \<Rightarrow> bytes \<Rightarrow> nat" where
  "countJSONKey (GMap m) key = sum_list (map (\<lambda>(k, child). (if k = key then 1 else 0) + countJSONKey child key) m)"
| "countJSONKey (GSlice xs) key = sum_list (map (\<lambda>child. countJSONKey child key) xs)"
| "countJSONKey _ key = 0"

fun containsJSONKey :: "goval \<Rightarrow> bytes \<Rightarrow> bool" where
  "containsJSONKey (GMap m) key = list_ex (\<lambda>(k, child). k = key \<or> containsJSONKey child key) m"
| "containsJSONKey (GSlice xs) key = list_ex (\<lambda>child. containsJSONKey child key) xs"
| "containsJSONKey _ key = False"

definition blockIsMarked :: "bytes \<Rightarrow> Span \<Rightarrow> bool" where
  "blockIsMarked data s \<longleftrightarrow> isJSONObject data s \<and> Field data s ''cache_control'' \<noteq> None"

text \<open>The messages' own part of \<open>contentBlocksCarryBreakpoint\<close>; \<open>None\<close> is a shape it cannot walk.\<close>

fun messages_marked :: "bytes \<Rightarrow> Span list \<Rightarrow> bool option" where
  "messages_marked data [] = Some False"
| "messages_marked data (message # rest) =
     (if \<not> isJSONObject data message then None
      else case Field data message ''content'' of
        None \<Rightarrow> None
      | Some content \<Rightarrow>
          if \<not> isJSONArray data content then messages_marked data rest
          else case Elements data content of
            None \<Rightarrow> None
          | Some blocks \<Rightarrow> if list_ex (blockIsMarked data) blocks then Some True else messages_marked data rest)"

definition contentBlocksCarryBreakpoint :: "bytes \<Rightarrow> Span \<Rightarrow> bool option" where
  "contentBlocksCarryBreakpoint data root =
     (let in_messages =
        (case Field data root ''messages'' of
           None \<Rightarrow> None
         | Some messages \<Rightarrow>
             if \<not> isJSONArray data messages then None
             else case Elements data messages of None \<Rightarrow> None | Some elements \<Rightarrow> messages_marked data elements)
      in case Field data root ''system'' of
           None \<Rightarrow> in_messages
         | Some system \<Rightarrow>
             if \<not> isJSONArray data system then in_messages
             else case Elements data system of
               None \<Rightarrow> None
             | Some elements \<Rightarrow> if list_ex (blockIsMarked data) elements then Some True else in_messages)"

section \<open>The planner\<close>

text \<open>The last object of the list gets the marker.\<close>

definition last_object_edit :: "bytes \<Rightarrow> Span list \<Rightarrow> spliceEdit option" where
  "last_object_edit data elements =
     (case find (isJSONObject data) (rev elements) of None \<Rightarrow> None | Some e \<Rightarrow> appendFieldEdit data e)"

definition toolsTailEdit :: "bytes \<Rightarrow> Span \<Rightarrow> spliceEdit option" where
  "toolsTailEdit data root =
     (case Field data root ''tools'' of
        None \<Rightarrow> None
      | Some tools \<Rightarrow>
          if \<not> isJSONArray data tools then None
          else case Elements data tools of None \<Rightarrow> None | Some elements \<Rightarrow> last_object_edit data elements)"

text \<open>A string becomes an array of one text block, the only shape that can carry a marker.\<close>

definition text_block :: "bytes \<Rightarrow> bytes" where
  "text_block s = ''[{'' @ quoted ''type'' @ '':'' @ quoted ''text'' @ '','' @ quoted ''text'' @ '':'' @ s
     @ '','' @ cacheControlField @ ''}]''"

definition systemTailEdit :: "bytes \<Rightarrow> Span \<Rightarrow> spliceEdit option" where
  "systemTailEdit data root =
     (case Field data root ''system'' of
        None \<Rightarrow> None
      | Some system \<Rightarrow>
          if Start system \<ge> End system then None
          else if data ! nat (Start system) = CHR 0x22 then
            Some \<lparr>edit_start = Start system, edit_end = End system,
              edit_bytes = text_block (slice data (nat (Start system)) (nat (End system)))\<rparr>
          else if data ! nat (Start system) = CHR ''['' then
            (case Elements data system of None \<Rightarrow> None | Some elements \<Rightarrow> last_object_edit data elements)
          else None)"

definition frontierEdit :: "bytes \<Rightarrow> Span \<Rightarrow> spliceEdit option" where
  "frontierEdit data root =
     (case Field data root ''messages'' of
        None \<Rightarrow> None
      | Some messages \<Rightarrow>
          if \<not> isJSONArray data messages then None
          else case Elements data messages of
            None \<Rightarrow> None
          | Some elements \<Rightarrow>
              if elements = [] \<or> \<not> isJSONObject data (last elements) then None
              else case Field data (last elements) ''content'' of
                None \<Rightarrow> None
              | Some content \<Rightarrow>
                  if \<not> isJSONArray data content then None
                  else case Elements data content of
                    None \<Rightarrow> None
                  | Some blocks \<Rightarrow> last_object_edit data blocks)"

definition coldStartPlan :: "bytes \<Rightarrow> Span \<Rightarrow> spliceEdit list" where
  "coldStartPlan data root =
     take maxCacheBreakpoints
       (List.map_filter id [toolsTailEdit data root, systemTailEdit data root, frontierEdit data root])"

definition lookbackPlan :: "spliceEdit list" where
  "lookbackPlan = []"

definition managedPlan :: "bytes \<Rightarrow> Span \<Rightarrow> nat \<Rightarrow> bool \<Rightarrow> spliceEdit list" where
  "managedPlan data root budget payg =
     (if budget = 0 then []
      else if lookbackPlan \<noteq> [] then lookbackPlan
      else if \<not> payg then []
      else if contentBlocksCarryBreakpoint data root \<noteq> Some False then []
      else case frontierEdit data root of None \<Rightarrow> [] | Some edit \<Rightarrow> [edit])"

text \<open>The edits \<open>planCacheBreakpoints\<close> chooses, with the count of markers the caller placed.\<close>

definition planned :: "bytes \<Rightarrow> bool \<Rightarrow> (nat \<times> spliceEdit list) option" where
  "planned data payg =
     (case unmarshal_map data of
        None \<Rightarrow> None
      | Some root \<Rightarrow>
          let existing = countJSONKey (GMap root) ''cache_control'' in
          if existing \<ge> maxCacheBreakpoints then None
          else case Root data of
            None \<Rightarrow> None
          | Some ob \<Rightarrow>
              if existing = 0 then (if \<not> payg then None else Some (existing, coldStartPlan data ob))
              else Some (existing, managedPlan data ob (maxCacheBreakpoints - existing) payg))"

definition planCacheBreakpoints :: "bytes \<Rightarrow> bool \<Rightarrow> bytes option" where
  "planCacheBreakpoints data payg =
     (case planned data payg of
        None \<Rightarrow> None
      | Some (_, edits) \<Rightarrow>
          if edits = [] then None
          else case applySpliceEdits data edits of
            None \<Rightarrow> None
          | Some out \<Rightarrow> if \<not> json_valid out then None else Some out)"

section \<open>The explicit breakpoint\<close>

definition OptimizerID :: bytes where
  "OptimizerID = ''anthropic-cache-breakpoints''"

definition AutomaticPromptCacheOptimizerID :: bytes where
  "AutomaticPromptCacheOptimizerID = ''anthropic-automatic-prompt-cache''"

definition ephemeral_value :: bytes where
  "ephemeral_value = ''{'' @ quoted ''type'' @ '':'' @ quoted ''ephemeral'' @ ''}''"

definition cache_insertion :: FieldInsertion where
  "cache_insertion = \<lparr>Name = ''cache_control'', Value = ephemeral_value\<rparr>"

definition deferredTool :: "goval \<Rightarrow> bool" where
  "deferredTool v = (case v of GMap m \<Rightarrow> map_of m ''defer_loading'' = Some (GBool True) | _ \<Rightarrow> False)"

definition opens_object :: "bytes \<Rightarrow> Span \<Rightarrow> bool" where
  "opens_object data e \<longleftrightarrow> Start e < End e \<and> data ! nat (Start e) = CHR ''{''"

definition no_error :: "splice_error + bytes \<Rightarrow> bytes option" where
  "no_error r = (case r of Inl _ \<Rightarrow> None | Inr out \<Rightarrow> Some out)"

definition mark_object :: "bytes \<Rightarrow> Span \<Rightarrow> bytes option" where
  "mark_object data e = no_error (AppendObjectFields data e [cache_insertion])"

definition decoded_slice :: "(bytes \<times> goval) list \<Rightarrow> bytes \<Rightarrow> goval list" where
  "decoded_slice m k = (case map_of m k of Some (GSlice xs) \<Rightarrow> xs | _ \<Rightarrow> [])"

text \<open>The tools with their decoded values, the last first; a tool with no decoded value is not deferred.\<close>

definition last_tool :: "bytes \<Rightarrow> Span list \<Rightarrow> goval list \<Rightarrow> Span option" where
  "last_tool data elements decodedTools =
     map_option snd (find (\<lambda>(i, e). \<not> (i < length decodedTools \<and> deferredTool (decodedTools ! i)) \<and> opens_object data e)
       (rev (enumerate 0 elements)))"

definition inject_system :: "bytes \<Rightarrow> Span \<Rightarrow> bytes option" where
  "inject_system data root =
     (case Field data root ''system'' of
        None \<Rightarrow> None
      | Some system \<Rightarrow>
          if Start system \<ge> End system then None
          else if data ! nat (Start system) = CHR 0x22 then
            no_error (ReplaceRaw data system (text_block (slice data (nat (Start system)) (nat (End system)))))
          else if data ! nat (Start system) = CHR ''['' then
            (case Elements data system of
               None \<Rightarrow> None
             | Some elements \<Rightarrow>
                 (case find (opens_object data) (rev elements) of None \<Rightarrow> None | Some e \<Rightarrow> mark_object data e))
          else None)"

definition injectBreakpointRaw :: "bytes \<Rightarrow> (bytes \<times> goval) list \<Rightarrow> bytes option" where
  "injectBreakpointRaw data decoded =
     (case Root data of
        None \<Rightarrow> None
      | Some root \<Rightarrow>
          let tool =
            (case Field data root ''tools'' of
               None \<Rightarrow> None
             | Some tools \<Rightarrow>
                 (case Elements data tools of
                    None \<Rightarrow> None
                  | Some elements \<Rightarrow> last_tool data elements (decoded_slice decoded ''tools'')))
          in case tool of Some e \<Rightarrow> mark_object data e | None \<Rightarrow> inject_system data root)"

section \<open>The automatic marker and the transform\<close>

record RequestMetadata =
  Provider :: bytes
  Endpoint :: bytes

record TransformPolicy =
  RuntimeMode :: bytes
  AuthMode :: bytes
  Optimizers :: "bytes \<Rightarrow> bool"

record TransformResult =
  Body :: bytes
  OptimizerIDs :: "bytes list"

definition automaticPromptCacheMessagesEndpoint :: "RequestMetadata \<Rightarrow> bool" where
  "automaticPromptCacheMessagesEndpoint meta \<longleftrightarrow>
     Provider meta = ''anthropic'' \<and> (Endpoint meta = ''/v1/messages'' \<or> Endpoint meta = ''/anthropic/v1/messages'')"

definition injectAutomaticPromptCacheRaw :: "bytes \<Rightarrow> bytes option" where
  "injectAutomaticPromptCacheRaw data =
     (case Root data of None \<Rightarrow> None | Some root \<Rightarrow> mark_object data root)"

text \<open>\<open>read_error\<close>: reading the body failed after \<open>data\<close>.\<close>

definition ApplyProviderNativeTransforms ::
    "bytes \<Rightarrow> bool \<Rightarrow> RequestMetadata \<Rightarrow> TransformPolicy \<Rightarrow> TransformResult" where
  "ApplyProviderNativeTransforms data read_error meta policy =
     (let passthrough = \<lparr>Body = data, OptimizerIDs = []\<rparr>;
          explicitEnabled = Optimizers policy OptimizerID;
          automaticEnabled = Optimizers policy AutomaticPromptCacheOptimizerID
      in if read_error \<or> RuntimeMode policy = ''record'' \<or> (\<not> explicitEnabled \<and> \<not> automaticEnabled)
            \<or> (explicitEnabled \<and> automaticEnabled) \<or> (AuthMode policy \<noteq> [] \<and> AuthMode policy \<noteq> ''payg'')
            \<or> (automaticEnabled \<and> \<not> automaticPromptCacheMessagesEndpoint meta) then passthrough
         else case unmarshal_map data of
           None \<Rightarrow> passthrough
         | Some root \<Rightarrow>
             if containsJSONKey (GMap root) ''cache_control'' then passthrough
             else
               (case (if automaticEnabled then injectAutomaticPromptCacheRaw data else injectBreakpointRaw data root) of
                  None \<Rightarrow> passthrough
                | Some out \<Rightarrow>
                    if \<not> json_valid out then passthrough
                    else \<lparr>Body = out,
                      OptimizerIDs = [if automaticEnabled then AutomaticPromptCacheOptimizerID else OptimizerID]\<rparr>))"

end
