(* ===== verification/Json_Walk.thy ===== *)
theory Json_Walk
  imports Anthropic_Strip_Facts Anthropic_Plan
begin

text \<open>
  Walking a valid body from a value to its fields and elements. Both splicers find spans that are
  values of the body, inside the span they came from and apart from each other; the locale
  \<open>json_walk\<close> is that contract, and each splicer is an interpretation of it.
\<close>

section \<open>Elements of an array\<close>

abbreviation in_array :: "jparse list \<Rightarrow> jparse list" where
  "in_array st \<equiv> ArrayValue # st"

lemma element_then:
  assumes "accepts (scan (BeginValue, in_array st) (drop i b))" and "i < length b" and "\<not> isSpace (b ! i)"
  obtains e where "scanJSONValue b i = Some e" "i < e" "e \<le> skipSpace b e" "skipSpace b e < length b" "passes b i (skipSpace b e)"
      "b ! skipSpace b e = CHR '']'' \<or>
        (let n = skipSpace b (Suc (skipSpace b e)) in
         b ! skipSpace b e = CHR '','' \<and> skipSpace b e < n \<and> n < length b \<and> \<not> isSpace (b ! n) \<and> b ! n \<noteq> CHR '']''
         \<and> passes b i n \<and> steps b (BeginValue, in_array st) i n = (BeginValue, in_array st)
         \<and> accepts (scan (BeginValue, in_array st) (drop n b)))"
proof -
  let ?B = "(BeginValue, in_array st)"
  have nk: "no_key (in_array st)" by (simp add: no_key_def)
  have si: "skipSpace b i = i" using skipSpace_id [OF assms(2,3)] .
  have il: "i \<le> length b" using assms(2) by simp
  obtain e where e: "scanJSONValue b i = Some e" "valueEnd b i = Some e" "i < e" "e \<le> length b"
    "accepts (scan (EndValue, in_array st) (drop e b))" "ended (in_array st) (steps b ?B i e)"
    by (rule value_at [OF assms(1) il nk]) (use si in auto)
  let ?s = "skipSpace b e"
  let ?n = "skipSpace b (Suc ?s)"
  have es: "e \<le> ?s" and sn: "Suc ?s \<le> ?n" by (rule skipSpace_ge)+
  have p: "passes b i ?s"
    using passes_trans [OF _ passes_skip [OF e(4)]] passes_value [OF assms(1) il] e(2) si by metis
  from after_item [OF e(5,4)] have sl: "?s < length b" and sep: "b ! ?s = CHR '']'' \<or>
      b ! ?s = CHR '','' \<and> accepts (scan ?B (drop (Suc ?s) b))" by auto
  show ?thesis
  proof (cases "b ! ?s = CHR '']''")
    case True
    with e es sl p show ?thesis by (intro that) auto
  next
    case False
    then have c: "b ! ?s = CHR '',''" "accepts (scan ?B (drop (Suc ?s) b))" using sep by auto
    have a: "accepts (scan ?B (drop ?n b))" using c(2) sl by (simp add: scan_skip_simps)
    have nl: "?n < length b" using a by (rule_tac ccontr) simp
    have "steps b ?B i (Suc ?s) = end_value (in_array st) (CHR '','')"
    proof -
      have "ended (in_array st) (steps b ?B i ?s)" by (rule ended_space [OF e(6)]) (use e(3) in simp)
      then show ?thesis using steps_append [of i ?s "Suc ?s" b ?B] e(3) es sl c(1)
        by (simp add: steps_Suc ended_def atom_stop_def)
    qed
    then have "steps b ?B i (Suc ?s) = ?B" by (simp add: end_value_def is_json_space_def)
    then have "steps b ?B i ?n = ?B" using steps_append [of i "Suc ?s" ?n b ?B] e(3) es sn by simp
    moreover have "passes b ?s (Suc ?s)" using sl c(1) by (intro passes_byte) simp_all
    then have "passes b i ?n" using passes_trans [OF passes_trans [OF p]] passes_skip [of "Suc ?s" b] sl by simp
    ultimately show ?thesis using e es sl p c(1) a nl sn skipSpace_stop [of b "Suc ?s"] value_not_close [OF a nl]
      by (intro that [of e]) (auto simp: Let_def)
  qed
qed

definition walked :: "bytes \<Rightarrow> jparse list \<Rightarrow> nat \<Rightarrow> nat \<Rightarrow> jsonSpan \<Rightarrow> bool" where
  "walked b st i e x \<longleftrightarrow>
     i \<le> span_start x \<and> span_end x < e \<and> scanJSONValue b (span_start x) = Some (span_end x) \<and> \<not> isSpace (b ! span_start x)
     \<and> span_start x < length b \<and> steps b (BeginValue, in_array st) i (span_start x) = (BeginValue, in_array st)
     \<and> accepts (scan (BeginValue, in_array st) (drop (span_start x) b))"

abbreviation apart :: "jsonSpan list \<Rightarrow> bool" where
  "apart \<equiv> sorted_wrt (\<lambda>x y. span_end x < span_start y)"

lemma walked_later:
  "walked b st j e x \<Longrightarrow> i \<le> j \<Longrightarrow> steps b (BeginValue, in_array st) i j = (BeginValue, in_array st) \<Longrightarrow> walked b st i e x"
  using steps_append [of i j "span_start x" b "(BeginValue, in_array st)"] by (simp add: walked_def)

lemma elements_walk:
  "i < length b \<Longrightarrow> cont_scan 1 (drop i b) = Some (e - i) \<Longrightarrow> i < e \<Longrightarrow>
   b ! i = CHR '']'' \<or> accepts (scan (BeginValue, in_array st) (drop i b)) \<and> \<not> isSpace (b ! i) \<Longrightarrow>
     \<exists>bs. array_elements_loop b e i out = Some (out @ bs) \<and> (\<forall>x \<in> set bs. walked b st i e x) \<and> apart bs"
proof (induction b e i out rule: array_elements_loop.induct)
  case (1 b e i out)
  note prem = "1.prems"
  show ?case
  proof (cases "b ! i = CHR '']''")
    case True
    then have "array_elements_loop b e i out = Some out" using prem(3) by (subst array_elements_loop.simps) simp
    then show ?thesis by (intro exI [of _ "[]"]) simp
  next
    case False
    then have acc: "accepts (scan (BeginValue, in_array st) (drop i b))" and ns: "\<not> isSpace (b ! i)" using prem(4) by auto
    from element_then [OF acc prem(1) ns] obtain v where v: "scanJSONValue b i = Some v" "i < v" "v \<le> skipSpace b v"
        "skipSpace b v < length b" "passes b i (skipSpace b v)"
      and sep: "b ! skipSpace b v = CHR '']'' \<or>
        (let n = skipSpace b (Suc (skipSpace b v)) in
         b ! skipSpace b v = CHR '','' \<and> skipSpace b v < n \<and> n < length b \<and> \<not> isSpace (b ! n) \<and> b ! n \<noteq> CHR '']''
         \<and> passes b i n \<and> steps b (BeginValue, in_array st) i n = (BeginValue, in_array st)
         \<and> accepts (scan (BeginValue, in_array st) (drop n b)))" by blast
    let ?s = "skipSpace b v" and ?x = "\<lparr>span_start = i, span_end = v\<rparr>"
    let ?n = "if ?s < e \<and> b ! ?s = CHR '','' then skipSpace b (?s + 1) else ?s"
    have se: "?s < e" "cont_scan 1 (drop ?s b) = Some (e - ?s)" using passes_end [OF v(5) prem(2,3)] by simp_all
    have step: "array_elements_loop b e i out = array_elements_loop b e ?n (out @ [?x])"
      using prem(3) False v(1) by (subst array_elements_loop.simps) (simp add: skip_eq Let_def)
    have x: "walked b st i e ?x" using v se prem(1) ns acc by (simp add: walked_def steps_def)
    show ?thesis
    proof (cases "b ! ?s = CHR '']''")
      case True
      then have "array_elements_loop b e ?s (out @ [?x]) = Some (out @ [?x])" using se by (subst array_elements_loop.simps) simp
      then show ?thesis using step True x by (intro exI [of _ "[?x]"]) simp
    next
      case nb: False
      then have n: "b ! ?s = CHR '',''" "?s < ?n" "?n < length b" "\<not> isSpace (b ! ?n)" "passes b i ?n"
          "steps b (BeginValue, in_array st) i ?n = (BeginValue, in_array st)" "accepts (scan (BeginValue, in_array st) (drop ?n b))"
        using sep se by (simp_all add: Let_def)
      have ne: "?n < e" "cont_scan 1 (drop ?n b) = Some (e - ?n)" using passes_end [OF n(5) prem(2,3)] by simp_all
      have "\<exists>bs. array_elements_loop b e ?n (out @ [?x]) = Some ((out @ [?x]) @ bs)
          \<and> (\<forall>x \<in> set bs. walked b st ?n e x) \<and> apart bs"
        by (rule "1.IH" [unfolded skip_eq, OF prem(3) False v(1) refl n(3) ne(2,1)]) (use n in blast)
      then obtain bs where bs: "array_elements_loop b e ?n (out @ [?x]) = Some ((out @ [?x]) @ bs)"
        "\<forall>x \<in> set bs. walked b st ?n e x" "apart bs" by blast
      have "i \<le> ?n" using v n(2) by simp
      then have "\<forall>x \<in> set bs. walked b st i e x" using bs(2) n(6) walked_later by blast
      moreover have "\<forall>x \<in> set bs. v < span_start x" using bs(2) n(2) v(3) by (auto simp: walked_def)
      ultimately show ?thesis using step bs x by (intro exI [of _ "?x # bs"]) simp
    qed
  qed
qed

section \<open>The values of a body\<close>

text \<open>
  A span that holds a value, with the scanner's stack in front of it. In front of the first element
  of an array the scanner also takes the closing bracket.
\<close>

definition before_value :: "jparse list \<Rightarrow> jscanner \<Rightarrow> bool" where
  "before_value st q \<longleftrightarrow> q = (BeginValue, st) \<or> q = (BeginValueOrEmpty, st)"

lemma before_value_step:
  "before_value st q \<Longrightarrow> c \<noteq> CHR '']'' \<Longrightarrow> \<not> is_json_space c \<Longrightarrow> scan_step q c = begin_value st c"
  by (auto simp: before_value_def)

definition value_span :: "bytes \<Rightarrow> jparse list \<Rightarrow> nat \<Rightarrow> nat \<Rightarrow> bool" where
  "value_span b st p e \<longleftrightarrow>
     json_valid b \<and> no_key st \<and> p < length b \<and> \<not> isSpace (b ! p) \<and> b ! p \<noteq> CHR '']''
     \<and> before_value st (steps b (BeginValue, []) 0 p) \<and> scanJSONValue b p = Some e"

lemma value_span_first:
  "value_span b st p e \<Longrightarrow> scan_step (steps b (BeginValue, []) 0 p) (b ! p) = begin_value st (b ! p)"
  by (rule before_value_step) (auto simp: value_span_def isSpace_json)

lemma value_span_state:
  assumes "value_span b st p e" and "p < x"
  shows "steps b (BeginValue, []) 0 x = steps b (BeginValue, st) p x"
proof -
  have "p < length b" using assms(1) by (simp add: value_span_def)
  then show ?thesis using steps_append [of 0 p x b "(BeginValue, [])"] assms(2) value_span_first [OF assms(1)]
    by (simp add: steps_def slice_Cons_step)
qed

lemma value_span_accepts: "value_span b st p e \<Longrightarrow> accepts (scan (BeginValue, st) (drop p b))"
proof -
  assume v: "value_span b st p e"
  then have "p < length b" "accepts (scan (BeginValue, []) b)" by (simp_all add: value_span_def json_valid_accepts)
  then show ?thesis using steps_drop [of 0 p "(BeginValue, [])" b] value_span_first [OF v]
    by (simp add: Cons_nth_drop_Suc [symmetric])
qed

lemma value_span_end:
  assumes "value_span b st p e"
  shows "valueEnd b p = Some e" "p < e" "e \<le> length b" "accepts (scan (EndValue, st) (drop e b))"
    "ended st (steps b (BeginValue, st) p e)"
proof -
  note v = assms [unfolded value_span_def]
  have "skipSpace b p = p" using v by (intro skipSpace_id) simp_all
  then obtain e' where "scanJSONValue b p = Some e'" "valueEnd b p = Some e'" "p < e'" "e' \<le> length b"
      "accepts (scan (EndValue, st) (drop e' b))" "ended st (steps b (BeginValue, st) p e')"
    using value_at [OF value_span_accepts [OF assms], of thesis] v by force
  then show "valueEnd b p = Some e" "p < e" "e \<le> length b" "accepts (scan (EndValue, st) (drop e b))"
      "ended st (steps b (BeginValue, st) p e)" using v by auto
qed

lemma value_span_container:
  assumes "value_span b st p e" and "open_byte (b ! p)"
  shows "cont_scan 1 (drop (Suc p) b) = Some (e - Suc p)"
proof -
  have p: "p < length b" using assms(1) by (simp add: value_span_def)
  then have "drop p b = b ! p # drop (Suc p) b" by (simp add: Cons_nth_drop_Suc)
  moreover have "valueEnd b p = map_option ((+) p) (value_len (drop p b))" using p by (intro valueEnd_scan) simp
  ultimately obtain k where "cont_scan 1 (drop (Suc p) b) = Some k" "e = p + Suc k"
    using value_span_end(1) [OF assms(1)] assms(2) by (cases "cont_scan 1 (drop (Suc p) b)") (simp_all add: value_len_container)
  then show ?thesis by simp
qed

lemma value_span_inside:
  assumes "value_span b st p e" and "open_byte (b ! p)"
  shows "skipSpace b (Suc p) < e" "cont_scan 1 (drop (skipSpace b (Suc p)) b) = Some (e - skipSpace b (Suc p))"
proof -
  have c: "cont_scan 1 (drop (Suc p) b) = Some (e - Suc p)" by (rule value_span_container [OF assms])
  have "Suc p < e" using cont_scan_pos [OF c] by simp
  then show "skipSpace b (Suc p) < e" "cont_scan 1 (drop (skipSpace b (Suc p)) b) = Some (e - skipSpace b (Suc p))"
    using passes_end [OF passes_skip c] value_span_end(2,3) [OF assms(1)] by simp_all
qed

lemma value_span_root: "json_valid b \<Longrightarrow> \<exists>e. value_span b [] (skipSpace b 0) e"
proof -
  assume v: "json_valid b"
  then have a: "accepts (scan (BeginValue, []) (drop 0 b))" by (simp add: json_valid_accepts)
  obtain e where e: "scanJSONValue b (skipSpace b 0) = Some e" "skipSpace b 0 < e" "e \<le> length b"
    by (rule value_at [OF a]) (auto simp: no_key_def)
  moreover have "skipSpace b 0 < length b" using e by simp
  moreover have "b ! skipSpace b 0 \<noteq> CHR '']''"
    using value_not_close [of "[]" "skipSpace b 0" b] a e scan_skip_simps(1) [of 0 b "[]"] by simp
  ultimately show ?thesis using v skipSpace_stop [of b 0] by (auto simp: value_span_def no_key_def before_value_def)
qed

lemma value_span_array:
  assumes "value_span b st p e" and "b ! p = CHR ''[''"
  obtains bs where "arrayElements b \<lparr>span_start = p, span_end = e\<rparr> = Some bs" "apart bs"
    "\<forall>x \<in> set bs. value_span b (in_array st) (span_start x) (span_end x) \<and> p < span_start x \<and> span_end x < e"
proof -
  let ?j = "skipSpace b (Suc p)"
  note v = assms(1) [unfolded value_span_def] and a = value_span_accepts [OF assms(1)]
  have pl: "p < length b" using v by simp
  note o = array_opens [OF a pl assms(2)]
  have op: "open_byte (b ! p)" using assms(2) by (simp add: open_byte_def)
  note i = value_span_inside [OF assms(1) op]
  from elements_walk [OF o(2) i(2,1) o(4), of "[]"] obtain bs where
    bs: "array_elements_loop b e ?j [] = Some bs" "\<forall>x \<in> set bs. walked b st ?j e x" "apart bs" by auto
  have "arrayElements b \<lparr>span_start = p, span_end = e\<rparr> = Some bs"
    using bs(1) assms(2) value_span_end(2,3) [OF assms(1)] by (simp add: arrayElements_def opens_with_def skip_eq)
  moreover have "value_span b (in_array st) (span_start x) (span_end x) \<and> p < span_start x \<and> span_end x < e"
    if x: "x \<in> set bs" for x
  proof -
    note x = bs(2) [rule_format, OF x, unfolded walked_def]
    let ?B = "(BeginValue, [])"
    have "before_value (in_array st) (steps b ?B 0 (span_start x))"
    proof (cases "span_start x = ?j")
      case True
      then show ?thesis using value_span_state [OF assms(1)] o(1,3) by (simp add: before_value_def)
    next
      case False
      have ne: "b ! ?j \<noteq> CHR '']''"
      proof
        assume "b ! ?j = CHR '']''"
        then have "array_elements_loop b e ?j [] = Some []" using i(1) by (subst array_elements_loop.simps) simp
        then show False using bs(1) that by simp
      qed
      have "\<not> is_json_space (b ! ?j)" using skipSpace_stop [of b "Suc p"] o(2) by (simp add: isSpace_json)
      then have "steps b (BeginValueOrEmpty, in_array st) ?j (span_start x) = steps b (BeginValue, in_array st) ?j (span_start x)"
        using ne False o(2) x by (simp add: steps_def slice_Cons_step)
      moreover have "steps b ?B 0 (span_start x) = steps b (BeginValueOrEmpty, in_array st) ?j (span_start x)"
        using value_span_state [OF assms(1), of "span_start x"] steps_append [of p ?j "span_start x" b "(BeginValue, st)"] o(1,3) x
        by simp
      ultimately show ?thesis using x by (simp add: before_value_def)
    qed
    then show ?thesis using x v o(1) value_not_close [of "in_array st" "span_start x" b] by (auto simp: value_span_def no_key_def)
  qed
  ultimately show ?thesis using bs(3) by (intro that) blast+
qed

section \<open>Fields of an object\<close>

text \<open>One member as both field walks read it: the key, the value's span, and where the walk goes on.\<close>

definition member_step :: "bytes \<Rightarrow> nat \<Rightarrow> nat \<Rightarrow> (bytes \<times> nat \<times> nat \<times> nat) option" where
  "member_step b e i =
     (if i < e \<and> b ! i = CHR 0x22 then
        Option.bind (scanJSONString b i) (\<lambda>k.
        Option.bind (decodeJSONString (slice b i k)) (\<lambda>key.
          let c = skipSpace b k in
          if e \<le> c \<or> b ! c \<noteq> CHR '':'' then None
          else
            let v = skipSpace b (Suc c) in
            map_option (\<lambda>x. (key, v, x,
              let s = skipSpace b x in if s < e \<and> b ! s = CHR '','' then skipSpace b (Suc s) else s))
              (scanJSONValue b v)))
      else None)"

lemma find_field_loop_step:
  "find_field_loop b e f i =
     (case member_step b e i of
        None \<Rightarrow> None
      | Some (key, v, x, n) \<Rightarrow> if key = f then Some \<lparr>span_start = v, span_end = x\<rparr> else find_field_loop b e f n)"
proof (cases "i < e \<and> b ! i = CHR 0x22")
  case i: True
  show ?thesis
  proof (cases "scanJSONString b i")
    case None
    then show ?thesis using i by (subst find_field_loop.simps) (simp add: member_step_def skip_eq Let_def)
  next
    case k: (Some k)
    show ?thesis
    proof (cases "decodeJSONString (slice b i k)")
      case None
      then show ?thesis using i k by (subst find_field_loop.simps) (simp add: member_step_def skip_eq Let_def)
    next
      case key: (Some key)
      let ?c = "skipSpace b k"
      show ?thesis
      proof (cases "e \<le> ?c \<or> b ! ?c \<noteq> CHR '':''")
        case True
        then show ?thesis using i k key by (subst find_field_loop.simps) (auto simp: member_step_def skip_eq Let_def)
      next
        case c: False
        then show ?thesis using i k key
          by (cases "scanJSONValue b (skipSpace b (Suc ?c))"; subst find_field_loop.simps) (simp_all add: member_step_def skip_eq Let_def)
      qed
    qed
  qed
next
  case False
  then show ?thesis by (subst find_field_loop.simps) (auto simp: member_step_def skip_eq)
qed

lemmas field_walk = js_space_eq Let_def scanJSONString_eq scanJSONValue_eq decodeJSONString_def

lemma Field_loop_step:
  "Field_loop b e f i =
     (case member_step b e i of
        None \<Rightarrow> None
      | Some (key, v, x, n) \<Rightarrow> if key = f then Some (span v x) else Field_loop b e f n)"
proof (cases "i < e \<and> b ! i = CHR 0x22")
  case i: True
  show ?thesis
  proof (cases "scanJSONString b i")
    case None
    then show ?thesis using i by (subst Field_loop.simps) (simp add: member_step_def field_walk)
  next
    case k: (Some k)
    show ?thesis
    proof (cases "decodeJSONString (slice b i k)")
      case None
      then show ?thesis using i k by (subst Field_loop.simps) (simp add: member_step_def field_walk)
    next
      case key: (Some key)
      let ?c = "skipSpace b k"
      show ?thesis
      proof (cases "e \<le> ?c \<or> b ! ?c \<noteq> CHR '':''")
        case True
        then show ?thesis using i k key by (subst Field_loop.simps) (auto simp: member_step_def field_walk)
      next
        case c: False
        then show ?thesis using i k key
          by (cases "scanJSONValue b (skipSpace b (Suc ?c))"; subst Field_loop.simps) (simp_all add: member_step_def field_walk)
      qed
    qed
  qed
next
  case False
  then show ?thesis by (subst Field_loop.simps) (auto simp: member_step_def js_stringEnd_def)
qed

lemma member_step_bounds:
  assumes "member_step b e i = Some (key, v, x, n)"
  shows "i < v" "v < x" "x \<le> n" "x \<le> length b" "\<not> isSpace (b ! v)" "scanJSONValue b v = Some x"
proof -
  from assms obtain k where k: "scanJSONString b i = Some k" "v = skipSpace b (Suc (skipSpace b k))" "scanJSONValue b v = Some x"
    "n = (let s = skipSpace b x in if s < e \<and> b ! s = CHR '','' then skipSpace b (Suc s) else s)"
    by (auto simp: member_step_def Let_def split: if_splits Option.bind_splits)
  have v: "v < x" "x \<le> length b" using scanJSONValue_bounds [OF k(3)] by simp_all
  show "scanJSONValue b v = Some x" "v < x" "x \<le> length b" using k(3) v by simp_all
  show "i < v"
    using scanJSONString_bounds [OF k(1)] skipSpace_ge [of k b] skipSpace_ge [of "Suc (skipSpace b k)" b] k(2) by simp
  have "x \<le> skipSpace b x" "skipSpace b x \<le> skipSpace b (Suc (skipSpace b x))"
    using skipSpace_ge [of x b] skipSpace_ge [of "Suc (skipSpace b x)" b] by simp_all
  then show "x \<le> n" using k(4) by (simp add: Let_def)
  show "\<not> isSpace (b ! v)" using skipSpace_stop [of b "Suc (skipSpace b k)"] k(2) v by simp
qed

lemma find_field_loop_bounds:
  "find_field_loop b e f i = Some w \<Longrightarrow>
     i < span_start w \<and> span_start w < span_end w \<and> span_end w \<le> length b \<and> \<not> isSpace (b ! span_start w)
     \<and> scanJSONValue b (span_start w) = Some (span_end w)"
proof (induction "length b - i" arbitrary: i rule: less_induct)
  case less
  obtain key v x n where m: "member_step b e i = Some (key, v, x, n)"
    using less.prems by (subst (asm) find_field_loop_step) (auto split: option.splits)
  note mb = member_step_bounds [OF m]
  show ?case
  proof (cases "key = f")
    case True
    then have "w = \<lparr>span_start = v, span_end = x\<rparr>" using less.prems m by (subst (asm) find_field_loop_step) simp
    then show ?thesis using mb by simp
  next
    case False
    then have "find_field_loop b e f n = Some w" using less.prems m by (subst (asm) find_field_loop_step) simp
    moreover have "length b - n < length b - i" using mb by linarith
    ultimately show ?thesis using less.hyps mb by fastforce
  qed
qed

lemma fields_disjoint:
  "find_field_loop b e f i = Some w \<Longrightarrow> find_field_loop b e g i = Some u \<Longrightarrow> f \<noteq> g \<Longrightarrow>
     span_end w < span_start u \<or> span_end u < span_start w"
proof (induction "length b - i" arbitrary: i rule: less_induct)
  case less
  obtain key v x n where m: "member_step b e i = Some (key, v, x, n)"
    using less.prems(1) by (subst (asm) find_field_loop_step) (auto split: option.splits)
  note mb = member_step_bounds [OF m]
  have step: "find_field_loop b e h i = (if key = h then Some \<lparr>span_start = v, span_end = x\<rparr> else find_field_loop b e h n)" for h
    by (subst find_field_loop_step) (simp add: m)
  have later: "n < span_start y" if "find_field_loop b e h n = Some y" for h y
    using find_field_loop_bounds [OF that] by simp
  consider "key = f" | "key = g" | "key \<noteq> f" "key \<noteq> g" by blast
  then show ?case
  proof cases
    case 3
    moreover have "length b - n < length b - i" using mb by linarith
    ultimately show ?thesis using less.hyps [of n] less.prems step by simp
  next
    case 1
    then show ?thesis using less.prems step later [of g u] mb(3) by fastforce
  next
    case 2
    then show ?thesis using less.prems step later [of f w] mb(3) by fastforce
  qed
qed

lemma value_span_object:
  assumes "value_span b st p e" and "findObjectField b \<lparr>span_start = p, span_end = e\<rparr> f = Some v"
  shows "value_span b (in_member st) (span_start v) (span_end v) \<and> p < span_start v \<and> span_end v < e"
proof -
  let ?j = "skipSpace b (Suc p)"
  note v = assms(1) [unfolded value_span_def] and a = value_span_accepts [OF assms(1)]
  have pl: "p < length b" using v by simp
  have loop: "find_field_loop b e f ?j = Some v" and br: "b ! p = CHR ''{''"
    using assms(2) by (auto simp: findObjectField_def opens_with_def skip_eq split: if_splits)
  note o = object_opens [OF a pl br]
  have "b ! ?j \<noteq> CHR ''}''" using loop by (subst (asm) find_field_loop.simps) (auto split: if_splits)
  then have k: "accepts (scan (in_key st) (drop ?j b))" "\<not> isSpace (b ! ?j)"
    "\<forall>x > ?j. steps b (BeginValue, st) p x = steps b (in_key st) ?j x" using o(3) by blast+
  have jl: "?j \<le> length b" using o(2) by simp
  note w = field_loop_at [OF loop k(1) jl k(2)]
  have "steps b (BeginValue, []) 0 (span_start v) = (BeginValue, in_member st)"
    using value_span_state [OF assms(1), of "span_start v"] k(3) w o(1) by simp
  moreover have "b ! span_start v \<noteq> CHR '']''"
    using w find_field_loop_bounds [OF loop] by (intro value_not_close [of "in_member st"]) simp_all
  moreover have "span_end v < e"
  proof -
    have op: "open_byte (b ! p)" using br by (simp add: open_byte_def)
    show ?thesis using passes_end [OF _ value_span_inside(2,1) [OF assms(1) op]] w by blast
  qed
  ultimately show ?thesis using v w o(1) find_field_loop_bounds [OF loop]
    by (auto simp: value_span_def no_key_def before_value_def)
qed

section \<open>The contract of a splicer\<close>

text \<open>
  \<open>lo\<close> and \<open>hi\<close> read a span; \<open>field_of\<close> finds the value of a member and \<open>elements_of\<close> the
  elements of an array. What a splicer promises holds from a span that is a value of a valid body.
\<close>

locale json_walk =
  fixes lo hi :: "'s \<Rightarrow> nat" and field_of :: "bytes \<Rightarrow> 's \<Rightarrow> bytes \<Rightarrow> 's option"
    and elements_of :: "bytes \<Rightarrow> 's \<Rightarrow> 's list option"
  assumes field_span: "value_span b st (lo s) (hi s) \<Longrightarrow> field_of b s f = Some v \<Longrightarrow>
      b ! lo s = CHR ''{'' \<and> value_span b (in_member st) (lo v) (hi v) \<and> lo s < lo v \<and> hi v < hi s"
    and fields_apart: "field_of b s f = Some v \<Longrightarrow> field_of b s g = Some w \<Longrightarrow> f \<noteq> g \<Longrightarrow> hi v < lo w \<or> hi w < lo v"
    and elements_span: "value_span b st (lo s) (hi s) \<Longrightarrow> elements_of b s = Some xs \<Longrightarrow> x \<in> set xs \<Longrightarrow>
      b ! lo s = CHR ''['' \<and> value_span b (in_array st) (lo x) (hi x) \<and> lo s < lo x \<and> hi x < hi s"
    and elements_apart: "value_span b st (lo s) (hi s) \<Longrightarrow> elements_of b s = Some xs \<Longrightarrow>
      sorted_wrt (\<lambda>x y. hi x < lo y) xs"
begin

definition val :: "bytes \<Rightarrow> jparse list \<Rightarrow> 's \<Rightarrow> bool" where
  "val b st s \<longleftrightarrow> value_span b st (lo s) (hi s)"

definition within :: "'s \<Rightarrow> 's \<Rightarrow> bool" where
  "within v s \<longleftrightarrow> lo s < lo v \<and> hi v < hi s"

lemma val_field: "val b st s \<Longrightarrow> field_of b s f = Some v \<Longrightarrow> val b (in_member st) v \<and> within v s"
  using field_span [of b st s f v] by (simp add: val_def within_def)

lemma val_element: "val b st s \<Longrightarrow> elements_of b s = Some xs \<Longrightarrow> x \<in> set xs \<Longrightarrow> val b (in_array st) x \<and> within x s"
  using elements_span [of b st s xs x] by (simp add: val_def within_def)

lemma within_trans: "within u v \<Longrightarrow> within v s \<Longrightarrow> within u s"
  by (simp add: within_def)

lemma within_bounds: "within v s \<Longrightarrow> lo s < lo v" "within v s \<Longrightarrow> hi v < hi s"
  by (simp_all add: within_def)

lemma val_bounds: "val b st s \<Longrightarrow> lo s < hi s \<and> hi s \<le> length b"
  using value_span_end(2,3) [of b st "lo s" "hi s"] by (simp add: val_def)

text \<open>What lies within two spans that are apart is apart.\<close>

lemma apart_within:
  "within v s \<Longrightarrow> within w u \<Longrightarrow> hi s < lo u \<or> hi u < lo s \<Longrightarrow> hi v < lo w \<or> hi w < lo v"
  by (auto simp: within_def)

end

definition to_Span :: "jsonSpan \<Rightarrow> Span" where
  "to_Span s = span (span_start s) (span_end s)"

lemma to_Span_make [simp]: "to_Span \<lparr>span_start = i, span_end = e\<rparr> = span i e"
  by (simp add: to_Span_def)

interpretation adapter_walk: json_walk span_start span_end findObjectField arrayElements
proof unfold_locales
  fix b st s f v
  assume a: "value_span b st (span_start s) (span_end s)" "findObjectField b s f = Some v"
  then have "b ! span_start s = CHR ''{''" by (auto simp: findObjectField_def opens_with_def split: if_splits)
  then show "b ! span_start s = CHR ''{'' \<and> value_span b (in_member st) (span_start v) (span_end v)
      \<and> span_start s < span_start v \<and> span_end v < span_end s"
    using value_span_object [OF a(1), of f v] a(2) by (cases s) simp
next
  fix b s f v g w
  assume "findObjectField b s f = Some v" "findObjectField b s g = Some w" "f \<noteq> g"
  then show "span_end v < span_start w \<or> span_end w < span_start v"
    by (auto simp: findObjectField_def split: if_splits dest: fields_disjoint)
next
  fix b st s xs x
  assume a: "value_span b st (span_start s) (span_end s)" "arrayElements b s = Some xs" "x \<in> set xs"
  then have br: "b ! span_start s = CHR ''[''" by (auto simp: arrayElements_def opens_with_def split: if_splits)
  have "\<lparr>span_start = span_start s, span_end = span_end s\<rparr> = s" by simp
  with value_span_array [OF a(1) br] a(2,3)
  show "b ! span_start s = CHR ''['' \<and> value_span b (in_array st) (span_start x) (span_end x)
      \<and> span_start s < span_start x \<and> span_end x < span_end s" using br by auto
next
  fix b st s xs
  assume a: "value_span b st (span_start s) (span_end s)" "arrayElements b s = Some xs"
  then have br: "b ! span_start s = CHR ''[''" by (auto simp: arrayElements_def opens_with_def split: if_splits)
  have "\<lparr>span_start = span_start s, span_end = span_end s\<rparr> = s" by simp
  with value_span_array [OF a(1) br] a(2) show "apart xs" by (metis option.inject)
qed

section \<open>The two splicers agree\<close>

lemma Field_loop_eq: "Field_loop b e f i = map_option to_Span (find_field_loop b e f i)"
proof (induction "length b - i" arbitrary: i rule: less_induct)
  case less
  show ?case
  proof (cases "member_step b e i")
    case None
    then show ?thesis by (subst Field_loop_step, subst find_field_loop_step) simp
  next
    case (Some m)
    obtain key v x n where m: "m = (key, v, x, n)" by (cases m)
    then have "length b - n < length b - i" using member_step_bounds [of b e i key v x n] Some by force
    then show ?thesis using less Some m
      by (subst Field_loop_step, subst find_field_loop_step) (simp add: to_Span_def)
  qed
qed

lemma Field_eq:
  assumes "Field b s f = Some v"
  obtains w where "findObjectField b \<lparr>span_start = nat (Start s), span_end = nat (End s)\<rparr> f = Some w" "v = to_Span w"
    "0 \<le> Start s" "Start s < End s" "End s \<le> int (length b)" "b ! nat (Start s) = CHR ''{''" "b ! nat (End s - 1) = CHR ''}''"
proof -
  have e: "ends b s (CHR ''{'') (CHR ''}'')" using assms by (simp add: Field_def split: if_splits)
  then have g: "0 \<le> Start s" "Start s < End s" "End s \<le> int (length b)" "b ! nat (Start s) = CHR ''{''" "b ! nat (End s - 1) = CHR ''}''"
    by (auto simp: ends_def)
  have "nat (Start s + 1) = Suc (nat (Start s))" using g(1) by simp
  then obtain w where "find_field_loop b (nat (End s)) f (skipSpace b (Suc (nat (Start s)))) = Some w" "v = to_Span w"
    using assms e by (auto simp: Field_def Field_loop_eq js_space_eq)
  moreover from this(1) have "findObjectField b \<lparr>span_start = nat (Start s), span_end = nat (End s)\<rparr> f = Some w"
    using g by (auto simp: findObjectField_def opens_with_def skip_eq)
  ultimately show ?thesis using g by (intro that)
qed

lemma Elements_loop_eq:
  "array_elements_loop b e i out = Some xs \<Longrightarrow> Elements_loop b e i (map to_Span out) = Some (map to_Span xs)"
proof (induction b e i out rule: array_elements_loop.induct)
  case (1 b e i out)
  show ?case
  proof (cases "i < e \<and> b ! i \<noteq> CHR '']''")
    case False
    then have "xs = out" using "1.prems" by (subst (asm) array_elements_loop.simps) (auto split: if_splits)
    then show ?thesis using False by (subst Elements_loop.simps) auto
  next
    case i: True
    then obtain v where v: "scanJSONValue b i = Some v"
      using "1.prems" by (subst (asm) array_elements_loop.simps) (auto split: option.splits)
    let ?n = "let s = skipSpace b v in if s < e \<and> b ! s = CHR '','' then skipSpace b (s + 1) else s"
    have "array_elements_loop b e ?n (out @ [\<lparr>span_start = i, span_end = v\<rparr>]) = Some xs"
      using "1.prems" i v by (subst (asm) array_elements_loop.simps) (simp add: skip_eq Let_def cong: if_cong)
    with "1.IH" [of v "skipSpace b v"] i v
    have "Elements_loop b e ?n (map to_Span out @ [span i v]) = Some (map to_Span xs)" by (simp add: skip_eq Let_def cong: if_cong)
    then show ?thesis using i v
      by (subst Elements_loop.simps) (simp add: js_space_eq scanJSONValue_eq [symmetric] Let_def cong: if_cong)
  qed
qed

lemma Elements_eq:
  assumes "value_span b st (nat (Start s)) (nat (End s))" and "Elements b s = Some xs"
  obtains ys where "arrayElements b \<lparr>span_start = nat (Start s), span_end = nat (End s)\<rparr> = Some ys" "xs = map to_Span ys"
    "b ! nat (Start s) = CHR ''[''" "0 \<le> Start s" "Start s < End s"
proof -
  have e: "b ! nat (Start s) = CHR ''[''" "0 \<le> Start s" "Start s < End s" "End s \<le> int (length b)"
    "Elements_loop b (nat (End s)) (skipSpace b (Suc (nat (Start s)))) [] = Some xs"
    using assms(2) by (auto simp: Elements_def ends_def js_space_eq nat_add_distrib split: if_splits)
  from value_span_array [OF assms(1) e(1)] obtain ys where
    ys: "arrayElements b \<lparr>span_start = nat (Start s), span_end = nat (End s)\<rparr> = Some ys" by blast
  then have "array_elements_loop b (nat (End s)) (skipSpace b (Suc (nat (Start s)))) [] = Some ys"
    by (auto simp: arrayElements_def skip_eq split: if_splits)
  from Elements_loop_eq [OF this] e(5) have "xs = map to_Span ys" by simp
  with ys e show ?thesis by (intro that)
qed

lemma to_Span_sel [simp]: "nat (Start (to_Span s)) = span_start s" "nat (End (to_Span s)) = span_end s"
  by (simp_all add: to_Span_def span_def)

interpretation splice_walk: json_walk "\<lambda>s. nat (Start s)" "\<lambda>s. nat (End s)" Field Elements
proof unfold_locales
  fix b st s f v
  assume a: "value_span b st (nat (Start s)) (nat (End s))" "Field b s f = Some v"
  from Field_eq [OF a(2)] obtain w where
    w: "findObjectField b \<lparr>span_start = nat (Start s), span_end = nat (End s)\<rparr> f = Some w" "v = to_Span w" by metis
  from adapter_walk.field_span [OF _ w(1)] a(1) w(2)
  show "b ! nat (Start s) = CHR ''{'' \<and> value_span b (in_member st) (nat (Start v)) (nat (End v))
      \<and> nat (Start s) < nat (Start v) \<and> nat (End v) < nat (End s)" by simp
next
  fix b s f v g w
  assume a: "Field b s f = Some v" "Field b s g = Some w" "f \<noteq> g"
  from Field_eq [OF a(1)] obtain v' where
    v: "findObjectField b \<lparr>span_start = nat (Start s), span_end = nat (End s)\<rparr> f = Some v'" "v = to_Span v'" by metis
  from Field_eq [OF a(2)] obtain w' where
    w: "findObjectField b \<lparr>span_start = nat (Start s), span_end = nat (End s)\<rparr> g = Some w'" "w = to_Span w'" by metis
  from adapter_walk.fields_apart [OF v(1) w(1) a(3)] v(2) w(2)
  show "nat (End v) < nat (Start w) \<or> nat (End w) < nat (Start v)" by simp
next
  fix b st s xs x
  assume a: "value_span b st (nat (Start s)) (nat (End s))" "Elements b s = Some xs" "x \<in> set xs"
  from Elements_eq [OF a(1,2)] obtain ys where
    ys: "arrayElements b \<lparr>span_start = nat (Start s), span_end = nat (End s)\<rparr> = Some ys" "xs = map to_Span ys" by metis
  then obtain y where y: "y \<in> set ys" "x = to_Span y" using a(3) by auto
  from adapter_walk.elements_span [OF _ ys(1) y(1)] a(1) y(2)
  show "b ! nat (Start s) = CHR ''['' \<and> value_span b (in_array st) (nat (Start x)) (nat (End x))
      \<and> nat (Start s) < nat (Start x) \<and> nat (End x) < nat (End s)" by simp
next
  fix b st s xs
  assume a: "value_span b st (nat (Start s)) (nat (End s))" "Elements b s = Some xs"
  from Elements_eq [OF a] obtain ys where
    ys: "arrayElements b \<lparr>span_start = nat (Start s), span_end = nat (End s)\<rparr> = Some ys" "xs = map to_Span ys" by metis
  have "apart ys" using adapter_walk.elements_apart [OF _ ys(1)] a(1) by simp
  then show "sorted_wrt (\<lambda>x y. nat (End x) < nat (Start y)) xs" unfolding ys(2) sorted_wrt_map to_Span_sel .
qed

end
