(* ===== verification/Json_Insert.thy ===== *)
theory Json_Insert
  imports Json_Walk
begin

text \<open>
  Putting a member in front of an object's closing brace, and edits that leave the scanner where it
  was. Edits of apart regions then give a text the scanner ends in the same state on.
\<close>

section \<open>The last byte of a value\<close>

lemma js_string_loop_last: "js_string_loop b i = Some e \<Longrightarrow> b ! (e - 1) = CHR 0x22"
proof (induction b i rule: js_string_loop.induct)
  case (1 b i)
  then show ?case by (subst (asm) (3) js_string_loop.simps) (auto split: if_splits)
qed

lemma js_container_last: "js_container b j d = Some e \<Longrightarrow> b ! (e - 1) = CHR ''}'' \<or> b ! (e - 1) = CHR '']''"
proof (induction b j d rule: js_container.induct)
  case (1 b j d)
  show ?case using "1.prems"
    by (subst (asm) js_container.simps) (auto split: if_splits option.splits dest: "1.IH")
qed

lemma js_atomEnd_last: "i < js_atomEnd b i \<Longrightarrow> \<not> isSpace (b ! (js_atomEnd b i - 1))"
proof (induction b i rule: js_atomEnd.induct)
  case (1 b i)
  let ?stop = "b ! i \<in> set [CHR '','', CHR ''}'', CHR '']'', CHR '' '', CHR 0x0A, CHR 0x0D, CHR 0x09]"
  have i: "i < length b \<and> \<not> ?stop" using "1.prems" by (subst (asm) js_atomEnd.simps) (auto split: if_splits)
  then have step: "js_atomEnd b i = js_atomEnd b (Suc i)" by (subst js_atomEnd.simps) simp
  show ?case
  proof (cases "Suc i < js_atomEnd b (Suc i)")
    case True
    then show ?thesis using "1.IH" i step by simp
  next
    case False
    then have "js_atomEnd b i = Suc i" using "1.prems" step by simp
    then show ?thesis using i by (auto simp: isSpace_def)
  qed
qed

lemma value_last: "scanJSONValue b p = Some e \<Longrightarrow> \<not> isSpace (b ! (e - 1))"
  using js_atomEnd_last [of "js_space b p" b]
  by (auto simp: scanJSONValue_eq js_value_def js_stringEnd_def Let_def isSpace_def split: if_splits
      dest: js_string_loop_last js_container_last)

section \<open>Where a member goes\<close>

lemma skipSpace_between: "x \<le> y \<Longrightarrow> y < skipSpace b x \<Longrightarrow> isSpace (b ! y)"
proof (induction b x rule: skipSpace.induct)
  case (1 b x)
  have "x < length b \<and> isSpace (b ! x)" using "1.prems" by (subst (asm) skipSpace.simps) (auto split: if_splits)
  moreover from this have "skipSpace b x = skipSpace b (Suc x)" by (subst skipSpace.simps) simp
  ultimately show ?case using 1 by (cases "x = y") auto
qed

lemma space_byte: "isJSONSpaceByte c = isSpace c"
  by (auto simp: isJSONSpaceByte_def isSpace_def)

lemma back_over_space_to:
  "first \<le> x \<Longrightarrow> x \<le> k \<Longrightarrow> (\<And>y. x \<le> y \<Longrightarrow> y < k \<Longrightarrow> isSpace (b ! y)) \<Longrightarrow> x = first \<or> \<not> isSpace (b ! (x - 1)) \<Longrightarrow>
     back_over_space b first k = x"
proof (induction k)
  case (Suc k)
  show ?case
  proof (cases "x = Suc k")
    case True
    then show ?thesis using Suc.prems by (auto simp: space_byte)
  next
    case False
    then have "isSpace (b ! k)" "first < Suc k" using Suc.prems by auto
    then show ?thesis using Suc False by (simp add: space_byte)
  qed
qed simp

text \<open>The last member of an object ends at \<open>x\<close>.\<close>

lemma members_end:
  "accepts (scan (in_key st) (drop i b)) \<Longrightarrow> i \<le> length b \<Longrightarrow> \<not> isSpace (b ! i) \<Longrightarrow>
   cont_scan 1 (drop i b) = Some (e - i) \<Longrightarrow> i < e \<Longrightarrow>
     \<exists>x. i < x \<and> ended (in_member st) (steps b (in_key st) i x) \<and> \<not> isSpace (b ! (x - 1))
       \<and> e = Suc (skipSpace b x) \<and> b ! skipSpace b x = CHR ''}'' \<and> skipSpace b x < length b"
proof (induction "length b - i" arbitrary: i rule: less_induct)
  case less
  obtain k c v where m: "member_at b st i k c v" using member_reads [OF less.prems(1-3)] by blast
  note d = m [unfolded member_at_def]
  have iv: "i < v" using d by simp
  show ?case
  proof (cases rule: member_then [OF m])
    case 1
    have "v \<le> skipSpace b v" by (rule skipSpace_ge)
    then have "e = Suc (skipSpace b v)" using 1(3) less.prems(4,5) iv by simp
    moreover have "\<not> isSpace (b ! (v - 1))" using d value_last [of b "Suc c" v] by blast
    ultimately show ?thesis using 1 d iv by blast
  next
    case 2
    let ?n = "skipSpace b (Suc (skipSpace b v))"
    have n: "i < ?n" using iv skipSpace_ge [of v b] skipSpace_ge [of "Suc (skipSpace b v)" b] by simp
    note p = passes_end [OF 2(6) less.prems(4,5)]
    have nl: "?n < length b" using 2(3) by (rule_tac ccontr) simp
    have "length b - ?n < length b - i" using n nl by simp
    from less.hyps [OF this 2(3)] nl skipSpace_stop [of b "Suc (skipSpace b v)"] p obtain x where
      x: "?n < x" "ended (in_member st) (steps b (in_key st) ?n x)" "\<not> isSpace (b ! (x - 1))"
        "e = Suc (skipSpace b x)" "b ! skipSpace b x = CHR ''}''" "skipSpace b x < length b" by auto
    have "steps b (in_key st) i x = steps b (in_key st) ?n x"
      using steps_append [of i ?n x b "in_key st"] 2(5) n x(1) by simp
    then show ?thesis using x n by (intro exI [of _ x]) auto
  qed
qed

text \<open>
  The offset \<open>appendFieldEdit\<close> finds: right behind the opening brace of an object without
  members, or where the last member ends.
\<close>

lemma insert_offset:
  assumes "value_span b st p e" and "b ! p = CHR ''{''"
  defines "x \<equiv> back_over_space b (Suc p) (e - 1)"
  shows "p < x" "e = Suc (skipSpace b x)" "b ! skipSpace b x = CHR ''}''"
    "if x = Suc p then steps b (BeginValue, []) 0 x = (BeginStringOrEmpty, ObjectKey # st)
     else ended (in_member st) (steps b (BeginValue, []) 0 x)"
proof -
  have v: "p < length b" using assms(1) by (simp add: value_span_def)
  note a = value_span_accepts [OF assms(1)]
  note o = object_opens [OF a v assms(2)]
  let ?j = "skipSpace b (Suc p)"
  have op: "open_byte (b ! p)" using assms(2) by (simp add: open_byte_def)
  note i = value_span_inside [OF assms(1) op]
  have "p < x \<and> e = Suc (skipSpace b x) \<and> b ! skipSpace b x = CHR ''}'' \<and>
    (if x = Suc p then steps b (BeginValue, []) 0 x = (BeginStringOrEmpty, ObjectKey # st)
     else ended (in_member st) (steps b (BeginValue, []) 0 x))"
  proof (cases "b ! ?j = CHR ''}''")
    case True
    then have "cont_scan 1 (drop ?j b) = Some 1"
      using o(2) by (simp add: Cons_nth_drop_Suc [symmetric] cont_scan_close close_byte_def)
    then have e: "e = Suc ?j" using i by simp
    have x: "x = Suc p" unfolding x_def using e o(1) skipSpace_between [of "Suc p" _ b]
      by (intro back_over_space_to) auto
    have push: "push_state ObjectKey BeginStringOrEmpty st = (BeginStringOrEmpty, ObjectKey # st)"
    proof -
      have "accepts (scan (push_state ObjectKey BeginStringOrEmpty st) (drop (Suc p) b))"
        using a v assms(2) by (simp add: Cons_nth_drop_Suc [symmetric] begin_value_def is_json_space_def)
      then have "fst (push_state ObjectKey BeginStringOrEmpty st) \<noteq> ScanError" by (rule accepts_scanD)
      then show ?thesis by (simp add: push_state_def split: if_splits)
    qed
    have "steps b (BeginValue, []) 0 x = (BeginStringOrEmpty, ObjectKey # st)"
      using value_span_state [OF assms(1), of x] x v assms(2) push by (simp add: steps_Suc begin_value_def is_json_space_def)
    then show ?thesis using x e True by simp
  next
    case False
    then have k: "accepts (scan (in_key st) (drop ?j b))" "\<not> isSpace (b ! ?j)"
      "\<forall>x > ?j. steps b (BeginValue, st) p x = steps b (in_key st) ?j x" using o(3) by blast+
    have "?j \<le> length b" using o(2) by simp
    from members_end [OF k(1) this k(2) i(2,1)] obtain y where
      y: "?j < y" "ended (in_member st) (steps b (in_key st) ?j y)" "\<not> isSpace (b ! (y - 1))"
        "e = Suc (skipSpace b y)" "b ! skipSpace b y = CHR ''}''" by blast
    have "x = y" unfolding x_def using y o(1) skipSpace_between [of y _ b] skipSpace_ge [of y b]
      by (intro back_over_space_to) auto
    moreover have "steps b (BeginValue, []) 0 y = steps b (in_key st) ?j y"
      using value_span_state [OF assms(1), of y] k(3) y(1) o(1) by simp
    ultimately show ?thesis using y o(1) by simp
  qed
  then show "p < x" "e = Suc (skipSpace b x)" "b ! skipSpace b x = CHR ''}''"
    "if x = Suc p then steps b (BeginValue, []) 0 x = (BeginStringOrEmpty, ObjectKey # st)
     else ended (in_member st) (steps b (BeginValue, []) 0 x)" by blast+
qed

section \<open>Edits that leave the scanner where it was\<close>

abbreviation state_at :: "bytes \<Rightarrow> nat \<Rightarrow> jscanner" where
  "state_at b \<equiv> steps b (BeginValue, []) 0"

text \<open>The edit's bytes and what follows up to \<open>z\<close> lead to the state the body has at \<open>z\<close>.\<close>

definition quiet_edit :: "bytes \<Rightarrow> nat \<Rightarrow> bytes \<Rightarrow> nat \<Rightarrow> nat \<Rightarrow> bool" where
  "quiet_edit b s w e z \<longleftrightarrow>
     s \<le> e \<and> e \<le> z \<and> s < z \<and> z \<le> length b \<and> scan (state_at b s) (w @ slice b e z) = state_at b z"

lemma scan_over_spaces:
  "\<forall>c \<in> set w. is_json_space c \<Longrightarrow> (\<And>c. is_json_space c \<Longrightarrow> scan_step q c = q) \<Longrightarrow> scan q w = q"
  by (induction w) auto

lemma spaces_end:
  assumes "ended (p # st) q" and "\<forall>c \<in> set w. is_json_space c" and "atom_stop d"
  shows "scan q (w @ [d]) = scan_step (EndValue, p # st) d"
proof (cases w)
  case Nil
  then show ?thesis using assms by (simp add: ended_def)
next
  case (Cons c u)
  have "atom_stop c" using Cons assms(2) by (auto simp: atom_stop_def isSpace_json)
  then have one: "scan_step q c = (EndValue, p # st)" using assms(1,2) Cons by (auto simp: ended_def end_value_def)
  have "\<forall>c \<in> set u. is_json_space c" using assms(2) Cons by simp
  then have "scan (EndValue, p # st) u = (EndValue, p # st)" by (rule scan_over_spaces) (simp add: end_value_def)
  then show ?thesis using Cons one by (simp add: scan_append)
qed

lemma slice_skip: "x \<le> length b \<Longrightarrow> skipSpace b x < length b \<Longrightarrow>
    slice b x (Suc (skipSpace b x)) = takeWhile isSpace (drop x b) @ [b ! skipSpace b x]"
proof -
  assume x: "x \<le> length b" "skipSpace b x < length b"
  have "x \<le> skipSpace b x" by (rule skipSpace_ge)
  then have "slice b x (Suc (skipSpace b x)) = slice b x (skipSpace b x) @ [b ! skipSpace b x]"
    using slice_append [of x "skipSpace b x" "Suc (skipSpace b x)" b] x(2) by (simp add: slice_Cons_step)
  moreover have "slice b x (skipSpace b x) = takeWhile isSpace (drop x b)"
    using x by (simp add: slice_def skipSpace_takeWhile takeWhile_eq_take [symmetric])
  ultimately show ?thesis by simp
qed

lemma quiet_insert:
  assumes "value_span b st p e" and "b ! p = CHR ''{''"
    and "scan (BeginString, ObjectKey # st) w = (EndValue, in_member st)" and "w \<noteq> []" and "hd w = CHR 0x22"
  defines "x \<equiv> back_over_space b (Suc p) (e - 1)"
  shows "quiet_edit b x ((if Suc p < x then '','' else []) @ w) x e"
proof -
  note io = insert_offset [OF assms(1,2), folded x_def]
  have e: "e \<le> length b" by (rule value_span_end(3) [OF assms(1)])
  have xs: "x \<le> skipSpace b x" "skipSpace b x < length b" "x < e" using skipSpace_ge [of x b] io(2) e by auto
  let ?sp = "takeWhile isSpace (drop x b)"
  have sl: "slice b x e = ?sp @ [CHR ''}'']" using slice_skip [of x b] xs io(2,3) by simp
  have sp: "\<forall>c \<in> set ?sp. is_json_space c" by (auto simp: isSpace_json dest: set_takeWhileD)
  have stop: "atom_stop (CHR ''}'')" "atom_stop (CHR '','')" by (simp_all add: atom_stop_def)
  have e_state: "state_at b e = scan (state_at b x) (slice b x e)"
    using steps_append [of 0 x e b "(BeginValue, [])"] xs by (simp add: steps_def)
  have close: "scan (EndValue, in_member st) (slice b x e) = pop_state (in_member st)"
    using spaces_end [OF ended_EndValue sp stop(1), of ObjectValue st] sl by (simp add: end_value_def is_json_space_def)
  have "scan (state_at b x) ((if Suc p < x then '','' else []) @ w @ slice b x e) = state_at b e"
  proof (cases "x = Suc p")
    case True
    then have q: "state_at b x = (BeginStringOrEmpty, ObjectKey # st)" using io(4) by simp
    obtain u where u: "w = CHR 0x22 # u" using assms(4,5) by (cases w) auto
    then have "scan (BeginStringOrEmpty, ObjectKey # st) w = (EndValue, in_member st)"
      using assms(3) by (simp add: is_json_space_def)
    moreover have "scan (BeginStringOrEmpty, ObjectKey # st) ?sp = (BeginStringOrEmpty, ObjectKey # st)"
      using sp by (rule scan_over_spaces) simp
    then have "state_at b e = pop_state (in_member st)"
      unfolding e_state q sl scan_append by (simp add: end_value_def is_json_space_def)
    ultimately show ?thesis using True q close by (simp add: scan_append)
  next
    case False
    then have q: "ended (in_member st) (state_at b x)" and lt: "Suc p < x" using io(1,4) by auto
    have "scan_step (state_at b x) (CHR '','') = (BeginString, ObjectKey # st)"
      using q stop(2) by (simp add: ended_def end_value_def is_json_space_def)
    moreover have "state_at b e = pop_state (in_member st)"
      unfolding e_state sl using spaces_end [OF q sp stop(1)] by (simp add: end_value_def is_json_space_def)
    ultimately show ?thesis using lt assms(3) close by (simp add: scan_append)
  qed
  then show ?thesis using xs e by (simp add: quiet_edit_def)
qed

section \<open>A string in another place\<close>

text \<open>A string token reads the same on every stack.\<close>

lemma string_stack:
  "str_scan s = Some n \<Longrightarrow> p = InString \<or> (\<exists>k. p = InStringEscU k) \<Longrightarrow> fst (scan (p, st) (take n s)) \<noteq> ScanError \<Longrightarrow>
     fst (scan (p, st') (take n s)) \<noteq> ScanError"
proof (induction s arbitrary: n p rule: str_scan.induct)
  case (2 c)
  then show ?case by (auto split: if_splits)
next
  case (3 c d s)
  show ?case
  proof (cases "c = CHR 0x5C")
    case True
    with 3 obtain m where m: "str_scan s = Some m" "n = Suc (Suc m)" by auto
    have "hex_val c = None" using True by (simp add: hex_val_def bval_def)
    then have p: "p = InString" using 3(4,5) True m by auto
    show ?thesis
      using 3(1) [OF True m(1), of "if d = CHR ''u'' then InStringEscU 4 else InString"] 3(5) True m p
      by (auto split: if_splits)
  next
    case False
    show ?thesis
    proof (cases "c = CHR 0x22")
      case True
      then have "n = 1" using 3(3) by auto
      have "hex_val c = None" using True by (simp add: hex_val_def bval_def)
      then show ?thesis using 3(4,5) True \<open>n = 1\<close> by auto
    next
      case nq: False
      then obtain m where m: "str_scan (d # s) = Some m" "n = Suc m" using 3(3) False by auto
      obtain q where q: "scan_step (p, st) c = (q, st)" "scan_step (p, st') c = (q, st')" "q = InString \<or> (\<exists>k. q = InStringEscU k)"
      proof -
        have "fst (scan_step (p, st) c) \<noteq> ScanError"
          using 3(5) m by (cases "scan_step (p, st) c") auto
        then show ?thesis using that 3(4) False nq by (auto split: if_splits)
      qed
      then show ?thesis using 3(2) [OF False nq m(1) q(3)] 3(5) m by simp
    qed
  qed
qed simp

lemma string_span_slice:
  assumes "value_span b st p e" and "b ! p = CHR 0x22"
  obtains u where "slice b p e = CHR 0x22 # u" "\<And>st'. scan (InString, st') u = (EndValue, st')"
    "state_at b e = (EndValue, st)"
proof -
  have p: "p < length b" using assms(1) by (simp add: value_span_def)
  have d: "drop p b = CHR 0x22 # drop (Suc p) b" using p assms(2) by (metis Cons_nth_drop_Suc)
  have a: "accepts (scan (InString, st) (drop (Suc p) b))"
    using value_span_accepts [OF assms(1)] d by (simp add: begin_value_def is_json_space_def)
  have ve: "valueEnd b p = map_option ((+) p) (value_len (drop p b))" using p by (intro valueEnd_scan) simp
  obtain n where n: "str_scan (drop (Suc p) b) = Some n" "e = p + Suc n"
    using ve value_span_end(1) [OF assms(1)] d by (cases "str_scan (drop (Suc p) b)") (auto simp: value_len_def)
  let ?u = "take n (drop (Suc p) b)"
  have ok: "fst (scan (InString, st) ?u) \<noteq> ScanError" by (rule accepts_take [OF a])
  have any: "scan (InString, st') ?u = (EndValue, st')" for st'
    by (rule string_forward [OF n(1)]) (rule string_stack [OF n(1) _ ok], simp)
  have sl: "slice b p e = CHR 0x22 # ?u" using n(2) d by (simp add: slice_def)
  have "state_at b e = steps b (BeginValue, st) p e" using value_span_state [OF assms(1), of e] n(2) by simp
  also have "\<dots> = (EndValue, st)" using any [of st] by (simp add: steps_def sl begin_value_def is_json_space_def)
  finally show ?thesis using that [OF sl any] by blast
qed

section \<open>Applying edits\<close>

lemma state_take: "state_at b x = scan (BeginValue, []) (take x b)"
  by (simp add: steps_def slice_def)

lemma state_slice: "x \<le> y \<Longrightarrow> scan (state_at b x) (slice b x y) = state_at b y"
  using steps_append [of 0 x y b "(BeginValue, [])"] by (simp add: steps_def)

text \<open>Edits with the offset up to which each is quiet, in order.\<close>

fun in_order :: "bytes \<Rightarrow> nat \<Rightarrow> (spliceEdit \<times> nat) list \<Rightarrow> bool" where
  "in_order b l [] \<longleftrightarrow> l \<le> length b"
| "in_order b l ((ed, z) # rest) \<longleftrightarrow>
     0 \<le> edit_start ed \<and> l \<le> nat (edit_start ed) \<and> edit_start ed \<le> edit_end ed
     \<and> quiet_edit b (nat (edit_start ed)) (edit_bytes ed) (nat (edit_end ed)) z \<and> in_order b z rest"

lemma apply_in_order:
  "in_order b z ps \<Longrightarrow> 0 \<le> l \<Longrightarrow> nat l \<le> z \<Longrightarrow> scan (BeginValue, []) (out @ slice b (nat l) z) = state_at b z \<Longrightarrow>
     \<exists>r. apply_sorted b (map fst ps) out l = Some r \<and> scan (BeginValue, []) r = scan (BeginValue, []) b"
proof (induction ps arbitrary: z out l)
  case Nil
  have "drop (nat l) b = slice b (nat l) z @ slice b z (length b)"
    using Nil.prems slice_append [of "nat l" z "length b" b] by (simp add: slice_def)
  then have "scan (BeginValue, []) (out @ drop (nat l) b) = scan (state_at b z) (slice b z (length b))"
    using Nil.prems(4) by (metis append_assoc scan_append)
  also have "\<dots> = state_at b (length b)" using Nil.prems(1) by (intro state_slice) simp
  finally show ?case by (simp add: steps_def slice_def)
next
  case (Cons pr ps)
  obtain ed y where pr: "pr = (ed, y)" by force
  let ?s = "nat (edit_start ed)" and ?e = "nat (edit_end ed)"
  have ed: "0 \<le> edit_start ed" "z \<le> ?s" "edit_start ed \<le> edit_end ed" "in_order b y ps"
    and q: "?s \<le> ?e" "?e \<le> y" "y \<le> length b" "scan (state_at b ?s) (edit_bytes ed @ slice b ?e y) = state_at b y"
    using Cons.prems(1) by (auto simp: pr quiet_edit_def)
  let ?out = "out @ slice b (nat l) ?s @ edit_bytes ed"
  have "slice b (nat l) ?s = slice b (nat l) z @ slice b z ?s" using Cons.prems(3) ed(2) by (simp add: slice_append)
  then have "scan (BeginValue, []) (out @ slice b (nat l) ?s) = state_at b ?s"
    using Cons.prems(4) state_slice [OF ed(2), of b] by (metis append_assoc scan_append)
  then have "scan (BeginValue, []) (?out @ slice b ?e y) = state_at b y" using q(4) by (simp add: scan_append)
  from Cons.IH [OF ed(4) _ q(2) this] ed(1,3) obtain r where
    r: "apply_sorted b (map fst ps) ?out (edit_end ed) = Some r" "scan (BeginValue, []) r = scan (BeginValue, []) b"
    by (meson order_trans)
  have "\<not> (edit_start ed < l \<or> edit_end ed < edit_start ed \<or> edit_end ed > int (length b))"
    using Cons.prems(2,3) ed q by linarith
  then show ?case using r by (simp add: pr)
qed

text \<open>Edits apart from each other, in any order.\<close>

lemma sorted_in_order:
  assumes "sorted_wrt (\<lambda>x y. edit_start x \<le> edit_start y) eds"
    and "\<forall>ed \<in> set eds. 0 \<le> edit_start ed \<and> edit_start ed \<le> edit_end ed
      \<and> quiet_edit b (nat (edit_start ed)) (edit_bytes ed) (nat (edit_end ed)) (Z ed)"
    and "\<forall>x \<in> set eds. \<forall>y \<in> set eds. x \<noteq> y \<longrightarrow> Z x \<le> nat (edit_start y) \<or> Z y \<le> nat (edit_start x)" and "distinct eds"
    and "\<forall>ed \<in> set eds. l \<le> nat (edit_start ed)" and "l \<le> length b"
  shows "in_order b l (map (\<lambda>ed. (ed, Z ed)) eds)"
  using assms
proof (induction eds arbitrary: l)
  case (Cons ed eds)
  have q: "nat (edit_start ed) < Z ed" "Z ed \<le> length b" using Cons.prems(2) by (auto simp: quiet_edit_def)
  have later: "Z ed \<le> nat (edit_start y)" if y: "y \<in> set eds" for y
  proof -
    have "y \<noteq> ed" using Cons.prems(4) y by auto
    then have "Z ed \<le> nat (edit_start y) \<or> Z y \<le> nat (edit_start ed)" using Cons.prems(3) y by auto
    moreover have "nat (edit_start y) < Z y" using Cons.prems(2) y by (auto simp: quiet_edit_def)
    moreover have "edit_start ed \<le> edit_start y" using Cons.prems(1) y by simp
    ultimately show ?thesis by linarith
  qed
  have "in_order b (Z ed) (map (\<lambda>ed. (ed, Z ed)) eds)"
    by (rule Cons.IH) (use Cons.prems later q in auto)
  then show ?case using Cons.prems by simp
qed simp

lemma applied_quietly:
  assumes "\<forall>ed \<in> set eds. 0 \<le> edit_start ed \<and> edit_start ed \<le> edit_end ed
      \<and> quiet_edit b (nat (edit_start ed)) (edit_bytes ed) (nat (edit_end ed)) (Z ed)"
    and "\<forall>x \<in> set eds. \<forall>y \<in> set eds. x \<noteq> y \<longrightarrow> Z x \<le> nat (edit_start y) \<or> Z y \<le> nat (edit_start x)" and "distinct eds"
  shows "\<exists>r. applySpliceEdits b eds = Some r \<and> scan (BeginValue, []) r = scan (BeginValue, []) b"
proof -
  let ?s = "sort_key edit_start eds"
  have "in_order b 0 (map (\<lambda>ed. (ed, Z ed)) ?s)"
  proof (rule sorted_in_order)
    show "sorted_wrt (\<lambda>x y. edit_start x \<le> edit_start y) ?s"
      using sorted_sort_key [of edit_start eds] by (simp add: sorted_map)
    show "distinct ?s" using assms(3) by simp
  qed (use assms(1,2) in simp_all)
  from apply_in_order [OF this, of 0 "[]"] show ?thesis
    by (simp add: applySpliceEdits_def comp_def steps_def slice_def)
qed

text \<open>What an edit replaces is still in its bytes, so nothing is lost.\<close>

lemma apply_keeps:
  "apply_sorted b eds out l = Some r \<Longrightarrow> 0 \<le> l \<Longrightarrow>
   \<forall>ed \<in> set eds. subseq (slice b (nat (edit_start ed)) (nat (edit_end ed))) (edit_bytes ed) \<Longrightarrow>
     \<exists>t. r = out @ t \<and> subseq (drop (nat l) b) t"
proof (induction eds arbitrary: out l)
  case (Cons ed eds)
  let ?s = "nat (edit_start ed)" and ?e = "nat (edit_end ed)"
  have g: "l \<le> edit_start ed" "edit_start ed \<le> edit_end ed"
    and rec: "apply_sorted b eds (out @ slice b (nat l) ?s @ edit_bytes ed) (edit_end ed) = Some r"
    using Cons.prems(1) by (auto split: if_splits)
  have "0 \<le> edit_end ed" using g Cons.prems(2) by simp
  moreover have "\<forall>ed \<in> set eds. subseq (slice b (nat (edit_start ed)) (nat (edit_end ed))) (edit_bytes ed)"
    using Cons.prems(3) by simp
  ultimately obtain t where
    t: "r = (out @ slice b (nat l) ?s @ edit_bytes ed) @ t" "subseq (drop ?e b) t" using Cons.IH [OF rec] by blast
  have "drop (nat l) b = slice b (nat l) ?s @ slice b ?s ?e @ drop ?e b"
    using g by (simp add: slice_to_drop nat_mono)
  moreover have "subseq (slice b ?s ?e @ drop ?e b) (edit_bytes ed @ t)"
    using Cons.prems(3) t(2) by (intro list_emb_append_mono) simp_all
  ultimately have "subseq (drop (nat l) b) (slice b (nat l) ?s @ edit_bytes ed @ t)" by (simp add: subseq_same)
  then show ?case using t(1) by (intro exI [of _ "slice b (nat l) ?s @ edit_bytes ed @ t"]) simp
qed (auto intro: exI [of _ "drop (nat l) b" for l b])

lemma applied_subseq:
  assumes "applySpliceEdits b eds = Some r"
    and "\<forall>ed \<in> set eds. subseq (slice b (nat (edit_start ed)) (nat (edit_end ed))) (edit_bytes ed)"
  shows "subseq b r"
  using apply_keeps [of b "sort_key edit_start eds" "[]" 0 r] assms by (simp add: applySpliceEdits_def)

end
