(* ===== verification/Anthropic_Plan_Facts.thy ===== *)
theory Anthropic_Plan_Facts
  imports Json_Insert
begin

text \<open>
  Every edit of the planner puts text into one value of the body and leaves the scanner where it
  was, and the edits of one plan lie in different fields of the root object. So a plan always applies,
  and the text it gives is as valid as the body.
\<close>

section \<open>The marker\<close>

lemma Root_span:
  assumes "Root data = Some root"
  shows "splice_walk.val data [] root" "0 \<le> Start root" "json_valid data" "data ! nat (Start root) = CHR ''{''"
proof -
  obtain e where v: "json_valid data" "js_value data (js_space data 0) = Some e" "data ! js_space data 0 = CHR ''{''"
    "root = span (js_space data 0) e"
    using assms by (auto simp: Root_def Let_def split: if_splits option.splits)
  from value_span_root [OF v(1)] obtain e' where e: "value_span data [] (skipSpace data 0) e'" by blast
  then have "js_value data (skipSpace data 0) = Some e'" by (simp add: value_span_def scanJSONValue_eq)
  then show "splice_walk.val data [] root" "0 \<le> Start root" "json_valid data" "data ! nat (Start root) = CHR ''{''"
    using v e by (simp_all add: splice_walk.val_def span_def js_space_eq)
qed

lemma marker_scan:
  "length st < 100 \<Longrightarrow> scan (BeginString, ObjectKey # st) cacheControlField = (EndValue, in_member st)"
  by (simp add: cacheControlField_def quoted_def scan_append begin_string_def begin_value_def end_value_def is_json_space_def
      push_state_def max_nesting_def pop_state_def bval_def)

lemma marker_hd: "cacheControlField \<noteq> []" "hd cacheControlField = CHR 0x22"
  by (simp_all add: cacheControlField_def quoted_def)

text \<open>An edit inside the span \<open>s\<close> that loses nothing.\<close>

definition edits_within :: "bytes \<Rightarrow> Span \<Rightarrow> spliceEdit \<Rightarrow> bool" where
  "edits_within data s ed \<longleftrightarrow>
     0 \<le> edit_start ed \<and> edit_start ed \<le> edit_end ed \<and> nat (Start s) \<le> nat (edit_start ed)
     \<and> (\<exists>z \<le> nat (End s). quiet_edit data (nat (edit_start ed)) (edit_bytes ed) (nat (edit_end ed)) z)
     \<and> subseq (slice data (nat (edit_start ed)) (nat (edit_end ed))) (edit_bytes ed)"

lemma edits_within_mono: "edits_within data v ed \<Longrightarrow> splice_walk.within v s \<Longrightarrow> edits_within data s ed"
  unfolding edits_within_def splice_walk.within_def by (meson less_imp_le order_trans)

lemma appendFieldEdit_within:
  assumes "splice_walk.val data st ob" and "appendFieldEdit data ob = Some ed" and "length st < 100"
  shows "edits_within data ob ed"
proof -
  let ?p = "nat (Start ob)" and ?e = "nat (End ob)"
  have o: "isJSONObject data ob" using assms(2) by (simp add: appendFieldEdit_def split: if_splits)
  then have p: "0 \<le> Start ob" "data ! ?p = CHR ''{''" by (simp_all add: isJSONObject_def)
  then have "nat (End ob - 1) = ?e - 1" by simp
  then have ed: "ed = (let x = back_over_space data (Suc ?p) (?e - 1) in
      \<lparr>edit_start = int x, edit_end = int x, edit_bytes = (if Suc ?p < x then '','' else []) @ cacheControlField\<rparr>)"
    using assms(2) o by (simp add: appendFieldEdit_def Let_def)
  have v: "value_span data st ?p ?e" using assms(1) by (simp add: splice_walk.val_def)
  from quiet_insert [OF v p(2) marker_scan [OF assms(3)] marker_hd] insert_offset(1) [OF v p(2)] ed
  show ?thesis by (auto simp: edits_within_def Let_def slice_def)
qed

lemma last_object_within:
  assumes "splice_walk.val data st arr" and "Elements data arr = Some xs" and "last_object_edit data xs = Some ed"
    and "length st < 99"
  shows "edits_within data arr ed"
proof -
  obtain x where x: "find (isJSONObject data) (rev xs) = Some x" "appendFieldEdit data x = Some ed"
    using assms(3) by (auto simp: last_object_edit_def split: option.splits)
  then have "x \<in> set xs" using find_member [OF x(1)] by simp
  note w = splice_walk.val_element [OF assms(1,2) this]
  have "edits_within data x ed" by (rule appendFieldEdit_within [OF _ x(2)]) (use w assms(4) in auto)
  then show ?thesis using w edits_within_mono by blast
qed

lemma text_block_quiet:
  assumes "splice_walk.val data (q # st) s" and "data ! nat (Start s) = CHR 0x22" and "length st < 90"
  shows "quiet_edit data (nat (Start s)) (text_block (slice data (nat (Start s)) (nat (End s)))) (nat (End s)) (nat (End s))"
proof -
  let ?p = "nat (Start s)" and ?e = "nat (End s)"
  have v: "value_span data (q # st) ?p ?e" using assms(1) by (simp add: splice_walk.val_def)
  from string_span_slice [OF v assms(2)] obtain u where
    u: "slice data ?p ?e = CHR 0x22 # u" "\<And>st'. scan (InString, st') u = (EndValue, st')" "state_at data ?e = (EndValue, q # st)"
    by blast
  have b: "scan_step (state_at data ?p) (CHR ''['') = begin_value (q # st) (CHR ''['')"
    using v by (intro before_value_step) (simp_all add: value_span_def is_json_space_def)
  have w: "slice data ?p ?e @ '','' @ cacheControlField @ ''}]'' = CHR 0x22 # u @ '','' @ cacheControlField @ ''}]''"
    by (simp add: u(1))
  have "scan (state_at data ?p) (text_block (slice data ?p ?e)) = (EndValue, q # st)"
    unfolding text_block_def w using assms(3) marker_scan [of "ArrayValue # q # st"]
    by (simp add: b quoted_def scan_append begin_string_def begin_value_def end_value_def is_json_space_def push_state_def
        max_nesting_def pop_state_def bval_def u(2)) 
  moreover have "?p \<le> ?e" using value_span_end(2) [OF v] by (rule less_imp_le)
  ultimately show ?thesis using u(3) value_span_end(2,3) [OF v] by (simp add: quiet_edit_def slice_def nat_mono)
qed

lemma text_block_subseq: "subseq s (text_block s)"
proof -
  have "subseq s (s @ t)" for t :: bytes using list_emb_append_mono [of "(=)" s s "[]" t] by simp
  then show ?thesis unfolding text_block_def by (simp only: list_emb_append2)
qed

section \<open>The markers a document holds\<close>

text \<open>
  A path names a child at every level by its index. The key stands at a path when the last index is
  that of a member with the key; how often a document holds the key is the number of such paths.
\<close>

fun key_stands_at :: "bytes \<Rightarrow> goval \<Rightarrow> nat list \<Rightarrow> bool" where
  "key_stands_at key v [] = False"
| "key_stands_at key (GMap m) (i # path) = (i < length m \<and> (path = [] \<and> fst (m ! i) = key \<or> key_stands_at key (snd (m ! i)) path))"
| "key_stands_at key (GSlice xs) (i # path) = (i < length xs \<and> key_stands_at key (xs ! i) path)"
| "key_stands_at key v (i # path) = False"

lemma key_stands_at_leaf [simp]:
  "\<not> key_stands_at key GNil path" "\<not> key_stands_at key (GBool b) path" "\<not> key_stands_at key (GNumber n) path"
  "\<not> key_stands_at key (GString s) path" "\<not> key_stands_at key (GToon t) path" "\<not> key_stands_at key GOther path"
  by (cases path; simp)+

lemma card_paths:
  fixes n :: nat
  assumes "\<And>i. i < n \<Longrightarrow> finite (A i)"
  shows "finite {i # path | i path. i < n \<and> path \<in> A i} \<and> card {i # path | i path. i < n \<and> path \<in> A i} = (\<Sum>i<n. card (A i))"
proof -
  have u: "{i # path | i path. i < n \<and> path \<in> A i} = (\<Union>i<n. (#) i ` A i)" by auto
  have "card (\<Union>i<n. (#) i ` A i) = (\<Sum>i<n. card ((#) i ` A i))"
    by (rule card_UN_disjoint) (auto simp: assms)
  then show ?thesis by (simp add: u card_image assms)
qed

lemma countJSONKey_paths:
  "finite {path. key_stands_at key v path} \<and> card {path. key_stands_at key v path} = countJSONKey v key"
proof (induction v key rule: countJSONKey.induct)
  case (1 m key)
  let ?A = "\<lambda>i. {path. path = [] \<and> fst (m ! i) = key \<or> key_stands_at key (snd (m ! i)) path}"
  have A: "finite (?A i) \<and> card (?A i) = (if fst (m ! i) = key then 1 else 0) + countJSONKey (snd (m ! i)) key"
    if "i < length m" for i
  proof -
    have ih: "finite {path. key_stands_at key (snd (m ! i)) path}"
      "card {path. key_stands_at key (snd (m ! i)) path} = countJSONKey (snd (m ! i)) key"
      using 1 [of "m ! i" "fst (m ! i)" "snd (m ! i)"] that by simp_all
    have "?A i = (if fst (m ! i) = key then insert [] else id) {path. key_stands_at key (snd (m ! i)) path}" by auto
    then show ?thesis using ih by simp
  qed
  have "path \<in> {path. key_stands_at key (GMap m) path} \<longleftrightarrow> path \<in> {i # path | i path. i < length m \<and> path \<in> ?A i}" for path
    by (cases path) simp_all
  then have "{path. key_stands_at key (GMap m) path} = {i # path | i path. i < length m \<and> path \<in> ?A i}" by blast
  moreover have "(\<Sum>i<length m. card (?A i)) = countJSONKey (GMap m) key"
    using A by (simp add: sum_list_sum_nth atLeast0LessThan split_beta)
  ultimately show ?case using card_paths [of "length m" ?A] A by simp
next
  case (2 xs key)
  let ?A = "\<lambda>i. {path. key_stands_at key (xs ! i) path}"
  have A: "finite (?A i) \<and> card (?A i) = countJSONKey (xs ! i) key" if "i < length xs" for i using 2 that by simp
  have "path \<in> {path. key_stands_at key (GSlice xs) path} \<longleftrightarrow> path \<in> {i # path | i path. i < length xs \<and> path \<in> ?A i}" for path
    by (cases path) simp_all
  then have "{path. key_stands_at key (GSlice xs) path} = {i # path | i path. i < length xs \<and> path \<in> ?A i}" by blast
  moreover have "(\<Sum>i<length xs. card (?A i)) = countJSONKey (GSlice xs) key"
    using A by (simp add: sum_list_sum_nth atLeast0LessThan)
  ultimately show ?case using card_paths [of "length xs" ?A] A by simp
qed simp_all

section \<open>The three edits\<close>

lemma Field_positive:
  assumes "splice_walk.val data st s" and "Field data s f = Some v"
  shows "0 \<le> Start v" "Start v \<le> End v"
proof -
  obtain w where w: "v = to_Span w" using Field_eq [OF assms(2)] by metis
  have "nat (Start v) < nat (End v)"
    using splice_walk.val_bounds splice_walk.val_field [OF assms] by blast
  then show "0 \<le> Start v" "Start v \<le> End v" using w by (simp_all add: to_Span_def span_def)
qed

lemma toolsTail_within:
  assumes "Root data = Some root" and "toolsTailEdit data root = Some ed"
  obtains v where "Field data root ''tools'' = Some v" "edits_within data v ed"
proof -
  obtain v xs where v: "Field data root ''tools'' = Some v" "Elements data v = Some xs" "last_object_edit data xs = Some ed"
    using assms(2) by (auto simp: toolsTailEdit_def split: option.splits if_splits)
  have "splice_walk.val data (in_member []) v" using splice_walk.val_field [OF Root_span(1) [OF assms(1)] v(1)] by blast
  from last_object_within [OF this v(2,3)] show ?thesis by (intro that [OF v(1)]) simp
qed

lemma systemTail_within:
  assumes "Root data = Some root" and "systemTailEdit data root = Some ed"
  obtains v where "Field data root ''system'' = Some v" "edits_within data v ed"
proof -
  obtain v where v: "Field data root ''system'' = Some v" using assms(2) by (auto simp: systemTailEdit_def split: option.splits)
  have a: "splice_walk.val data (in_member []) v" using splice_walk.val_field [OF Root_span(1) [OF assms(1)] v] by blast
  have pos: "0 \<le> Start v" "Start v \<le> End v" by (rule Field_positive [OF Root_span(1) [OF assms(1)] v])+
  have "edits_within data v ed"
  proof (cases "data ! nat (Start v) = CHR 0x22")
    case True
    then have ed: "ed = \<lparr>edit_start = Start v, edit_end = End v, edit_bytes = text_block (slice data (nat (Start v)) (nat (End v)))\<rparr>"
      using assms(2) v by (auto simp: systemTailEdit_def split: if_splits)
    from text_block_quiet [OF a True] pos text_block_subseq show ?thesis by (simp add: ed edits_within_def) (use pos in blast)
  next
    case False
    then obtain xs where "Elements data v = Some xs" "last_object_edit data xs = Some ed"
      using assms(2) v by (auto simp: systemTailEdit_def split: if_splits option.splits)
    then show ?thesis by (rule last_object_within [OF a]) simp
  qed
  then show ?thesis by (rule that [OF v])
qed

lemma frontier_within:
  assumes "Root data = Some root" and "frontierEdit data root = Some ed"
  obtains v where "Field data root ''messages'' = Some v" "edits_within data v ed"
proof -
  obtain v xs c ys where v: "Field data root ''messages'' = Some v" "Elements data v = Some xs" "xs \<noteq> []"
    "Field data (last xs) ''content'' = Some c" "Elements data c = Some ys" "last_object_edit data ys = Some ed"
    using assms(2) by (auto simp: frontierEdit_def split: option.splits if_splits)
  have a: "splice_walk.val data (in_member []) v" using splice_walk.val_field [OF Root_span(1) [OF assms(1)] v(1)] by blast
  have "last xs \<in> set xs" using v(3) by simp
  note m = splice_walk.val_element [OF a v(2) this]
  from m have mv: "splice_walk.val data (in_array (in_member [])) (last xs)" ..
  note c = splice_walk.val_field [OF mv v(4)]
  have "edits_within data c ed" by (rule last_object_within [OF _ v(5,6)]) (use c in auto)
  then have "edits_within data v ed" using c m edits_within_mono splice_walk.within_trans by blast
  then show ?thesis by (rule that [OF v(1)])
qed

section \<open>A plan applies\<close>

text \<open>The fields the edits of a plan lie in are different.\<close>

lemma edits_apply:
  assumes "\<forall>(ed, f) \<in> set ps. \<exists>v. Field data root f = Some v \<and> edits_within data v ed" and "distinct (map snd ps)"
  shows "\<exists>r. applySpliceEdits data (map fst ps) = Some r \<and> scan (BeginValue, []) r = scan (BeginValue, []) data \<and> subseq data r"
proof -
  have within: "\<exists>z v. Field data root f = Some v \<and> quiet_edit data (nat (edit_start ed)) (edit_bytes ed) (nat (edit_end ed)) z
      \<and> nat (Start v) \<le> nat (edit_start ed) \<and> z \<le> nat (End v)" if "(ed, f) \<in> set ps" for ed f
    using assms(1) that unfolding edits_within_def by fast
  obtain Z where Z: "\<And>ed f. (ed, f) \<in> set ps \<Longrightarrow> \<exists>v. Field data root f = Some v
      \<and> quiet_edit data (nat (edit_start ed)) (edit_bytes ed) (nat (edit_end ed)) (Z ed f)
      \<and> nat (Start v) \<le> nat (edit_start ed) \<and> Z ed f \<le> nat (End v)"
    using within by metis
  have apart: "Z x f \<le> nat (edit_start y) \<or> Z y g \<le> nat (edit_start x)"
    if p: "(x, f) \<in> set ps" "(y, g) \<in> set ps" "f \<noteq> g" for x y f g
    using Z [OF p(1)] Z [OF p(2)] splice_walk.fields_apart [OF _ _ p(3)] by fastforce
  have once: "f = g" if p: "(x, f) \<in> set ps" "(x, g) \<in> set ps" for x f g
  proof (rule ccontr)
    assume "f \<noteq> g"
    then have "Z x f \<le> nat (edit_start x) \<or> Z x g \<le> nat (edit_start x)" by (rule apart [OF p])
    moreover have "nat (edit_start x) < Z x f" "nat (edit_start x) < Z x g"
      using Z [OF p(1)] Z [OF p(2)] by (auto simp: quiet_edit_def)
    ultimately show False by simp
  qed
  define Y where "Y ed = Z ed (the (map_of ps ed))" for ed
  have dist: "distinct (map fst ps)" using assms(2) once
    by (auto simp: distinct_map inj_on_def)
  have Y: "Y x = Z x f" if "(x, f) \<in> set ps" for x f
    using map_of_is_SomeI [OF dist that] by (simp add: Y_def)
  have "\<exists>r. applySpliceEdits data (map fst ps) = Some r \<and> scan (BeginValue, []) r = scan (BeginValue, []) data"
  proof (rule applied_quietly)
    show "\<forall>ed \<in> set (map fst ps). 0 \<le> edit_start ed \<and> edit_start ed \<le> edit_end ed
        \<and> quiet_edit data (nat (edit_start ed)) (edit_bytes ed) (nat (edit_end ed)) (Y ed)"
      using assms(1) Z Y by (fastforce simp: edits_within_def)
    show "\<forall>x \<in> set (map fst ps). \<forall>y \<in> set (map fst ps). x \<noteq> y \<longrightarrow> Y x \<le> nat (edit_start y) \<or> Y y \<le> nat (edit_start x)"
    proof (intro ballI impI)
      fix x y
      assume "x \<in> set (map fst ps)" "y \<in> set (map fst ps)" and ne: "x \<noteq> y"
      then obtain f g where p: "(x, f) \<in> set ps" "(y, g) \<in> set ps" by auto
      have "f \<noteq> g" using assms(2) p ne inj_onD [of snd "set ps" "(x, f)" "(y, g)"] by (auto simp: distinct_map)
      then show "Y x \<le> nat (edit_start y) \<or> Y y \<le> nat (edit_start x)" using apart [OF p] Y p by simp
    qed
  qed (rule dist)
  then obtain r where r: "applySpliceEdits data (map fst ps) = Some r" "scan (BeginValue, []) r = scan (BeginValue, []) data" by blast
  have "subseq data r" by (rule applied_subseq [OF r(1)]) (use assms(1) in \<open>auto simp: edits_within_def\<close>)
  then show ?thesis using r by blast
qed

lemma cold_apply:
  assumes "Root data = Some root"
  shows "\<exists>r. applySpliceEdits data (coldStartPlan data root) = Some r \<and> scan (BeginValue, []) r = scan (BeginValue, []) data
    \<and> subseq data r" "length (coldStartPlan data root) \<le> 3"
proof -
  let ?ps = "List.map_filter (\<lambda>(e, f). map_option (\<lambda>ed. (ed, f)) e)
    [(toolsTailEdit data root, ''tools''), (systemTailEdit data root, ''system''), (frontierEdit data root, ''messages'')]"
  have l: "length ?ps \<le> 3" and m: "map fst ?ps = List.map_filter id [toolsTailEdit data root, systemTailEdit data root, frontierEdit data root]"
    and d: "distinct (map snd ?ps)" by (auto simp: map_filter_simps split: option.splits)
  have c: "coldStartPlan data root = map fst ?ps"
  proof -
    have "length (map fst ?ps) \<le> 4" using l by simp
    then show ?thesis unfolding coldStartPlan_def maxCacheBreakpoints_def m [symmetric] by (rule take_all)
  qed
  have "\<exists>v. Field data root f = Some v \<and> edits_within data v ed" if "(ed, f) \<in> set ?ps" for ed f
  proof -
    from that consider "toolsTailEdit data root = Some ed" "f = ''tools''" | "systemTailEdit data root = Some ed" "f = ''system''"
      | "frontierEdit data root = Some ed" "f = ''messages''"
      by (auto simp: map_filter_simps split: option.splits)
    then show ?thesis
      using toolsTail_within [OF assms] systemTail_within [OF assms] frontier_within [OF assms] by cases metis+
  qed
  then have "\<forall>(ed, f) \<in> set ?ps. \<exists>v. Field data root f = Some v \<and> edits_within data v ed" by blast
  from edits_apply [OF this d] show "\<exists>r. applySpliceEdits data (coldStartPlan data root) = Some r
      \<and> scan (BeginValue, []) r = scan (BeginValue, []) data \<and> subseq data r" unfolding c .
  show "length (coldStartPlan data root) \<le> 3" using l by (simp add: c)
qed

lemma managed_apply:
  assumes "Root data = Some root"
  shows "\<exists>r. applySpliceEdits data (managedPlan data root k payg) = Some r \<and> scan (BeginValue, []) r = scan (BeginValue, []) data
    \<and> subseq data r" "length (managedPlan data root k payg) \<le> min 1 k"
proof -
  have "managedPlan data root k payg = [] \<or> (\<exists>ed. 0 < k \<and> managedPlan data root k payg = [ed] \<and> frontierEdit data root = Some ed)"
    by (auto simp: managedPlan_def lookbackPlan_def split: option.splits)
  moreover have "\<exists>r. applySpliceEdits data [ed] = Some r \<and> scan (BeginValue, []) r = scan (BeginValue, []) data \<and> subseq data r"
    if "frontierEdit data root = Some ed" for ed
    using edits_apply [of "[(ed, ''messages'')]" data root] frontier_within [OF assms that] by fastforce
  ultimately show "\<exists>r. applySpliceEdits data (managedPlan data root k payg) = Some r
      \<and> scan (BeginValue, []) r = scan (BeginValue, []) data \<and> subseq data r"
    "length (managedPlan data root k payg) \<le> min 1 k"
    by (auto simp: applySpliceEdits_def)
qed

lemma planned_applies:
  assumes "planned data payg = Some (n, edits)"
  shows "\<exists>r. applySpliceEdits data edits = Some r \<and> json_valid r \<and> subseq data r" "n + length edits \<le> maxCacheBreakpoints"
proof -
  obtain root where root: "Root data = Some root" and n: "n < maxCacheBreakpoints"
    "edits = coldStartPlan data root \<and> n = 0 \<or> (\<exists>payg. edits = managedPlan data root (maxCacheBreakpoints - n) payg)"
    using assms by (auto simp: planned_def Let_def split: option.splits if_splits)
  have "json_valid data" by (rule Root_span(3) [OF root])
  then show "\<exists>r. applySpliceEdits data edits = Some r \<and> json_valid r \<and> subseq data r"
    using n(2) cold_apply(1) [OF root] managed_apply(1) [OF root] by (fastforce simp: json_valid_def)
  show "n + length edits \<le> maxCacheBreakpoints"
    using n(2)
  proof (elim disjE exE conjE)
    fix payg
    assume "edits = managedPlan data root (maxCacheBreakpoints - n) payg"
    then show ?thesis using managed_apply(2) [OF root, of "maxCacheBreakpoints - n" payg] n(1) by simp
  qed (use cold_apply(2) [OF root] in \<open>simp add: maxCacheBreakpoints_def\<close>)
qed

lemma plan_never_gives_up:
  "planCacheBreakpoints data payg =
     (case planned data payg of
        None \<Rightarrow> None
      | Some (n, edits) \<Rightarrow> if edits = [] then None else applySpliceEdits data edits)"
  using planned_applies(1) [of data payg]
  by (auto simp: planCacheBreakpoints_def split: option.splits)

section \<open>What a plan counts and adds\<close>

lemma planned_counts:
  assumes "planned data payg = Some (n, edits)"
  obtains root where "unmarshal_map data = Some root" "n = card {path. key_stands_at ''cache_control'' (GMap root) path}"
  using assms countJSONKey_paths [of "''cache_control''"]
  by (auto simp: planned_def Let_def split: option.splits if_splits)

text \<open>The bytes of an edit: the marker, with a comma when it follows a member, or the text block of a string it replaces.\<close>

definition marks_once :: "bytes \<Rightarrow> spliceEdit \<Rightarrow> bool" where
  "marks_once data ed \<longleftrightarrow>
     edit_start ed = edit_end ed \<and> (edit_bytes ed = cacheControlField \<or> edit_bytes ed = '','' @ cacheControlField)
     \<or> edit_bytes ed = text_block (slice data (nat (edit_start ed)) (nat (edit_end ed)))"

lemma appendFieldEdit_marks: "appendFieldEdit data ob = Some ed \<Longrightarrow> marks_once data ed"
  by (auto simp: appendFieldEdit_def marks_once_def Let_def split: if_splits)

lemma last_object_marks: "last_object_edit data xs = Some ed \<Longrightarrow> marks_once data ed"
  by (auto simp: last_object_edit_def appendFieldEdit_marks split: option.splits)

lemma tail_edits_mark:
  "toolsTailEdit data root = Some ed \<Longrightarrow> marks_once data ed"
  "systemTailEdit data root = Some ed \<Longrightarrow> marks_once data ed"
  "frontierEdit data root = Some ed \<Longrightarrow> marks_once data ed"
proof -
  show "toolsTailEdit data root = Some ed \<Longrightarrow> marks_once data ed"
    by (auto simp: toolsTailEdit_def last_object_marks split: option.splits if_splits)
  show "frontierEdit data root = Some ed \<Longrightarrow> marks_once data ed"
    by (auto simp: frontierEdit_def last_object_marks split: option.splits if_splits)
  have "marks_once data \<lparr>edit_start = p, edit_end = q, edit_bytes = text_block (slice data (nat p) (nat q))\<rparr>" for p q
    by (simp add: marks_once_def)
  then show "systemTailEdit data root = Some ed \<Longrightarrow> marks_once data ed"
    by (auto simp: systemTailEdit_def last_object_marks split: option.splits if_splits)
qed

lemma planned_marks:
  assumes "planned data payg = Some (n, edits)" and "ed \<in> set edits"
  shows "marks_once data ed"
proof -
  obtain root where "edits = coldStartPlan data root \<or> (\<exists>k p. edits = managedPlan data root k p)"
    using assms(1) by (auto simp: planned_def Let_def split: option.splits if_splits)
  then have "ed \<in> set (List.map_filter id [toolsTailEdit data root, systemTailEdit data root, frontierEdit data root])"
    using assms(2) by (auto simp: coldStartPlan_def managedPlan_def lookbackPlan_def map_filter_simps dest!: in_set_takeD
        split: if_splits option.splits)
  then show ?thesis using tail_edits_mark by (auto simp: map_filter_simps split: option.splits)
qed

end
