(* ===== verification/Anthropic_Transform.thy ===== *)
theory Anthropic_Transform
  imports Anthropic_Plan_Facts
begin

text \<open>
  The transform of cache_breakpoints.go and automatic_cache.go: whatever the body and the policy, it
  passes the body through or adds one marker and loses nothing; the text with the marker is always
  valid, so the check before the return never fires.
\<close>

section \<open>One marker\<close>

lemma cache_insertion_text: "field_text cache_insertion = cacheControlField"
  by (simp add: field_text_def cache_insertion_def ephemeral_value_def cacheControlField_def) code_simp

lemma insert_at_eq: "insert_at b start k = back_over_space b (Suc start) k"
  by (induction b start k rule: insert_at.induct) (auto simp: isJSONSpaceByte_def)

text \<open>An edit of a valid text that leaves the scanner where it was.\<close>

definition kept :: "bytes \<Rightarrow> bytes \<Rightarrow> bool" where
  "kept data out \<longleftrightarrow> scan (BeginValue, []) out = scan (BeginValue, []) data \<and> subseq data out \<and> length data < length out"

text \<open>
  One marker as the last member of an object, right behind its last member (or its opening brace), with
  \<open>rest\<close> what follows the object; and one marker in the text block that takes the place of a string.
\<close>

definition member_added :: "bytes \<Rightarrow> bytes \<Rightarrow> bytes \<Rightarrow> bool" where
  "member_added data rest out \<longleftrightarrow>
     (\<exists>a sep sp. data = a @ sp @ ''}'' @ rest \<and> list_all isSpace sp \<and> (sep = [] \<or> sep = '','')
        \<and> out = a @ sep @ cacheControlField @ sp @ ''}'' @ rest)"

definition string_wrapped :: "bytes \<Rightarrow> bytes \<Rightarrow> bool" where
  "string_wrapped data out \<longleftrightarrow>
     (\<exists>a u b. data = a @ (CHR 0x22 # u) @ b \<and> out = a @ text_block (CHR 0x22 # u) @ b)"

lemma member_addedI:
  assumes "data = a @ sp @ ''}'' @ rest" and "list_all isSpace sp"
    and "out = a @ (if comma then '','' else []) @ cacheControlField @ sp @ ''}'' @ rest"
  shows "member_added data rest out"
  unfolding member_added_def
  by (rule exI [of _ a], rule exI [of _ "if comma then '','' else []"], rule exI [of _ sp]) (use assms in simp)

lemma one_edit:
  assumes "quiet_edit b s w e z" and "subseq (slice b s e) w" and "length (slice b s e) < length w"
  shows "kept b (take s b @ w @ drop e b)"
proof -
  note q = assms(1) [unfolded quiet_edit_def]
  have b: "b = take s b @ slice b s e @ drop e b"
  proof -
    have "slice b s e @ drop e b = drop s b" using q by (intro slice_to_drop) simp
    then show ?thesis by simp
  qed
  have d: "drop e b = slice b e z @ drop z b" using q by (simp add: slice_to_drop)
  have "scan (BeginValue, []) (take s b @ w @ drop e b) = scan (scan (state_at b s) (w @ slice b e z)) (drop z b)"
    unfolding d by (simp add: scan_append state_take)
  also have "\<dots> = scan (state_at b z) (drop z b)" using q by simp
  also have "\<dots> = scan (BeginValue, []) b" using steps_drop [of 0 z "(BeginValue, [])" b] by simp
  finally have "scan (BeginValue, []) (take s b @ w @ drop e b) = scan (BeginValue, []) b" .
  moreover have "subseq (take s b @ slice b s e @ drop e b) (take s b @ w @ drop e b)"
    using assms(2) by (intro list_emb_append_mono) simp_all
  moreover have "length (take s b @ slice b s e @ drop e b) < length (take s b @ w @ drop e b)" using assms(3) by simp
  ultimately show ?thesis unfolding kept_def by (simp only: b [symmetric])
qed

lemma mark_object_kept:
  assumes "splice_walk.val data st ob" and "length st < 100" and "mark_object data ob = Some out"
  shows "kept data out" and "member_added data (drop (nat (End ob)) data) out"
proof -
  let ?p = "nat (Start ob)" and ?e = "nat (End ob)"
  obtain r where r: "AppendObjectFields data ob [cache_insertion] = Inr r" "out = r"
    using assms(3) by (auto simp: mark_object_def no_error_def split: sum.splits)
  have en: "ends data ob (CHR ''{'') (CHR ''}'')" using r by (simp add: AppendObjectFields_def split: if_splits)
  then have p: "0 \<le> Start ob" "data ! ?p = CHR ''{''" by (simp_all add: ends_def)
  let ?x = "back_over_space data (Suc ?p) (?e - 1)"
  have e: "nat (End ob - 1) = ?e - 1" by simp
  have out: "out = take ?x data @ ((if Suc ?p < ?x then '','' else []) @ cacheControlField) @ drop ?x data"
    using r en e by (auto simp: AppendObjectFields_def insert_at_eq cache_insertion_text join_with_def Let_def split: if_splits)
  have v: "value_span data st ?p ?e" using assms(1) by (simp add: splice_walk.val_def)
  show "kept data out" unfolding out
    by (rule one_edit [OF quiet_insert [OF v p(2) marker_scan [OF assms(2)] marker_hd]])
      (use marker_hd in \<open>simp_all add: slice_def\<close>)
  note io = insert_offset [OF v p(2)]
  have x: "?x \<le> skipSpace data ?x" "skipSpace data ?x < length data"
    using skipSpace_ge [of ?x data] io(2) value_span_end(3) [OF v] by simp_all
  define sp where "sp = takeWhile isSpace (drop ?x data)"
  have sp: "list_all isSpace sp" by (auto simp: sp_def list_all_iff dest: set_takeWhileD)
  have "slice data ?x ?e = sp @ ''}''" using slice_skip [of ?x data] x io(2,3) by (simp add: sp_def)
  moreover have "drop ?x data = slice data ?x ?e @ drop ?e data" using x io(2) by (simp add: slice_to_drop)
  ultimately have d: "drop ?x data = sp @ ''}'' @ drop ?e data" by simp
  have "data = take ?x data @ sp @ ''}'' @ drop ?e data" by (simp only: d [symmetric] append_take_drop_id)
  moreover have "out = take ?x data @ (if Suc ?p < ?x then '','' else []) @ cacheControlField @ sp @ ''}'' @ drop ?e data"
    by (simp only: out d append_assoc)
  ultimately show "member_added data (drop ?e data) out" by (rule member_addedI [OF _ sp])
qed

lemma text_block_longer: "k \<le> length s \<Longrightarrow> k < length (text_block s)"
  by (simp add: text_block_def)

section \<open>Where the marker goes\<close>

lemma last_tool_member: "last_tool data elements decoded = Some e \<Longrightarrow> e \<in> set elements"
proof -
  assume "last_tool data elements decoded = Some e"
  then obtain i where "(i, e) \<in> set (rev (enumerate 0 elements))" using find_member by (fastforce simp: last_tool_def)
  then show ?thesis by (auto dest: set_zip_rightD simp: enumerate_eq_zip)
qed

lemma inject_system_kept:
  assumes "Root data = Some root" and "inject_system data root = Some out"
  shows "kept data out \<and> (string_wrapped data out \<or> (\<exists>rest. member_added data rest out))"
proof -
  obtain v where v: "Field data root ''system'' = Some v" using assms(2) by (auto simp: inject_system_def split: option.splits)
  have a: "splice_walk.val data (in_member []) v" using splice_walk.val_field [OF Root_span(1) [OF assms(1)] v] by blast
  show ?thesis
  proof (cases "data ! nat (Start v) = CHR 0x22")
    case True
    then have "ReplaceRaw data v (text_block (slice data (nat (Start v)) (nat (End v)))) = Inr out"
      using assms(2) v by (auto simp: inject_system_def no_error_def split: if_splits sum.splits)
    then have out: "out = take (nat (Start v)) data @ text_block (slice data (nat (Start v)) (nat (End v))) @ drop (nat (End v)) data"
      by (auto simp: ReplaceRaw_def split: if_splits)
    have "kept data out"
      unfolding out by (rule one_edit [OF text_block_quiet [OF a True]]) (simp_all only: text_block_subseq text_block_longer order_refl, simp)
    moreover have "string_wrapped data out"
    proof -
      have vs: "value_span data (in_member []) (nat (Start v)) (nat (End v))" using a by (simp add: splice_walk.val_def)
      then obtain u where u: "slice data (nat (Start v)) (nat (End v)) = CHR 0x22 # u" using string_span_slice [OF vs True] by blast
      have "data = take (nat (Start v)) data @ slice data (nat (Start v)) (nat (End v)) @ drop (nat (End v)) data"
        by (simp only: slice_to_drop [OF less_imp_le [OF value_span_end(2) [OF vs]]] append_take_drop_id)
      then show ?thesis using out u unfolding string_wrapped_def by metis
    qed
    ultimately show ?thesis by blast
  next
    case False
    then obtain xs x where x: "Elements data v = Some xs" "find (opens_object data) (rev xs) = Some x" "mark_object data x = Some out"
      using assms(2) v by (auto simp: inject_system_def split: if_splits option.splits)
    have "x \<in> set xs" using find_member [OF x(2)] by simp
    then have "splice_walk.val data (in_array (in_member [])) x" using splice_walk.val_element [OF a x(1)] by blast
    from mark_object_kept [OF this _ x(3)] show ?thesis by auto
  qed
qed

lemma injectBreakpointRaw_kept:
  assumes "injectBreakpointRaw data decoded = Some out"
  shows "kept data out \<and> (string_wrapped data out \<or> (\<exists>rest. member_added data rest out))"
proof -
  obtain root where root: "Root data = Some root" using assms by (auto simp: injectBreakpointRaw_def split: option.splits)
  show ?thesis
  proof (cases "inject_system data root = Some out")
    case True
    then show ?thesis by (rule inject_system_kept [OF root])
  next
    case False
    then obtain v xs x where x: "Field data root ''tools'' = Some v" "Elements data v = Some xs"
      "last_tool data xs (decoded_slice decoded ''tools'') = Some x" "mark_object data x = Some out"
      using assms root by (auto simp: injectBreakpointRaw_def Let_def split: option.splits)
    have "splice_walk.val data (in_member []) v" using splice_walk.val_field [OF Root_span(1) [OF root] x(1)] by blast
    then have "splice_walk.val data (in_array (in_member [])) x"
      using splice_walk.val_element [OF _ x(2) last_tool_member [OF x(3)]] by blast
    from mark_object_kept [OF this _ x(4)] show ?thesis by auto
  qed
qed

text \<open>After the root object of a valid text there is only space.\<close>

lemma after_root: "value_span data [] p e \<Longrightarrow> list_all isSpace (drop e data)"
  using value_span_end(4) [of data "[]" p e]
  by (simp add: accepts_EndTop_scan [symmetric] accepts_EndTop_space list_all_iff isSpace_json)

lemma injectAutomatic_kept:
  assumes "injectAutomaticPromptCacheRaw data = Some out"
  shows "kept data out \<and> (\<exists>rest. list_all isSpace rest \<and> member_added data rest out)"
proof -
  obtain root where root: "Root data = Some root" "mark_object data root = Some out"
    using assms by (auto simp: injectAutomaticPromptCacheRaw_def split: option.splits)
  have "value_span data [] (nat (Start root)) (nat (End root))" using Root_span(1) [OF root(1)] by (simp add: splice_walk.val_def)
  from after_root [OF this] mark_object_kept [OF Root_span(1) [OF root(1)] _ root(2)] show ?thesis by auto
qed

lemma transform_result:
  fixes data err meta policy
  defines "r \<equiv> ApplyProviderNativeTransforms data err meta policy"
  shows "r = \<lparr>Body = data, OptimizerIDs = []\<rparr> \<or>
    json_valid data \<and> kept data (Body r) \<and>
    (OptimizerIDs r = [OptimizerID] \<and> (string_wrapped data (Body r) \<or> (\<exists>rest. member_added data rest (Body r)))
       \<and> Optimizers policy OptimizerID \<and> \<not> Optimizers policy AutomaticPromptCacheOptimizerID
     \<or> OptimizerIDs r = [AutomaticPromptCacheOptimizerID] \<and> (\<exists>rest. list_all isSpace rest \<and> member_added data rest (Body r))
       \<and> Optimizers policy AutomaticPromptCacheOptimizerID
       \<and> \<not> Optimizers policy OptimizerID \<and> automaticPromptCacheMessagesEndpoint meta)
    \<and> RuntimeMode policy \<noteq> ''record'' \<and> (AuthMode policy = [] \<or> AuthMode policy = ''payg'')
    \<and> (\<exists>root. unmarshal_map data = Some root \<and> \<not> containsJSONKey (GMap root) ''cache_control'')"
  unfolding r_def ApplyProviderNativeTransforms_def Let_def
  by (auto dest: unmarshal_map_valid injectBreakpointRaw_kept injectAutomatic_kept split: option.splits)

lemma transform_never_gives_up:
  assumes "unmarshal_map data = Some root" and "injectBreakpointRaw data root = Some out \<or> injectAutomaticPromptCacheRaw data = Some out"
  shows "json_valid out"
  using assms injectBreakpointRaw_kept injectAutomatic_kept unmarshal_map_valid by (fastforce simp: kept_def json_valid_def)

end
