(* ===== verification/Anthropic_Compress.thy ===== *)
theory Anthropic_Compress
  imports Json_Walk Big_Endian
begin

text \<open>
  What the Anthropic adapter lets the proxy rewrite, and what it calls the cached prefix
  (proxy/providers/anthropic/content_compress.go). \<open>best_of\<close> says that the environment asks for
  forced TOON candidates; \<open>nil\<close> segments of the code are empty lists here.
\<close>

section \<open>Bounds the collector's recursion needs\<close>

lemma findObjectField_start:
  assumes "findObjectField b ob f = Some v"
  shows "span_start ob < span_start v" "span_start v < length b"
proof -
  have l: "find_field_loop b (span_end ob) f (skipSpace b (Suc (span_start ob))) = Some v"
    using assms by (auto simp: findObjectField_def skip_eq split: if_splits)
  show "span_start ob < span_start v" "span_start v < length b"
    using find_field_loop_bounds [OF l] skipSpace_ge [of "Suc (span_start ob)" b] by simp_all
qed

lemma array_elements_from:
  "array_elements_loop b e i out = Some xs \<Longrightarrow> \<exists>bs. xs = out @ bs \<and> (\<forall>x \<in> set bs. i \<le> span_start x)"
proof (induction b e i out rule: array_elements_loop.induct)
  case (1 b e i out)
  show ?case
  proof (cases "i < e \<and> b ! i \<noteq> CHR '']''")
    case False
    then show ?thesis using "1.prems" by (subst (asm) array_elements_loop.simps) (auto split: if_splits)
  next
    case i: True
    then obtain v where v: "scanJSONValue b i = Some v"
      using "1.prems" by (subst (asm) array_elements_loop.simps) (auto split: option.splits)
    let ?n = "let s = skipJSONSpace b v in if s < e \<and> b ! s = CHR '','' then skipJSONSpace b (s + 1) else s"
    have "array_elements_loop b e ?n (out @ [\<lparr>span_start = i, span_end = v\<rparr>]) = Some xs"
      using "1.prems" i v by (subst (asm) array_elements_loop.simps) (simp add: Let_def cong: if_cong)
    with "1.IH" [of v "skipJSONSpace b v"] i v obtain bs where
      bs: "xs = (out @ [\<lparr>span_start = i, span_end = v\<rparr>]) @ bs" "\<forall>x \<in> set bs. ?n \<le> span_start x" by (auto simp: Let_def)
    have "v \<le> skipJSONSpace b v" "skipJSONSpace b v \<le> skipJSONSpace b (skipJSONSpace b v + 1)"
      using skipJSONSpace_ge [of v b] skipJSONSpace_ge [of "skipJSONSpace b v + 1" b] by simp_all
    then have "i \<le> ?n" using scanJSONValue_bounds [OF v] by (simp add: Let_def)
    then show ?thesis using bs by (intro exI [of _ "\<lparr>span_start = i, span_end = v\<rparr> # bs"]) auto
  qed
qed

lemma arrayElements_start:
  "arrayElements b arr = Some xs \<Longrightarrow> x \<in> set xs \<Longrightarrow> span_start arr < span_start x"
  using array_elements_from [of b "span_end arr" "skipJSONSpace b (span_start arr + 1)" "[]" xs]
    skipJSONSpace_ge [of "span_start arr + 1" b]
  by (auto simp: arrayElements_def split: if_splits)

section \<open>Candidates\<close>

definition minCompressBlockBytes :: nat where
  "minCompressBlockBytes = 512"

definition IsRecoveryToolName :: "bytes \<Rightarrow> bool" where
  "IsRecoveryToolName name \<longleftrightarrow>
     name = ''caveman_retrieve'' \<or> name = ''mcp__caveman__caveman_retrieve'' \<or> name = ''caveman_caveman_retrieve''
     \<or> name = ''mcp__plugin_caveman-wrap_caveman__caveman_retrieve''"

definition forcedTOONCandidate :: "bool \<Rightarrow> bytes \<Rightarrow> bool" where
  "forcedTOONCandidate best_of orig =
     (if \<not> best_of then False
      else let trimmed = trim_space orig in trimmed \<noteq> [] \<and> (hd trimmed = CHR ''{'' \<or> hd trimmed = CHR ''[''))"

definition collectStringCandidate :: "bool \<Rightarrow> bytes \<Rightarrow> jsonSpan \<Rightarrow> bool \<Rightarrow> bytes \<Rightarrow> spliceCandidate list" where
  "collectStringCandidate best_of body s allowForcedTOON kind =
     (case decodeJSONString (slice body (span_start s) (span_end s)) of
        None \<Rightarrow> []
      | Some v \<Rightarrow>
          if length v < minCompressBlockBytes \<and> \<not> (allowForcedTOON \<and> forcedTOONCandidate best_of v) then []
          else [\<lparr>span_start = span_start s, span_end = span_end s, original = v, cand_kind = kind\<rparr>])"

definition opens_array :: "bytes \<Rightarrow> jsonSpan \<Rightarrow> bool" where
  "opens_array body s \<longleftrightarrow> span_start s < span_end s \<and> body ! span_start s = CHR ''[''"

text \<open>The blocks of an array, a tool result's own blocks included.\<close>

function collectAnthropicBlocks :: "bool \<Rightarrow> bytes \<Rightarrow> jsonSpan \<Rightarrow> bool \<Rightarrow> bytes set \<Rightarrow> spliceCandidate list" where
  "collectAnthropicBlocks best_of body blocksSpan inToolResult recovered =
     (case arrayElements body blocksSpan of
        None \<Rightarrow> []
      | Some blocks \<Rightarrow>
          concat (map (\<lambda>block.
            if \<not> object_block body block then []
            else case objectStringField body block ''type'' of
              None \<Rightarrow> []
            | Some kind0 \<Rightarrow>
                if kind0 = ''text'' then
                  (case findObjectField body block ''text'' of
                     None \<Rightarrow> []
                   | Some textSpan \<Rightarrow>
                       if isJSONString body textSpan then
                         collectStringCandidate best_of body textSpan inToolResult
                           (if inToolResult then ''tool_result'' else ''history'')
                       else [])
                else if kind0 = ''tool_result'' then
                  (if (case objectStringField body block ''tool_use_id'' of None \<Rightarrow> False | Some i \<Rightarrow> i \<in> recovered) then []
                   else case findObjectField body block ''content'' of
                     None \<Rightarrow> []
                   | Some content \<Rightarrow>
                       if isJSONString body content then collectStringCandidate best_of body content True ''tool_result''
                       else if opens_array body content then collectAnthropicBlocks best_of body content True recovered
                       else [])
                else []) blocks))"
  by pat_completeness auto
termination
proof (relation "measure (\<lambda>(_, body, s, _, _). length body - span_start s)", goal_cases)
  case (2 best_of body blocksSpan inToolResult recovered blocks block kind0 content)
  then have "span_start blocksSpan < span_start block" "span_start block < span_start content" "span_start content < length body"
    using arrayElements_start findObjectField_start by blast+
  then show ?case by simp
qed simp

declare collectAnthropicBlocks.simps [simp del]

definition collectAnthropicCandidates :: "bool \<Rightarrow> bytes \<Rightarrow> jsonSpan \<Rightarrow> bytes set \<Rightarrow> spliceCandidate list" where
  "collectAnthropicCandidates best_of body msg recovered =
     (case findObjectField body msg ''content'' of
        None \<Rightarrow> []
      | Some content \<Rightarrow>
          if isJSONString body content then collectStringCandidate best_of body content False ''history''
          else if opens_array body content then collectAnthropicBlocks best_of body content False recovered
          else [])"

definition messageRole :: "bytes \<Rightarrow> jsonSpan \<Rightarrow> bytes" where
  "messageRole body msg = (case objectStringField body msg ''role'' of None \<Rightarrow> [] | Some role \<Rightarrow> role)"

text \<open>The ids of the recovery calls of one assistant message.\<close>

definition recovery_ids :: "bytes \<Rightarrow> jsonSpan \<Rightarrow> bytes list" where
  "recovery_ids body msg =
     (if messageRole body msg \<noteq> ''assistant'' then []
      else case findObjectField body msg ''content'' of
        None \<Rightarrow> []
      | Some content \<Rightarrow>
          if \<not> opens_array body content then []
          else case arrayElements body content of
            None \<Rightarrow> []
          | Some blocks \<Rightarrow>
              List.map_filter (\<lambda>block.
                if \<not> object_block body block \<or> objectStringField body block ''type'' \<noteq> Some ''tool_use'' then None
                else if \<not> (case objectStringField body block ''name'' of None \<Rightarrow> False | Some n \<Rightarrow> IsRecoveryToolName n) then None
                else case objectStringField body block ''id'' of
                  None \<Rightarrow> None
                | Some i \<Rightarrow> if i = [] then None else Some i) blocks)"

definition recoveryToolUseIDs :: "bytes \<Rightarrow> jsonSpan list \<Rightarrow> bytes set" where
  "recoveryToolUseIDs body messageSpans = set (concat (map (recovery_ids body) messageSpans))"

section \<open>The live zone\<close>

text \<open>The spans of the messages, when the body is a request the adapter reads.\<close>

definition message_spans :: "bytes \<Rightarrow> jsonSpan list option" where
  "message_spans body =
     (case rootObjectSpan body of
        None \<Rightarrow> None
      | Some root \<Rightarrow>
          (case findObjectField body root ''messages'' of
             None \<Rightarrow> None
           | Some ms \<Rightarrow> if \<not> first_is body (span_start ms) (CHR ''['') then None else arrayElements body ms))"

definition span_bytes :: "bytes \<Rightarrow> jsonSpan \<Rightarrow> bytes" where
  "span_bytes body s = slice body (span_start s) (span_end s)"

definition count_tokens_endpoint :: "RequestMetadata \<Rightarrow> bool" where
  "count_tokens_endpoint meta \<longleftrightarrow> contains (Endpoint meta) ''count_tokens''"

text \<open>\<open>live\<close> lists the live indices.\<close>

definition live_indices :: "bytes \<Rightarrow> jsonSpan list \<Rightarrow> nat list" where
  "live_indices body messageSpans =
     (let raws = map (span_bytes body) messageSpans;
          fl = nat (ComputeFrozenCount raws);
          rest = [fl..<length messageSpans];
          role = \<lambda>i. messageRole body (messageSpans ! i)
      in if messagesHaveContentCacheControl raws then filter (\<lambda>i. role i = ''user'' \<or> role i = ''system'') rest
         else (case find (\<lambda>i. role i = ''user'') (rev rest) of None \<Rightarrow> [] | Some i \<Rightarrow> [i]))"

definition messageZones :: "bytes \<Rightarrow> RequestMetadata \<Rightarrow> (jsonSpan list \<times> nat list) option" where
  "messageZones body meta =
     (if count_tokens_endpoint meta then None
      else case message_spans body of
        None \<Rightarrow> None
      | Some ms \<Rightarrow> if ms = [] then None else Some (ms, live_indices body ms))"

section \<open>Extraction\<close>

text \<open>
  The candidates are what the code's closure \<open>reassemble\<close> closes over; the segments it returns are
  their originals.
\<close>

definition ExtractCompressible :: "bool \<Rightarrow> bytes \<Rightarrow> RequestMetadata \<Rightarrow> spliceCandidate list option" where
  "ExtractCompressible best_of body meta =
     (case messageZones body meta of
        None \<Rightarrow> None
      | Some (ms, live) \<Rightarrow>
          if live = [] then None
          else
            let recovered = recoveryToolUseIDs body ms;
                candidates = concat (map (\<lambda>i. collectAnthropicCandidates best_of body (ms ! i) recovered)
                  (filter (\<lambda>i. i \<in> set live) [0..<length ms]))
            in if candidates = [] then None else Some candidates)"

record RewritableBlock =
  Content :: bytes
  Live :: bool
  Kind :: bytes

definition ExtractStabilizable :: "bool \<Rightarrow> bytes \<Rightarrow> RequestMetadata \<Rightarrow> (RewritableBlock list \<times> spliceCandidate list) option" where
  "ExtractStabilizable best_of body meta =
     (case messageZones body meta of
        None \<Rightarrow> None
      | Some (ms, live) \<Rightarrow>
          let recovered = recoveryToolUseIDs body ms;
              pairs = concat (map (\<lambda>i. map (Pair i) (collectAnthropicCandidates best_of body (ms ! i) recovered))
                (filter (\<lambda>i. i \<in> set live \<or> messageRole body (ms ! i) = ''user'' \<or> messageRole body (ms ! i) = ''system'')
                  [0..<length ms]))
          in if pairs = [] then None
             else Some (map (\<lambda>(i, c). \<lparr>Content = original c, Live = (i \<in> set live), Kind = cand_kind c\<rparr>) pairs, map snd pairs))"

definition reassemble :: "bytes \<Rightarrow> spliceCandidate list \<Rightarrow> bytes option list \<Rightarrow> splice_error + bytes" where
  "reassemble body candidates reps = spliceStringReplacements body candidates reps"

section \<open>The cached prefix\<close>

definition frozenField :: "bytes \<Rightarrow> bytes \<Rightarrow> bytes" where
  "frozenField name v = be_bytes 4 (length name mod 2 ^ 32) @ be_bytes 4 (length v mod 2 ^ 32) @ name @ v"

text \<open>A top-level value without its markers; a missing field is no bytes.\<close>

definition bare_field :: "bytes \<Rightarrow> jsonSpan \<Rightarrow> bytes \<Rightarrow> bytes" where
  "bare_field body root name =
     (case findObjectField body root name of None \<Rightarrow> [] | Some s \<Rightarrow> stripCacheControl (span_bytes body s))"

definition message_component :: "bytes \<Rightarrow> jsonSpan \<Rightarrow> bytes" where
  "message_component body s = frozenField ''message'' (stripCacheControl (span_bytes body s))"

definition FrozenPrefixComponents :: "bytes \<Rightarrow> RequestMetadata \<Rightarrow> bytes list option" where
  "FrozenPrefixComponents body meta =
     (if count_tokens_endpoint meta then None
      else case rootObjectSpan body of
        None \<Rightarrow> None
      | Some root \<Rightarrow>
          (case message_spans body of
             None \<Rightarrow> None
           | Some ms \<Rightarrow>
               let fl = ComputeFrozenCount (map (span_bytes body) ms) in
               if fl < 0 \<or> fl > int (length ms) then None
               else Some (''cave.anthropic.frozen-prefix.v1''
                 # map (\<lambda>name. frozenField name (bare_field body root name)) [''system'', ''tools'']
                 @ map (message_component body) (take (nat fl) ms))))"

text \<open>\<open>cached\<close>: how many of the components the request caches.\<close>

fun cached_messages :: "bytes \<Rightarrow> jsonSpan list \<Rightarrow> nat \<Rightarrow> nat \<Rightarrow> nat" where
  "cached_messages body [] n cached = cached"
| "cached_messages body (s # ms) n cached =
     cached_messages body ms (n + 1) (if messageHasContentCacheControl (span_bytes body s) then n + 1 else cached)"

definition field_is_marked :: "bytes \<Rightarrow> jsonSpan \<Rightarrow> bytes \<Rightarrow> bool" where
  "field_is_marked body root name =
     (case findObjectField body root name of
        None \<Rightarrow> False
      | Some s \<Rightarrow> length (stripCacheControl (span_bytes body s)) \<noteq> span_end s - span_start s)"

definition CachedPrefixComponents :: "bytes \<Rightarrow> (bytes list \<times> nat) option" where
  "CachedPrefixComponents body =
     (case rootObjectSpan body of
        None \<Rightarrow> None
      | Some root \<Rightarrow>
          (case message_spans body of
             None \<Rightarrow> None
           | Some ms \<Rightarrow>
               let comps = map (\<lambda>name. frozenField name (bare_field body root name)) [''system'', ''tools'']
                     @ map (message_component body) ms;
                   fields = (if field_is_marked body root ''system'' \<or> field_is_marked body root ''tools'' then 2 else 0);
                   cached = cached_messages body ms 2 fields
               in Some (comps, if findObjectField body root ''cache_control'' \<noteq> None then length comps else cached)))"

definition adapter_CachedPrefixComponents :: "bytes \<Rightarrow> RequestMetadata \<Rightarrow> (bytes list \<times> nat) option" where
  "adapter_CachedPrefixComponents body meta =
     (if count_tokens_endpoint meta then None else CachedPrefixComponents body)"

end
