(* ===== verification/Anthropic_Compress_Facts.thy ===== *)
theory Anthropic_Compress_Facts
  imports Anthropic_Compress Json_Insert
begin

text \<open>
  What may be rewritten: on a valid body every candidate is a string token of a live message, the
  candidates stand apart in order, and putting replacements in always succeeds, gives a valid body
  and leaves the frozen messages as they came.
\<close>

section \<open>The adapter's splicer is jsonsplice's\<close>

definition to_Candidate :: "spliceCandidate \<Rightarrow> Candidate" where
  "to_Candidate c = \<lparr>Start = int (span_start c), End = int (span_end c), Original = original c\<rparr>"

lemma splice_loop_eq:
  "Replace_loop body (map (map_prod to_Candidate id) cs) out (int l) =
     map_sum id (map_prod id int) (splice_loop body cs out l)"
proof (induction cs arbitrary: out l)
  case (Cons cr cs)
  obtain c r where cr: "cr = (c, r)" by force
  show ?case using Cons.IH
    by (auto simp: cr to_Candidate_def quote_def quoteJSONStringNoHTML_def split: option.splits)
qed simp

lemma spliceStringReplacements_eq:
  "spliceStringReplacements body cs reps = Replace body (map to_Candidate cs) reps"
proof -
  have "zip (map to_Candidate cs) reps = map (map_prod to_Candidate id) (zip cs reps)" by (simp add: zip_map1 map_prod_def)
  then show ?thesis using splice_loop_eq [of body "zip cs reps" None 0]
    by (cases "splice_loop body (zip cs reps) None 0")
      (auto simp: spliceStringReplacements_def Replace_def map_prod_def split: option.splits)
qed

section \<open>Candidates\<close>

definition string_candidate :: "bytes \<Rightarrow> spliceCandidate \<Rightarrow> bool" where
  "string_candidate b c \<longleftrightarrow> b ! span_start c = CHR 0x22 \<and> (\<exists>st. value_span b st (span_start c) (span_end c))"

lemma string_candidate_token: "string_candidate b c \<Longrightarrow> string_token b (to_Candidate c)"
proof -
  assume "string_candidate b c"
  then obtain st where q: "b ! span_start c = CHR 0x22" and v: "value_span b st (span_start c) (span_end c)"
    by (auto simp: string_candidate_def)
  have p: "span_start c < length b" using v by (simp add: value_span_def)
  have "scan (BeginValue, []) (take (Suc (span_start c)) b) = (InString, st)"
    using value_span_first [OF v] q p
    by (simp add: take_Suc_conv_app_nth scan_append state_take begin_value_def is_json_space_def)
  moreover obtain u where "state_at b (span_end c) = (EndValue, st)" using string_span_slice [OF v q] by blast
  ultimately show ?thesis using value_span_end(2,3) [OF v] q by (auto simp: string_token_def to_Candidate_def state_take)
qed

text \<open>Candidates in order inside a span.\<close>

definition in_span :: "bytes \<Rightarrow> nat \<Rightarrow> nat \<Rightarrow> spliceCandidate list \<Rightarrow> bool" where
  "in_span b l h cs \<longleftrightarrow>
     (\<forall>c \<in> set cs. string_candidate b c \<and> l \<le> span_start c \<and> span_end c \<le> h)
     \<and> sorted_wrt (\<lambda>x y. span_end x < span_start y) cs"

lemma in_span_Nil [simp]: "in_span b l h []"
  by (simp add: in_span_def)

lemma in_span_mono: "in_span b l h cs \<Longrightarrow> l' \<le> l \<Longrightarrow> h \<le> h' \<Longrightarrow> in_span b l' h' cs"
  by (fastforce simp: in_span_def)

lemma in_span_concat:
  "sorted_wrt (\<lambda>x y. hi x < lo y) xs \<Longrightarrow> (\<And>x. x \<in> set xs \<Longrightarrow> in_span b (lo x) (hi x) (f x) \<and> l \<le> lo x \<and> hi x \<le> h) \<Longrightarrow>
     in_span b l h (concat (map f xs))"
proof (induction xs)
  case (Cons x xs)
  have x: "in_span b (lo x) (hi x) (f x)" "l \<le> lo x" "hi x \<le> h" using Cons.prems by auto
  have rest: "in_span b l h (concat (map f xs))" using Cons by auto
  have "span_end c < span_start d" if "c \<in> set (f x)" "d \<in> set (f y)" "y \<in> set xs" for c d y
  proof -
    have "span_end c \<le> hi x" using x(1) that(1) by (simp add: in_span_def)
    also have "\<dots> < lo y" using Cons.prems(1) that(3) by simp
    also have "\<dots> \<le> span_start d" using Cons.prems(2) [of y] that by (simp add: in_span_def)
    finally show ?thesis .
  qed
  then show ?case using x rest by (fastforce simp: in_span_def sorted_wrt_append)
qed simp

lemma collect_string_in_span:
  "value_span b st (span_start s) (span_end s) \<Longrightarrow> isJSONString b s \<Longrightarrow> l \<le> span_start s \<Longrightarrow> span_end s \<le> h \<Longrightarrow>
     in_span b l h (collectStringCandidate best_of b s forced kind)"
  by (auto simp: collectStringCandidate_def in_span_def string_candidate_def isJSONString_def split: option.splits)

lemma blocks_in_span:
  "adapter_walk.val b st s \<Longrightarrow> in_span b (span_start s) (span_end s) (collectAnthropicBlocks best_of b s inToolResult recovered)"
proof (induction best_of b s inToolResult recovered arbitrary: st rule: collectAnthropicBlocks.induct)
  case (1 best_of b s inToolResult recovered)
  show ?case
  proof (cases "arrayElements b s")
    case None
    then show ?thesis by (subst collectAnthropicBlocks.simps) simp
  next
    case (Some blocks)
    have field: "adapter_walk.val b (in_member (in_array st)) v \<and> adapter_walk.within v x"
      if x: "x \<in> set blocks" and v: "findObjectField b x f = Some v" for x v f
      using adapter_walk.val_field [OF _ v] adapter_walk.val_element [OF "1.prems" Some x] by blast
    show ?thesis
    proof (subst collectAnthropicBlocks.simps, unfold Some option.case, rule in_span_concat [where lo = span_start and hi = span_end])
      show "apart blocks" using adapter_walk.elements_apart "1.prems" Some unfolding adapter_walk.val_def by blast
      fix x
      assume x: "x \<in> set blocks"
      then have "span_start s \<le> span_start x \<and> span_end x \<le> span_end s"
        using adapter_walk.val_element [OF "1.prems" Some x] by (simp add: adapter_walk.within_def)
      moreover have "in_span b (span_start x) (span_end x) (collectAnthropicBlocks best_of b v True recovered)"
        if "object_block b x" "objectStringField b x ''type'' = Some k" "k \<noteq> ''text''" "k = ''tool_result''"
          "\<not> (case objectStringField b x ''tool_use_id'' of None \<Rightarrow> False | Some i \<Rightarrow> i \<in> recovered)"
          "findObjectField b x ''content'' = Some v" "\<not> isJSONString b v" "opens_array b v" for k v
      proof -
        have w: "adapter_walk.val b (in_member (in_array st)) v" "adapter_walk.within v x" using field [OF x that(6)] by blast+
        have "in_span b (span_start v) (span_end v) (collectAnthropicBlocks best_of b v True recovered)"
          by (rule "1.IH" [OF Some x _ that(2,3,4) _ that(6,7,8) w(1)]) (use that in simp_all)
        then show ?thesis using w(2) by (auto simp: adapter_walk.within_def intro: in_span_mono)
      qed
      moreover have "in_span b (span_start x) (span_end x) (collectStringCandidate best_of b v forced kind)"
        if "findObjectField b x f = Some v" "isJSONString b v" for v f forced kind
        using field [OF x that(1)] that(2)
        by (intro collect_string_in_span) (auto simp: adapter_walk.val_def adapter_walk.within_def)
      ultimately show "in_span b (span_start x) (span_end x)
          (if \<not> object_block b x then []
           else case objectStringField b x ''type'' of
              None \<Rightarrow> []
            | Some typ \<Rightarrow>
                if typ = ''text'' then
                  (case findObjectField b x ''text'' of
                     None \<Rightarrow> []
                   | Some textSpan \<Rightarrow>
                       if isJSONString b textSpan then
                         collectStringCandidate best_of b textSpan inToolResult
                           (if inToolResult then ''tool_result'' else ''history'')
                       else [])
                else if typ = ''tool_result'' then
                  (if (case objectStringField b x ''tool_use_id'' of None \<Rightarrow> False | Some i \<Rightarrow> i \<in> recovered) then []
                   else case findObjectField b x ''content'' of
                     None \<Rightarrow> []
                   | Some content \<Rightarrow>
                       if isJSONString b content then collectStringCandidate best_of b content True ''tool_result''
                       else if opens_array b content then collectAnthropicBlocks best_of b content True recovered
                       else [])
                else []) \<and> span_start s \<le> span_start x \<and> span_end x \<le> span_end s"
        by (simp split: option.split)
    qed
  qed
qed

lemma candidates_in_span:
  assumes "adapter_walk.val b st msg"
  shows "in_span b (span_start msg) (span_end msg) (collectAnthropicCandidates best_of b msg recovered)"
proof (cases "findObjectField b msg ''content''")
  case None
  then show ?thesis by (simp add: collectAnthropicCandidates_def)
next
  case (Some c)
  note w = adapter_walk.val_field [OF assms Some]
  have "in_span b (span_start msg) (span_end msg) (collectStringCandidate best_of b c False ''history'')" if "isJSONString b c"
    using w that by (intro collect_string_in_span) (auto simp: adapter_walk.val_def adapter_walk.within_def)
  moreover have "in_span b (span_start msg) (span_end msg) (collectAnthropicBlocks best_of b c False recovered)"
    using w by (auto simp: adapter_walk.within_def intro: in_span_mono [OF blocks_in_span])
  ultimately show ?thesis using Some by (simp add: collectAnthropicCandidates_def)
qed

section \<open>The messages\<close>

lemma message_spans_val:
  assumes "json_valid b" and "message_spans b = Some ms"
  shows "apart ms" and "m \<in> set ms \<Longrightarrow> \<exists>st. adapter_walk.val b st m"
proof -
  obtain root v where r: "rootObjectSpan b = Some root" "findObjectField b root ''messages'' = Some v" "arrayElements b v = Some ms"
    using assms(2) by (auto simp: message_spans_def split: option.splits if_splits)
  obtain e where e: "value_span b [] (skipSpace b 0) e" using value_span_root [OF assms(1)] by blast
  then have "root = \<lparr>span_start = skipSpace b 0, span_end = e\<rparr>"
    using r(1) by (auto simp: rootObjectSpan_def Let_def skip_eq value_span_def split: if_splits option.splits)
  then have "adapter_walk.val b [] root" using e by (simp add: adapter_walk.val_def)
  from adapter_walk.val_field [OF this r(2)] have v: "adapter_walk.val b (in_member []) v" ..
  then show "apart ms" using adapter_walk.elements_apart r(3) unfolding adapter_walk.val_def by blast
  show "\<exists>st. adapter_walk.val b st m" if "m \<in> set ms" using adapter_walk.val_element [OF v r(3) that] by blast
qed

lemma chosen_in_span:
  assumes "json_valid b" and "message_spans b = Some ms" and "\<forall>i \<in> set is. k \<le> i \<and> i < length ms" and "sorted_wrt (<) is"
    and "k < length ms"
  shows "in_span b (span_start (ms ! k)) (length b) (concat (map (\<lambda>i. collectAnthropicCandidates best_of b (ms ! i) recovered) is))"
proof (rule in_span_concat [where lo = "\<lambda>i. span_start (ms ! i)" and hi = "\<lambda>i. span_end (ms ! i)"])
  note ap = message_spans_val(1) [OF assms(1,2)]
  have lt: "span_end (ms ! i) < span_start (ms ! j)" if "i < j" "j < length ms" for i j
    using ap that by (simp add: sorted_wrt_iff_nth_less)
  show "sorted_wrt (\<lambda>i j. span_end (ms ! i) < span_start (ms ! j)) is"
    using assms(3,4) lt by (auto simp: sorted_wrt_iff_nth_less)
  fix i
  assume i: "i \<in> set is"
  then have il: "i < length ms" "k \<le> i" using assms(3) by auto
  then obtain st where v: "adapter_walk.val b st (ms ! i)" using message_spans_val(2) [OF assms(1,2)] by (meson nth_mem)
  have "span_start (ms ! k) \<le> span_start (ms ! i)"
  proof (cases "i = k")
    case False
    obtain st' where "adapter_walk.val b st' (ms ! k)" using message_spans_val(2) [OF assms(1,2)] assms(5) by (meson nth_mem)
    then have "span_start (ms ! k) < span_end (ms ! k)" by (rule adapter_walk.val_bounds [THEN conjunct1])
    then show ?thesis using lt [of k i] il False by simp
  qed simp
  then show "in_span b (span_start (ms ! i)) (span_end (ms ! i)) (collectAnthropicCandidates best_of b (ms ! i) recovered)
      \<and> span_start (ms ! k) \<le> span_start (ms ! i) \<and> span_end (ms ! i) \<le> length b"
    using candidates_in_span [OF v] adapter_walk.val_bounds [OF v] by blast
qed

section \<open>The floor\<close>

lemma frozen_floor_bounds: "0 \<le> fl \<Longrightarrow> fl \<le> i \<Longrightarrow> 0 \<le> frozen_floor ms i fl \<and> frozen_floor ms i fl \<le> i + int (length ms)"
  by (induction ms i fl rule: frozen_floor.induct) force+

lemma ComputeFrozenCount_bounds:
  "0 \<le> ComputeFrozenCount ms \<and> (ms \<noteq> [] \<longrightarrow> ComputeFrozenCount ms < int (length ms)) \<and> (ms = [] \<longrightarrow> ComputeFrozenCount ms = 0)"
  using frozen_floor_bounds [of 0 0 ms] by (cases ms) (auto simp: ComputeFrozenCount_def Let_def)

lemma frozen_floor_above:
  "fl \<le> i \<Longrightarrow> fl \<le> frozen_floor ms i fl \<and> (j < length ms \<longrightarrow> messageHasContentCacheControl (ms ! j) \<longrightarrow> i + int j < frozen_floor ms i fl)"
proof (induction ms i fl arbitrary: j rule: frozen_floor.induct)
  case (2 raw ms i fl)
  let ?fl = "if messageHasContentCacheControl raw then i + 1 else fl"
  have "?fl \<le> i + 1" "fl \<le> ?fl" using "2.prems" by simp_all
  with "2.IH" show ?case by (cases j) (fastforce simp: algebra_simps)+
qed simp

lemma frozen_floor_marker:
  "frozen_floor ms i fl = fl \<or>
     (\<exists>j < length ms. frozen_floor ms i fl = i + int j + 1 \<and> messageHasContentCacheControl (ms ! j))"
proof (induction ms i fl rule: frozen_floor.induct)
  case (2 raw ms i fl)
  then consider "frozen_floor (raw # ms) i fl = (if messageHasContentCacheControl raw then i + 1 else fl)"
    | j where "j < length ms" "frozen_floor (raw # ms) i fl = i + 1 + int j + 1" "messageHasContentCacheControl (ms ! j)" by auto
  then show ?case
  proof cases
    case 1
    then show ?thesis by (cases "messageHasContentCacheControl raw") (auto intro: exI [of _ 0])
  next
    case 2
    then show ?thesis by (intro disjI2 exI [of _ "Suc j"]) simp
  qed
qed simp

lemma ComputeFrozenCount_cases:
  "ms \<noteq> [] \<Longrightarrow>
     ComputeFrozenCount ms = frozen_floor ms 0 0 \<or>
     frozen_floor ms 0 0 = int (length ms) \<and>
       (ComputeFrozenCount ms = int (length ms) - 1 \<or> ComputeFrozenCount ms = int (length ms) - 2)"
  using frozen_floor_bounds [of 0 0 ms] by (cases ms) (auto simp: ComputeFrozenCount_def Let_def)

text \<open>At or past the count only the last two messages may be marked.\<close>

lemma frozen_count_past:
  assumes "nat (ComputeFrozenCount ms) \<le> j" and "j + 2 < length ms"
  shows "\<not> messageHasContentCacheControl (ms ! j)"
proof
  assume m: "messageHasContentCacheControl (ms ! j)"
  then have "int j < frozen_floor ms 0 0" using frozen_floor_above [of 0 0 ms j] assms(2) by simp
  moreover have "ms \<noteq> []" using assms(2) by auto
  ultimately show False using ComputeFrozenCount_cases [of ms] assms by auto
qed

lemma frozen_count_marker:
  assumes "0 < ComputeFrozenCount ms"
  shows "\<exists>j < length ms. ComputeFrozenCount ms \<le> int j + 1 \<and> messageHasContentCacheControl (ms ! j)"
proof -
  have "ms \<noteq> []" using assms by (auto simp: ComputeFrozenCount_def)
  then have c: "ComputeFrozenCount ms \<le> frozen_floor ms 0 0" using ComputeFrozenCount_cases [of ms] by auto
  then obtain j where "j < length ms" "frozen_floor ms 0 0 = int j + 1" "messageHasContentCacheControl (ms ! j)"
    using frozen_floor_marker [of ms 0 0] assms by auto
  then show ?thesis using c by auto
qed

definition floor_of :: "bytes \<Rightarrow> jsonSpan list \<Rightarrow> nat" where
  "floor_of b ms = nat (ComputeFrozenCount (map (span_bytes b) ms))"

lemma floor_of_less: "ms \<noteq> [] \<Longrightarrow> floor_of b ms < length ms"
  using ComputeFrozenCount_bounds [of "map (span_bytes b) ms"] by (auto simp: floor_of_def)

lemma live_index:
  assumes "i \<in> set (live_indices b ms)"
  shows "floor_of b ms \<le> i" "i < length ms" "messageRole b (ms ! i) = ''user'' \<or> messageRole b (ms ! i) = ''system''"
  using assms find_member [of "\<lambda>i. messageRole b (ms ! i) = ''user''" "rev [floor_of b ms..<length ms]"]
  by (auto simp: live_indices_def Let_def floor_of_def split: if_splits option.splits)

section \<open>Reassembly\<close>

lemma splice_total:
  assumes "in_span b l h cs" and "h \<le> length b" and "j \<le> l"
  shows "\<exists>r. splice_loop b (zip cs rs) out j = Inr r"
proof -
  have "\<forall>c \<in> set cs. j \<le> span_start c \<and> span_start c < span_end c \<and> span_end c \<le> length b"
    "sorted_wrt (\<lambda>x y. span_end x < span_start y) cs"
    using assms value_span_end(2) by (fastforce simp: in_span_def string_candidate_def)+
  then show ?thesis
  proof (induction cs arbitrary: rs out j)
    case (Cons c cs)
    show ?case
    proof (cases rs)
      case rs: (Cons r rs')
      have "\<exists>s. splice_loop b (zip cs rs') out' j' = Inr s" if "j' = j \<or> j' = span_end c" for out' j'
        using that Cons.prems by (intro Cons.IH) force+
      then show ?thesis using Cons.prems by (auto simp: rs split: option.splits)
    qed simp
  qed simp
qed

text \<open>What comes before the first candidate stays.\<close>

lemma splice_front:
  "splice_loop b crs out j = Inr (o2, l2) \<Longrightarrow> \<forall>c \<in> fst ` set crs. k \<le> span_start c \<Longrightarrow>
   (case out of None \<Rightarrow> j = 0 | Some x \<Rightarrow> take k x = take k b \<and> k \<le> length x) \<Longrightarrow>
     (case o2 of None \<Rightarrow> l2 = 0 | Some x \<Rightarrow> take k x = take k b \<and> k \<le> length x)"
proof (induction crs arbitrary: out j)
  case (Cons cr crs)
  obtain c r where cr: "cr = (c, r)" by force
  have c: "k \<le> span_start c" "span_start c < length b" "j \<le> span_start c"
    using Cons.prems(1,2) by (auto simp: cr split: if_splits)
  show ?case
  proof (cases "r = None \<or> r = Some (original c)")
    case True
    then have "splice_loop b crs out j = Inr (o2, l2)" using Cons.prems(1) by (auto simp: cr split: if_splits)
    then show ?thesis using Cons.prems by (intro Cons.IH [of out j]) auto
  next
    case False
    then obtain t where t: "r = Some t" "t \<noteq> original c" by auto
    let ?x = "(case out of None \<Rightarrow> [] | Some x \<Rightarrow> x) @ slice b j (span_start c) @ quoteJSONStringNoHTML t"
    have "splice_loop b crs (Some ?x) (span_end c) = Inr (o2, l2)" using Cons.prems(1) t by (auto simp: cr split: if_splits)
    moreover have "take k ?x = take k b \<and> k \<le> length ?x"
      using Cons.prems(3) c by (cases out) (auto simp: slice_def min_def)
    ultimately show ?thesis using Cons.prems(2) by (intro Cons.IH [of "Some ?x" "span_end c"]) auto
  qed
qed simp

lemma reassemble_total:
  assumes "in_span b l (length b) cs" and "json_valid b" and "length rs = length cs"
  shows "\<exists>out. reassemble b cs rs = Inr out \<and> json_valid out \<and> take l out = take l b"
proof -
  have tok: "c \<in> set (map to_Candidate cs) \<Longrightarrow> string_token b c" for c
    using assms(1) string_candidate_token by (auto simp: in_span_def)
  obtain o2 l2 where r: "splice_loop b (zip cs rs) None 0 = Inr (o2, l2)"
    using splice_total [OF assms(1), of 0 rs None] by auto
  then obtain out where out: "spliceStringReplacements b cs rs = Inr out" "out = (case o2 of None \<Rightarrow> b | Some x \<Rightarrow> x @ drop l2 b)"
    using assms(3) by (cases o2) (auto simp: spliceStringReplacements_def)
  then have "Replace b (map to_Candidate cs) rs = Inr out" by (simp add: spliceStringReplacements_eq)
  with Replace_keeps_valid [OF tok] assms(2) have "json_valid out" by blast
  moreover have "\<forall>c \<in> fst ` set (zip cs rs). l \<le> span_start c"
    using assms(1) by (auto simp: in_span_def dest: set_zip_leftD)
  from splice_front [OF r this] have "take l out = take l b" using out(2) by (cases o2) auto
  ultimately show ?thesis using out(1) by (simp add: reassemble_def)
qed

section \<open>Both extractors\<close>

lemma extract_in_span:
  assumes "json_valid b" and "ExtractCompressible best_of b meta = Some cs"
  obtains ms where "message_spans b = Some ms" "ms \<noteq> []" "in_span b (span_start (ms ! floor_of b ms)) (length b) cs"
proof -
  obtain ms where ms: "message_spans b = Some ms" "ms \<noteq> []"
    and cs: "cs = concat (map (\<lambda>i. collectAnthropicCandidates best_of b (ms ! i) (recoveryToolUseIDs b ms))
      (filter (\<lambda>i. i \<in> set (live_indices b ms)) [0..<length ms]))"
    using assms(2) by (auto simp: ExtractCompressible_def messageZones_def Let_def split: option.splits if_splits)
  have "in_span b (span_start (ms ! floor_of b ms)) (length b) cs" unfolding cs
    by (rule chosen_in_span [OF assms(1) ms(1)])
      (use live_index floor_of_less [OF ms(2)] in \<open>auto intro: sorted_wrt_filter\<close>)
  then show ?thesis by (rule that [OF ms])
qed

lemma stabilizable_in_span:
  assumes "json_valid b" and "ExtractStabilizable best_of b meta = Some (blocks, cs)"
  shows "in_span b 0 (length b) cs"
proof -
  obtain ms live where ms: "message_spans b = Some ms" "ms \<noteq> []"
    and cs: "cs = concat (map (\<lambda>i. collectAnthropicCandidates best_of b (ms ! i) (recoveryToolUseIDs b ms))
      (filter (\<lambda>i. i \<in> set live \<or> messageRole b (ms ! i) = ''user'' \<or> messageRole b (ms ! i) = ''system'') [0..<length ms]))"
    using assms(2)
    by (auto simp: ExtractStabilizable_def messageZones_def Let_def map_concat comp_def split: option.splits if_splits)
  have "in_span b (span_start (ms ! 0)) (length b) cs" unfolding cs
    by (rule chosen_in_span [OF assms(1) ms(1)]) (use ms(2) in \<open>auto intro: sorted_wrt_filter\<close>)
  then show ?thesis by (rule in_span_mono) simp_all
qed

text \<open>The live blocks of one extractor are the candidates of the other.\<close>

lemma filter_concat_pairs:
  "filter (P \<circ> fst) (concat (map (\<lambda>i. map (Pair i) (f i)) is)) = concat (map (\<lambda>i. map (Pair i) (f i)) (filter P is))"
  by (induction "is") (auto simp: filter_map comp_def)

lemma filter_live:
  "map snd (filter (\<lambda>(block, c). Live block)
     (zip (map (\<lambda>(i, c). \<lparr>Content = original c, Live = (i \<in> L), Kind = cand_kind c\<rparr>) ps) (map snd ps)))
   = map snd (filter (\<lambda>p. fst p \<in> L) ps)"
  by (induction ps) auto

lemma extractors:
  assumes "ExtractCompressible best_of b meta = Some cs"
  shows "\<exists>blocks all. ExtractStabilizable best_of b meta = Some (blocks, all) \<and> length all = length blocks
    \<and> cs = map snd (filter (\<lambda>(block, c). Live block) (zip blocks all))"
proof -
  obtain ms where z: "messageZones b meta = Some (ms, live_indices b ms)"
    using assms by (auto simp: ExtractCompressible_def messageZones_def split: option.splits if_splits)
  let ?live = "set (live_indices b ms)" and ?f = "\<lambda>i. collectAnthropicCandidates best_of b (ms ! i) (recoveryToolUseIDs b ms)"
  let ?Q = "\<lambda>i. i \<in> ?live \<or> messageRole b (ms ! i) = ''user'' \<or> messageRole b (ms ! i) = ''system''"
  let ?pairs = "concat (map (\<lambda>i. map (Pair i) (?f i)) (filter ?Q [0..<length ms]))"
  let ?mk = "\<lambda>(i, c). \<lparr>Content = original c, Live = (i \<in> ?live), Kind = cand_kind c\<rparr>"
  have cs: "cs = concat (map ?f (filter (\<lambda>i. i \<in> ?live) [0..<length ms]))" and ne: "cs \<noteq> []"
    using assms z by (auto simp: ExtractCompressible_def Let_def split: if_splits)
  have "filter (\<lambda>i. i \<in> ?live) (filter ?Q [0..<length ms]) = filter (\<lambda>i. i \<in> ?live) [0..<length ms]"
    by (simp add: filter_filter conj_disj_distribR) (metis (no_types, lifting))
  then have live: "map snd (filter (\<lambda>p. fst p \<in> ?live) ?pairs) = cs"
    using filter_concat_pairs [of "\<lambda>i. i \<in> ?live" ?f "filter ?Q [0..<length ms]"]
    by (simp add: cs comp_def map_concat)
  then have "?pairs \<noteq> []" using ne by force
  then have "ExtractStabilizable best_of b meta = Some (map ?mk ?pairs, map snd ?pairs)"
    using z by (auto simp: ExtractStabilizable_def Let_def)
  then show ?thesis using filter_live [of ?live ?pairs] live
    by (intro exI [of _ "map ?mk ?pairs"] exI [of _ "map snd ?pairs"]) (simp only: length_map)
qed

section \<open>The frozen prefix\<close>

text \<open>How many messages there are up to the last one with a marker in its content, none when none has one.\<close>

definition through_marked :: "bytes list \<Rightarrow> nat" where
  "through_marked raws = length (dropWhile (\<lambda>m. \<not> messageHasContentCacheControl m) (rev raws))"

lemma through_marked_Nil [simp]: "through_marked [] = 0"
  by (simp add: through_marked_def)

lemma through_marked_Cons:
  "through_marked (raw # raws) =
     (if through_marked raws \<noteq> 0 then Suc (through_marked raws) else if messageHasContentCacheControl raw then 1 else 0)"
proof (cases "\<exists>m \<in> set raws. messageHasContentCacheControl m")
  case True
  then show ?thesis by (auto simp: through_marked_def dropWhile_append1)
next
  case False
  then have "dropWhile (\<lambda>m. \<not> messageHasContentCacheControl m) (rev raws) = []" by simp
  moreover have "dropWhile (\<lambda>m. \<not> messageHasContentCacheControl m) (rev raws @ [raw])
      = dropWhile (\<lambda>m. \<not> messageHasContentCacheControl m) [raw]" using False by (intro dropWhile_append2) simp
  ultimately show ?thesis by (simp add: through_marked_def)
qed

lemma through_marked_le: "through_marked raws \<le> length raws"
  unfolding through_marked_def by (metis length_dropWhile_le length_rev)

lemma frozen_floor_eq: "frozen_floor raws i fl = (if through_marked raws = 0 then fl else i + int (through_marked raws))"
  by (induction raws i fl rule: frozen_floor.induct) (auto simp: through_marked_Cons)

lemma cached_messages_eq:
  "cached_messages b ms n cached =
     (if through_marked (map (span_bytes b) ms) = 0 then cached else n + through_marked (map (span_bytes b) ms))"
  by (induction b ms n cached rule: cached_messages.induct) (auto simp: through_marked_Cons)

lemma ComputeFrozenCount_eq:
  "nat (ComputeFrozenCount raws) =
     (let k = through_marked raws in
      if k < length raws then k
      else if 1 < k \<and> messageRoleRaw (last raws) = ''system'' \<and> messageHasToolResult (raws ! (k - 2)) then k - 2 else k - 1)"
proof (cases "raws = []")
  case False
  have n: "nat (int (length raws) - 1) = length raws - 1" "nat (int (length raws) - 2) = length raws - 2"
    "nat (int (length raws) - 1 - 1) = length raws - 2" by simp_all
  have l: "raws ! (length raws - Suc 0) = last raws" using False by (simp add: last_conv_nth)
  have k: "through_marked raws < length raws \<or> through_marked raws = length raws" using through_marked_le [of raws] by linarith
  then show ?thesis using False n l
    by (auto simp: ComputeFrozenCount_def frozen_floor_eq Let_def)
qed (simp add: ComputeFrozenCount_def)

lemma frozen_and_cached:
  assumes "FrozenPrefixComponents b meta = Some (header # fs)" and "message_spans b = Some ms" and "rootObjectSpan b = Some root"
  shows "\<exists>cs n. CachedPrefixComponents b = Some (cs, n) \<and> length cs = 2 + length ms \<and> fs = take (length fs) cs
    \<and> length fs = 2 + nat (ComputeFrozenCount (map (span_bytes b) ms))
    \<and> n = (if findObjectField b root ''cache_control'' \<noteq> None then length cs
           else if through_marked (map (span_bytes b) ms) \<noteq> 0 then 2 + through_marked (map (span_bytes b) ms)
           else if field_is_marked b root ''system'' \<or> field_is_marked b root ''tools'' then 2 else 0)"
proof -
  let ?k = "nat (ComputeFrozenCount (map (span_bytes b) ms))"
  let ?cs = "map (\<lambda>name. frozenField name (bare_field b root name)) [''system'', ''tools''] @ map (message_component b) ms"
  have fs: "fs = map (\<lambda>name. frozenField name (bare_field b root name)) [''system'', ''tools''] @ map (message_component b) (take ?k ms)"
    using assms by (auto simp: FrozenPrefixComponents_def Let_def split: if_splits)
  have "?k \<le> length ms" using ComputeFrozenCount_bounds [of "map (span_bytes b) ms"] by (cases ms) auto
  then have l: "length fs = 2 + ?k" by (simp add: fs)
  then have "fs = take (length fs) ?cs" by (simp add: fs take_map)
  then show ?thesis using assms(2,3) l by (simp add: CachedPrefixComponents_def Let_def cached_messages_eq)
qed

lemma floor_in_range: "\<not> (ComputeFrozenCount (map f ms) < 0 \<or> ComputeFrozenCount (map f ms) > int (length ms))"
  using ComputeFrozenCount_bounds [of "map f ms"] by (cases ms) auto

lemma FrozenPrefixComponents_total:
  "FrozenPrefixComponents b meta = None \<longleftrightarrow> count_tokens_endpoint meta \<or> CachedPrefixComponents b = None"
  by (simp add: FrozenPrefixComponents_def CachedPrefixComponents_def Let_def floor_in_range split: option.split)

lemma cached_messages_bounds: "cached \<le> n \<Longrightarrow> cached_messages b ms n cached \<le> n + length ms"
  by (induction b ms n cached rule: cached_messages.induct) force+

lemma CachedPrefixComponents_bounds: "CachedPrefixComponents b = Some (cs, n) \<Longrightarrow> n \<le> length cs"
  using cached_messages_bounds [of _ 2 b]
  by (auto simp: CachedPrefixComponents_def Let_def split: option.splits if_splits)

end
