(* ===== verification/Anthropic_Properties.thy ===== *)
theory Anthropic_Properties
  imports Anthropic_Transform Anthropic_Compress_Facts
begin

text \<open>
  The properties of the Anthropic adapter: its splicer, the frozen count, the cache breakpoints and
  what may be compressed, each with its example.
\<close>

text \<open>
  C21. \<open>stripCacheControl\<close> on a valid value gives a valid value, and only takes bytes out.
\<close>

theorem strip_keeps_valid:
  assumes "json_valid b"
  shows "json_valid (stripCacheControl b) \<and> subseq (stripCacheControl b) b"
  using strip_valid_subseq [OF assms] ..

abbreviation marked_block :: bytes where
  "marked_block \<equiv> ''[{'' @ quoted ''t'' @ '':1,'' @ cacheControlField @ ''}]''"

lemma marked_block_valid: "json_valid marked_block"
  by code_simp

lemma marked_block_strip: "stripCacheControl marked_block = ''[{'' @ quoted ''t'' @ '':1}]''"
  by code_simp

theorem strip_keeps_valid_witness:
  "json_valid (''[{'' @ quoted ''t'' @ '':1}]'') \<and> subseq (''[{'' @ quoted ''t'' @ '':1}]'') marked_block"
  using strip_keeps_valid [OF marked_block_valid] unfolding marked_block_strip .

text \<open>
  C22. The adapter's scanners, which jump from quote to quote, read the same strings and values as
  jsonsplice's, which step byte by byte.
\<close>

theorem scanners_agree: "scanJSONString b i = js_stringEnd b i \<and> scanJSONValue b i = js_value b i"
  by (simp add: scanJSONString_eq scanJSONValue_eq)

text \<open>
  C23. Splicing replacements into the adapter's candidates is jsonsplice's \<open>Replace\<close>, errors included.
\<close>

theorem splicers_agree: "spliceStringReplacements body cs reps = Replace body (map to_Candidate cs) reps"
  by (rule spliceStringReplacements_eq)

text \<open>
  C24. A message that carries a marker is frozen, unless it is one of the last two.
\<close>

theorem marked_messages_are_frozen:
  assumes "messageHasContentCacheControl (ms ! j)" and "j + 2 < length ms"
  shows "int j < ComputeFrozenCount ms \<and> ComputeFrozenCount ms < int (length ms)"
proof -
  have "\<not> nat (ComputeFrozenCount ms) \<le> j" using frozen_count_past [of ms j] assms by blast
  moreover have "ms \<noteq> []" using assms(2) by auto
  ultimately show ?thesis using ComputeFrozenCount_bounds [of ms] by auto
qed

abbreviation marked_message :: bytes where
  "marked_message \<equiv> ''{'' @ quoted ''content'' @ '':[{'' @ cacheControlField @ ''}]}''"

lemma marked_message_marked: "messageHasContentCacheControl ([marked_message, ''{}'', ''{}''] ! 0)"
  by code_simp

theorem marked_messages_are_frozen_witness:
  "int 0 < ComputeFrozenCount [marked_message, ''{}'', ''{}'']
     \<and> ComputeFrozenCount [marked_message, ''{}'', ''{}''] < int (length [marked_message, ''{}'', ''{}''])"
  by (rule marked_messages_are_frozen [OF marked_message_marked]) simp

text \<open>
  C25. The breakpoint planner never moves or removes a byte of the caller: the body it plans is valid
  and has the caller's bytes in their order.
\<close>

theorem planner_keeps_every_byte:
  assumes "planCacheBreakpoints data payg = Some out"
  shows "json_valid out \<and> subseq data out"
proof -
  obtain n edits where p: "planned data payg = Some (n, edits)" "applySpliceEdits data edits = Some out"
    using assms by (auto simp: plan_never_gives_up split: option.splits if_splits)
  from planned_applies(1) [OF p(1)] p(2) show ?thesis by auto
qed

abbreviation one_tool :: "bytes \<Rightarrow> bytes" where
  "one_tool rest \<equiv> ''{'' @ quoted ''tools'' @ '':[{'' @ rest @ ''}]}''"

lemma one_tool_plan: "planCacheBreakpoints (one_tool []) True = Some (one_tool cacheControlField)"
  by code_simp

theorem planner_keeps_every_byte_witness:
  "json_valid (one_tool cacheControlField) \<and> subseq (one_tool []) (one_tool cacheControlField)"
  by (rule planner_keeps_every_byte [OF one_tool_plan])

text \<open>
  C26. Once the planner has edits they apply: they never overlap and the body they give is valid, so
  neither of the two checks before the return fires.
\<close>

theorem plan_always_applies:
  "planCacheBreakpoints data payg =
     (case planned data payg of
        None \<Rightarrow> None
      | Some (n, edits) \<Rightarrow> if edits = [] then None else applySpliceEdits data edits)
   \<and> (case planned data payg of
        None \<Rightarrow> True
      | Some (n, edits) \<Rightarrow> applySpliceEdits data edits \<noteq> None)"
  using plan_never_gives_up [of data payg] planned_applies(1) [of data payg]
  by (auto split: option.splits)

text \<open>
  C27. The count the planner starts from is the number of places in the document, as \<open>encoding/json\<close>
  decodes it, where a \<open>cache_control\<close> key stands, at any depth; every edit adds one marker; and the
  places and the edits together are at most the provider's four. What a repeated key hides from the
  decoder is not counted, and then there can be more on the wire (\<open>hidden_markers_exceed_the_budget\<close>).
\<close>

theorem breakpoints_within_budget:
  assumes "planned data payg = Some (n, edits)"
  shows "\<exists>root. unmarshal_map data = Some root \<and> n = card {path. key_stands_at ''cache_control'' (GMap root) path}
    \<and> (\<forall>ed \<in> set edits. marks_once data ed) \<and> n + length edits \<le> 4"
  using planned_counts [OF assms] planned_marks [OF assms] planned_applies(2) [OF assms]
  by (metis maxCacheBreakpoints_def)

lemma one_tool_planned:
  "planned (one_tool []) True = Some (0, [\<lparr>edit_start = 11, edit_end = 11, edit_bytes = cacheControlField\<rparr>])"
  by code_simp

theorem breakpoints_within_budget_witness:
  "\<exists>root. unmarshal_map (one_tool []) = Some root \<and> 0 = card {path. key_stands_at ''cache_control'' (GMap root) path}
    \<and> marks_once (one_tool []) \<lparr>edit_start = 11, edit_end = 11, edit_bytes = cacheControlField\<rparr>"
  using breakpoints_within_budget [OF one_tool_planned] by auto

text \<open>
  C28. The provider-native transform gives the body back as it came and names no optimizer, or makes
  exactly one insertion of one marker and names one optimizer. The automatic optimizer puts the marker in
  as the last member of the root object (with a comma or without); the explicit one as the last member of
  some object, or in a text block around a string. Then the result is valid JSON, exactly one of the two
  optimizers was enabled, the run was not in record mode, the request is paid by use (and for the
  automatic one goes to the messages endpoint), and the decoded body had no \<open>cache_control\<close> key.
\<close>

theorem transform_adds_one_marker:
  "(let r = ApplyProviderNativeTransforms data err meta policy; out = Body r in
      r = \<lparr>Body = data, OptimizerIDs = []\<rparr> \<or>
      json_valid data \<and> json_valid out \<and> subseq data out \<and> length data < length out
      \<and> (OptimizerIDs r = [OptimizerID] \<and> (string_wrapped data out \<or> (\<exists>rest. member_added data rest out))
           \<and> Optimizers policy OptimizerID \<and> \<not> Optimizers policy AutomaticPromptCacheOptimizerID
         \<or> OptimizerIDs r = [AutomaticPromptCacheOptimizerID] \<and> (\<exists>rest. list_all isSpace rest \<and> member_added data rest out)
           \<and> Optimizers policy AutomaticPromptCacheOptimizerID \<and> \<not> Optimizers policy OptimizerID
           \<and> automaticPromptCacheMessagesEndpoint meta)
      \<and> RuntimeMode policy \<noteq> ''record'' \<and> (AuthMode policy = [] \<or> AuthMode policy = ''payg'')
      \<and> (\<exists>root. unmarshal_map data = Some root \<and> \<not> containsJSONKey (GMap root) ''cache_control''))"
proof -
  have "json_valid data \<Longrightarrow> kept data out \<Longrightarrow> json_valid out \<and> subseq data out \<and> length data < length out" for out
    by (simp add: kept_def json_valid_def)
  then show ?thesis using transform_result [of data err meta policy] unfolding Let_def by blast
qed

abbreviation messages_call :: RequestMetadata where
  "messages_call \<equiv> \<lparr>Provider = ''anthropic'', Endpoint = ''/v1/messages''\<rparr>"

abbreviation explicit_policy :: TransformPolicy where
  "explicit_policy \<equiv> \<lparr>RuntimeMode = ''optimize'', AuthMode = ''payg'', Optimizers = (\<lambda>i. i = OptimizerID)\<rparr>"

lemma one_tool_map: "unmarshal_map (one_tool []) = Some [(''tools'', GSlice [GMap []])]"
  by code_simp

lemma one_tool_spans: "Root (one_tool []) = Some (span 0 14)" "Field (one_tool []) (span 0 14) ''tools'' = Some (span 9 13)"
    "Elements (one_tool []) (span 9 13) = Some [span 10 12]" "json_valid (one_tool [])"
  by code_simp+

lemma one_tool_transform:
  "ApplyProviderNativeTransforms (one_tool []) False messages_call explicit_policy
     = \<lparr>Body = one_tool cacheControlField, OptimizerIDs = [OptimizerID]\<rparr>"
proof -
  have ids: "AutomaticPromptCacheOptimizerID \<noteq> OptimizerID" "''optimize'' \<noteq> (''record'' :: bytes)" by code_simp+
  have tool: "last_tool (one_tool []) [span 10 12] (decoded_slice [(''tools'', GSlice [GMap []])] ''tools'')
      = Some (span 10 12)" by code_simp
  have mark: "mark_object (one_tool []) (span 10 12) = Some (one_tool cacheControlField)"
  proof -
    have e: "ends (one_tool []) (span 10 12) (CHR ''{'') (CHR ''}'')" "insert_at (one_tool []) 10 11 = 11"
      "json_valid (Value cache_insertion)" "Name cache_insertion \<noteq> []" by code_simp+
    have l: "length (one_tool []) = 14" "length (field_text cache_insertion) = 36" by (code_simp, simp add: cache_insertion_text, code_simp)
    have t: "take 11 (one_tool []) @ cacheControlField @ drop 11 (one_tool []) = one_tool cacheControlField" by code_simp
    show ?thesis using e l t
      by (simp add: mark_object_def no_error_def AppendObjectFields_def span_def join_with_def maxSpliceBytes_def cache_insertion_text)
  qed
  have no: "\<not> containsJSONKey (GMap [(''tools'', GSlice [GMap []])]) ''cache_control''" by code_simp
  have valid: "json_valid (one_tool cacheControlField)" by code_simp
  have "injectBreakpointRaw (one_tool []) [(''tools'', GSlice [GMap []])] = Some (one_tool cacheControlField)"
    by (simp only: injectBreakpointRaw_def one_tool_spans option.case Let_def tool mark)
  then show ?thesis using ids no valid
    by (simp only: ApplyProviderNativeTransforms_def Let_def one_tool_map option.case TransformPolicy.simps if_False simp_thms)
qed

theorem transform_adds_one_marker_witness:
  "string_wrapped (one_tool []) (one_tool cacheControlField) \<or> (\<exists>rest. member_added (one_tool []) rest (one_tool cacheControlField))"
proof -
  have "OptimizerID \<noteq> AutomaticPromptCacheOptimizerID" by code_simp
  with transform_adds_one_marker [of "one_tool []" False messages_call explicit_policy] show ?thesis
    unfolding one_tool_transform Let_def by simp
qed

text \<open>
  C29. Compression is safe on the wire: for a valid body the extracted segments can always be put
  back, whatever the replacements, the body stays valid JSON, and every frozen message keeps its
  bytes at their place.
\<close>

theorem compression_keeps_the_frozen_prefix:
  assumes "json_valid body" and "ExtractCompressible best_of body meta = Some cs" and "length reps = length cs"
  shows "\<exists>out ms. reassemble body cs reps = Inr out \<and> json_valid out \<and> message_spans body = Some ms
    \<and> (\<forall>i < nat (ComputeFrozenCount (map (span_bytes body) ms)). span_bytes out (ms ! i) = span_bytes body (ms ! i))"
proof -
  obtain ms where ms: "message_spans body = Some ms" "ms \<noteq> []" "in_span body (span_start (ms ! floor_of body ms)) (length body) cs"
    using extract_in_span [OF assms(1,2)] by blast
  obtain out where out: "reassemble body cs reps = Inr out" "json_valid out"
    "take (span_start (ms ! floor_of body ms)) out = take (span_start (ms ! floor_of body ms)) body"
    using reassemble_total [OF ms(3) assms(1,3)] by blast
  have "span_bytes out (ms ! i) = span_bytes body (ms ! i)" if "i < floor_of body ms" for i
  proof -
    have "span_end (ms ! i) < span_start (ms ! floor_of body ms)"
      using message_spans_val(1) [OF assms(1) ms(1)] that floor_of_less [OF ms(2)] by (simp add: sorted_wrt_iff_nth_less)
    then have "take (span_end (ms ! i)) out = take (span_end (ms ! i)) body"
      using out(3) by (metis min.absorb1 less_imp_le take_take)
    then show ?thesis by (simp add: span_bytes_def slice_def take_drop [symmetric] drop_take) (metis drop_take)
  qed
  then show ?thesis using out ms(1) by (auto simp: floor_of_def)
qed

definition tool_body :: bytes where
  "tool_body = ''{'' @ quoted ''messages'' @ '':[{'' @ quoted ''role'' @ '':'' @ quoted ''user'' @ '','' @ quoted ''content''
     @ '':[{'' @ quoted ''type'' @ '':'' @ quoted ''tool_result'' @ '','' @ quoted ''content'' @ '':'' @ quoted ''[]'' @ ''}]}]}''"

lemma tool_body_valid: "json_valid tool_body"
  by code_simp

lemma tool_body_extract:
  "ExtractCompressible True tool_body messages_call
     = Some [\<lparr>span_start = 71, span_end = 75, original = ''[]'', cand_kind = ''tool_result''\<rparr>]"
  by code_simp

theorem compression_keeps_the_frozen_prefix_witness:
  "\<exists>out. reassemble tool_body [\<lparr>span_start = 71, span_end = 75, original = ''[]'', cand_kind = ''tool_result''\<rparr>] [Some ''x''] = Inr out
     \<and> json_valid out"
  using compression_keeps_the_frozen_prefix [OF tool_body_valid tool_body_extract, of "[Some ''x'']"] by auto

text \<open>
  C30. The two extractors agree on the live zone: the segments that may be newly compressed are exactly
  the blocks the other extractor tags as live, in the same order.
\<close>

theorem live_blocks_are_the_compressible:
  assumes "ExtractCompressible best_of body meta = Some cs"
  shows "\<exists>blocks all. ExtractStabilizable best_of body meta = Some (blocks, all) \<and> length all = length blocks
    \<and> cs = map snd (filter (\<lambda>(block, c). Live block) (zip blocks all))"
  by (rule extractors [OF assms])

theorem live_blocks_are_the_compressible_witness:
  "\<exists>blocks all. ExtractStabilizable True tool_body messages_call = Some (blocks, all) \<and> length all = length blocks
     \<and> [\<lparr>span_start = 71, span_end = 75, original = ''[]'', cand_kind = ''tool_result''\<rparr>]
       = map snd (filter (\<lambda>(block, c). Live block) (zip blocks all))"
  by (rule live_blocks_are_the_compressible [OF tool_body_extract])

text \<open>
  C31. The components the guard watches as frozen are the first of those the prefix monitor watches, and
  how many each takes follows from where the markers are. With \<open>k\<close> messages up to the last marked one,
  the monitor takes system, tools and those \<open>k\<close> for cached (all components under the top-level automatic
  marker; without a marked message the two fields if one of them is marked, or nothing). The guard takes
  the same ones, but leaves out the newest message when it is the marked one, and with it the tool result
  before a system message. So with a marked message everything frozen is cached, and at most the last two
  of the cached messages are not frozen; without one the guard still watches system and tools.
\<close>

theorem frozen_components_are_cached_ones:
  assumes "FrozenPrefixComponents body meta = Some (header # fs)"
    and "message_spans body = Some ms" and "rootObjectSpan body = Some root"
  shows "\<exists>cs n. CachedPrefixComponents body = Some (cs, n) \<and> length cs = 2 + length ms \<and> fs = take (length fs) cs
    \<and> (let raws = map (span_bytes body) ms; k = through_marked raws in
        n = (if findObjectField body root ''cache_control'' \<noteq> None then 2 + length ms
             else if k \<noteq> 0 then 2 + k
             else if field_is_marked body root ''system'' \<or> field_is_marked body root ''tools'' then 2 else 0)
        \<and> length fs = 2 + (if k < length ms then k
             else if 1 < k \<and> messageRoleRaw (last raws) = ''system'' \<and> messageHasToolResult (raws ! (k - 2)) then k - 2 else k - 1)
        \<and> (k \<noteq> 0 \<longrightarrow> length fs \<le> n))"
proof -
  let ?raws = "map (span_bytes body) ms"
  have k: "through_marked ?raws \<le> length ms" using through_marked_le [of ?raws] by simp
  then have "through_marked ?raws \<noteq> 0 \<Longrightarrow> nat (ComputeFrozenCount ?raws) \<le> through_marked ?raws"
    unfolding ComputeFrozenCount_eq Let_def by auto
  then show ?thesis using frozen_and_cached [OF assms] k
    unfolding ComputeFrozenCount_eq Let_def by (elim exE conjE) auto
qed

text \<open>A marked message and an unmarked one after it.\<close>

definition marked_body :: bytes where
  "marked_body = ''{'' @ quoted ''messages'' @ '':[{'' @ quoted ''content'' @ '':[{'' @ quoted ''cache_control'' @ '':1}]},{}]}''"

abbreviation marked_root :: jsonSpan where
  "marked_root \<equiv> \<lparr>span_start = 0, span_end = 51\<rparr>"

abbreviation marked_messages :: "jsonSpan list" where
  "marked_messages \<equiv> [\<lparr>span_start = 13, span_end = 46\<rparr>, \<lparr>span_start = 47, span_end = 49\<rparr>]"

lemma marked_body_spans:
  "rootObjectSpan marked_body = Some marked_root" "message_spans marked_body = Some marked_messages"
  "ComputeFrozenCount (map (span_bytes marked_body) marked_messages) = 1"
  "through_marked (map (span_bytes marked_body) marked_messages) = 1"
  "findObjectField marked_body marked_root ''cache_control'' = None" "\<not> count_tokens_endpoint messages_call"
  by code_simp+

theorem frozen_components_are_cached_ones_witness:
  "\<exists>header fs cs. FrozenPrefixComponents marked_body messages_call = Some (header # fs)
     \<and> CachedPrefixComponents marked_body = Some (cs, 3) \<and> fs = take 3 cs"
proof -
  obtain header fs where f: "FrozenPrefixComponents marked_body messages_call = Some (header # fs)"
    by (simp add: FrozenPrefixComponents_def Let_def marked_body_spans del: map_map list.map)
  from frozen_components_are_cached_ones [OF f marked_body_spans(2,1)] f show ?thesis
    unfolding Let_def marked_body_spans(4,5) by auto
qed

section \<open>Where the code and its comments differ\<close>

text \<open>
  The planner puts a marker on a tool with \<open>defer_loading\<close>, which the explicit optimizer skips:
  a deferred tool must not carry one.
\<close>

lemma planner_marks_a_deferred_tool:
  "planned (one_tool (quoted ''defer_loading'' @ '':true'')) True
     = Some (0, [\<lparr>edit_start = 31, edit_end = 31, edit_bytes = '','' @ cacheControlField\<rparr>])"
  by code_simp

text \<open>
  The existence question is asked of the decoded body, where the last of two equal keys wins, and the
  splice goes to the first: with a second \<open>tools\<close> the planner marks the same tool again.
\<close>

abbreviation two_tools :: "bytes \<Rightarrow> bytes" where
  "two_tools rest \<equiv> ''{'' @ quoted ''tools'' @ '':[{'' @ rest @ ''}],'' @ quoted ''tools'' @ '':[]}''"

lemma planner_marks_the_first_tools:
  "planned (two_tools []) True = Some (0, [\<lparr>edit_start = 11, edit_end = 11, edit_bytes = cacheControlField\<rparr>])"
  by code_simp

lemma planner_misses_its_own_marker: "unmarshal_map (two_tools cacheControlField) = Some [(''tools'', GSlice [])]"
  by code_simp

text \<open>Four markers the decoder does not see and the one the planner adds are five on the wire.\<close>

definition four_hidden :: "bytes \<Rightarrow> bytes" where
  "four_hidden rest = ''{'' @ quoted ''tools'' @ '':['' @ concat (replicate 4 (''{'' @ cacheControlField @ ''},'')) @ ''{'' @ rest @ ''}],''
     @ quoted ''tools'' @ '':[]}''"

lemma four_hidden_map: "unmarshal_map (four_hidden []) = Some [(''tools'', GSlice [])]"
  by code_simp

lemma four_hidden_root: "Root (four_hidden []) = Some (span 0 181)"
  by code_simp

lemma four_hidden_tools:
  "toolsTailEdit (four_hidden []) (span 0 181) = Some \<lparr>edit_start = 167, edit_end = 167, edit_bytes = cacheControlField\<rparr>"
  by code_simp

lemma four_hidden_others:
  "systemTailEdit (four_hidden []) (span 0 181) = None" "frontierEdit (four_hidden []) (span 0 181) = None"
  by code_simp+

lemmas four_hidden_steps = four_hidden_map four_hidden_root four_hidden_tools four_hidden_others

lemma four_hidden_planned:
  "planned (four_hidden []) True = Some (0, [\<lparr>edit_start = 167, edit_end = 167, edit_bytes = cacheControlField\<rparr>])"
  by (simp add: planned_def four_hidden_steps coldStartPlan_def map_filter_simps maxCacheBreakpoints_def)

lemma hidden_markers_exceed_the_budget: "planCacheBreakpoints (four_hidden []) True = Some (four_hidden cacheControlField)"
  unfolding plan_never_gives_up four_hidden_planned by (simp, code_simp)

text \<open>Of two markers in one block \<open>stripCacheControl\<close> takes only the first out.\<close>

lemma strip_keeps_the_second:
  "stripCacheControl (''[{'' @ cacheControlField @ '','' @ cacheControlField @ ''}]'') = ''[{'' @ cacheControlField @ ''}]''"
  by code_simp

text \<open>
  A body with the top-level automatic marker, which already caches the conversation, gets a
  breakpoint on its newest message as if only its tools were cached.
\<close>

lemma planner_doubles_the_automatic_marker:
  "planned (''{'' @ quoted ''cache_control'' @ '':{},'' @ quoted ''messages'' @ '':[{'' @ quoted ''content'' @ '':[{}]}]}'') True
     = Some (1, [\<lparr>edit_start = 45, edit_end = 45, edit_bytes = cacheControlField\<rparr>])"
  by code_simp

end
