(* ===== verification/Net_Addr.thy ===== *)
theory Net_Addr
  imports Json_Std Go_Map Big_Endian "HOL-Library.Word"
begin

text \<open>
  Go's \<open>net/netip\<close> and the parts of \<open>net\<close> and \<open>strings\<close> that the outbound guard works with: addresses
  and prefixes as words of their width, the text of an address and its reader, host and port in one
  string, and the two comparisons that ignore letter case.
\<close>

unbundle bit_operations_syntax

section \<open>Addresses and prefixes\<close>

text \<open>An address of 32 bits, or one of 128 bits with its zone; the empty zone is no zone.\<close>

datatype Addr = Addr4 "32 word" | Addr6 "128 word" bytes

fun WithZone :: "Addr \<Rightarrow> bytes \<Rightarrow> Addr" where
  "WithZone (Addr4 a) z = Addr4 a"
| "WithZone (Addr6 a _) z = Addr6 a z"

fun Zone :: "Addr \<Rightarrow> bytes" where
  "Zone (Addr4 _) = []"
| "Zone (Addr6 _ z) = z"

text \<open>An IPv4 address mapped into IPv6 is \<open>::ffff:0:0/96\<close>.\<close>

fun Is4In6 :: "Addr \<Rightarrow> bool" where
  "Is4In6 (Addr4 _) \<longleftrightarrow> False"
| "Is4In6 (Addr6 a _) \<longleftrightarrow> drop_bit 32 a = 0xffff"

fun Unmap :: "Addr \<Rightarrow> Addr" where
  "Unmap (Addr4 a) = Addr4 a"
| "Unmap (Addr6 a z) = (if Is4In6 (Addr6 a z) then Addr4 (ucast a) else Addr6 a z)"

text \<open>A prefix is an address and the number of its leading bits that count.\<close>

datatype Prefix = Prefix Addr nat

definition mask6 :: "nat \<Rightarrow> 128 word" where
  "mask6 n = NOT (mask (128 - n))"

fun Masked :: "Prefix \<Rightarrow> Prefix" where
  "Masked (Prefix (Addr4 p) n) = Prefix (Addr4 (p AND NOT (mask (32 - n)))) n"
| "Masked (Prefix (Addr6 p z) n) = Prefix (Addr6 (p AND mask6 n) []) n"

fun prefix_contains :: "Prefix \<Rightarrow> Addr \<Rightarrow> bool" where
  "prefix_contains (Prefix (Addr4 p) n) (Addr4 a) \<longleftrightarrow> drop_bit (32 - n) (a XOR p) = 0"
| "prefix_contains (Prefix (Addr6 p _) n) (Addr6 a z) \<longleftrightarrow> z = [] \<and> (a XOR p) AND mask6 n = 0"
| "prefix_contains _ _ \<longleftrightarrow> False"

section \<open>The text of an address\<close>

fun join_with :: "bytes \<Rightarrow> bytes list \<Rightarrow> bytes" where
  "join_with sep [] = []"
| "join_with sep [s] = s"
| "join_with sep (s # ss) = s @ sep @ join_with sep ss"

text \<open>The numbers of a text: the bytes of an IPv4 address, the 16-bit groups of an IPv6 address.\<close>

fun octet_pairs :: "bytes \<Rightarrow> nat list" where
  "octet_pairs (a # b # s) = (256 * bval a + bval b) # octet_pairs s"
| "octet_pairs _ = []"

definition groups6 :: "128 word \<Rightarrow> nat list" where
  "groups6 a = octet_pairs (be_bytes 16 (unat a))"

definition string4 :: "32 word \<Rightarrow> bytes" where
  "string4 a = join_with ''.'' (map (itoa \<circ> bval) (be_bytes 4 (unat a)))"

definition hex16 :: "nat \<Rightarrow> bytes" where
  "hex16 x =
     (if 0x1000 \<le> x then [hex_digit (x div 0x1000)] else [])
     @ (if 0x100 \<le> x then [hex_digit (x div 0x100 mod 16)] else [])
     @ (if 0x10 \<le> x then [hex_digit (x div 0x10 mod 16)] else [])
     @ [hex_digit (x mod 16)]"

text \<open>The longest run of at least two zero groups is written as two colons, the first of equals.\<close>

definition zero_run :: "nat list \<Rightarrow> nat \<Rightarrow> nat" where
  "zero_run gs i = length (takeWhile (\<lambda>g. g = 0) (drop i gs))"

definition longer_run :: "nat list \<Rightarrow> (nat \<times> nat) option \<Rightarrow> nat \<Rightarrow> (nat \<times> nat) option" where
  "longer_run gs best i =
     (let l = zero_run gs i in
      if l \<ge> 2 \<and> l > (case best of None \<Rightarrow> 0 | Some (i', l') \<Rightarrow> l') then Some (i, l) else best)"

definition longest_run :: "nat list \<Rightarrow> (nat \<times> nat) option" where
  "longest_run gs = foldl (longer_run gs) None [0..<length gs]"

definition groups_text :: "nat list \<Rightarrow> bytes" where
  "groups_text gs = join_with '':'' (map hex16 gs)"

definition string6 :: "nat list \<Rightarrow> bytes" where
  "string6 gs =
     (case longest_run gs of
        None \<Rightarrow> groups_text gs
      | Some (i, l) \<Rightarrow> groups_text (take i gs) @ ''::'' @ groups_text (drop (i + l) gs))"

fun addr_String :: "Addr \<Rightarrow> bytes" where
  "addr_String (Addr4 a) = string4 a"
| "addr_String (Addr6 a z) =
     (if Is4In6 (Addr6 a z) then ''::ffff:'' @ string4 (ucast a) else string6 (groups6 a))
     @ (if z = [] then [] else CHR ''%'' # z)"

section \<open>Reading an address\<close>

text \<open>
  The fields of an IPv4 address: the value of the current field, how many digits it has so far, and
  the fields before it.
\<close>

fun parse4_fields :: "bytes \<Rightarrow> nat \<Rightarrow> nat \<Rightarrow> bytes \<Rightarrow> bytes option" where
  "parse4_fields [] v d fs = (if length fs < 3 then None else Some (fs @ [char_of v]))"
| "parse4_fields (c # s) v d fs =
     (if is_digit c then
        (if d = 1 \<and> v = 0 then None
         else let v' = 10 * v + (bval c - 48) in if v' > 255 then None else parse4_fields s v' (d + 1) fs)
      else if c = CHR ''.'' then
        (if d = 0 \<or> s = [] then None
         else if length fs = 3 then None
         else parse4_fields s 0 0 (fs @ [char_of v]))
      else None)"

definition parse4 :: "bytes \<Rightarrow> Addr option" where
  "parse4 s = map_option (\<lambda>fs. Addr4 (of_nat (be_value fs))) (parse4_fields s 0 0 [])"

text \<open>The hexadecimal digits a text starts with: how many and their value; more than four is an error.\<close>

fun hex_field :: "bytes \<Rightarrow> nat \<Rightarrow> nat \<Rightarrow> (nat \<times> nat) option" where
  "hex_field [] off acc = Some (off, acc)"
| "hex_field (c # s) off acc =
     (case hex_val c of
        None \<Rightarrow> Some (off, acc)
      | Some h \<Rightarrow> if off > 3 then None else hex_field s (off + 1) (16 * acc + h))"

text \<open>
  The loop over the groups: the bytes read so far and where the two colons stood. What it leaves is
  the text it did not read, the bytes and that position.
\<close>

function parse6_groups :: "bytes \<Rightarrow> bytes \<Rightarrow> nat option \<Rightarrow> (bytes \<times> bytes \<times> nat option) option" where
  "parse6_groups s ip ell =
     (if length ip \<ge> 16 then Some (s, ip, ell)
      else case hex_field s 0 0 of
        None \<Rightarrow> None
      | Some (off, acc) \<Rightarrow>
          if off = 0 then None
          else if off < length s \<and> s ! off = CHR ''.'' then
            (if ell = None \<and> length ip \<noteq> 12 then None
             else if length ip + 4 > 16 then None
             else map_option (\<lambda>fs. ([], ip @ fs, ell)) (parse4_fields s 0 0 []))
          else
            let ip' = ip @ [char_of (acc div 256), char_of (acc mod 256)] in
            (case drop off s of
               [] \<Rightarrow> Some ([], ip', ell)
             | c # s1 \<Rightarrow>
                 if c \<noteq> CHR '':'' then None
                 else (case s1 of
                   [] \<Rightarrow> None
                 | c1 # s2 \<Rightarrow>
                     if c1 = CHR '':'' then
                       (if ell \<noteq> None then None
                        else if s2 = [] then Some ([], ip', Some (length ip'))
                        else parse6_groups s2 ip' (Some (length ip')))
                     else parse6_groups s1 ip' ell)))"
  by pat_completeness auto
termination
  by (relation "measure (\<lambda>(s, ip, ell). 16 - length ip)") auto

declare parse6_groups.simps [simp del]

definition parse6_body :: "bytes \<Rightarrow> bytes option" where
  "parse6_body s =
     (let (s1, ell) = (if take 2 s = ''::'' then (drop 2 s, Some 0) else (s, None)) in
      if ell = Some 0 \<and> s1 = [] then Some (replicate 16 (char_of (0::nat)))
      else case parse6_groups s1 [] ell of
        None \<Rightarrow> None
      | Some (r, ip, e) \<Rightarrow>
          if r \<noteq> [] then None
          else case e of
            None \<Rightarrow> if length ip < 16 then None else Some ip
          | Some k \<Rightarrow>
              if length ip < 16 then Some (take k ip @ replicate (16 - length ip) (char_of (0::nat)) @ drop k ip)
              else None)"

definition parse6 :: "bytes \<Rightarrow> Addr option" where
  "parse6 s =
     (case index_byte s (CHR ''%'') of
        None \<Rightarrow> map_option (\<lambda>ip. Addr6 (of_nat (be_value ip)) []) (parse6_body s)
      | Some i \<Rightarrow>
          if drop (i + 1) s = [] then None
          else map_option (\<lambda>ip. Addr6 (of_nat (be_value ip)) (drop (i + 1) s)) (parse6_body (take i s)))"

definition ParseAddr :: "bytes \<Rightarrow> Addr option" where
  "ParseAddr s =
     (case find (\<lambda>c. c = CHR ''.'' \<or> c = CHR '':'' \<or> c = CHR ''%'') s of
        None \<Rightarrow> None
      | Some c \<Rightarrow> if c = CHR ''.'' then parse4 s else if c = CHR '':'' then parse6 s else None)"

definition last_index_byte :: "bytes \<Rightarrow> char \<Rightarrow> nat option" where
  "last_index_byte s c = map_option (\<lambda>i. length s - 1 - i) (index_byte (rev s) c)"

definition ParsePrefix :: "bytes \<Rightarrow> Prefix option" where
  "ParsePrefix s =
     (case last_index_byte s (CHR ''/'') of
        None \<Rightarrow> None
      | Some i \<Rightarrow>
          (case ParseAddr (take i s) of
             None \<Rightarrow> None
           | Some ip \<Rightarrow>
               let bs = drop (i + 1) s; most = (case ip of Addr4 _ \<Rightarrow> 32 | Addr6 _ _ \<Rightarrow> 128) in
               if Zone ip \<noteq> [] then None
               else if bs = [] \<or> \<not> list_all is_digit bs \<or> (length bs > 1 \<and> bs ! 0 = CHR ''0'') then None
               else (case atoi bs of
                  None \<Rightarrow> None
                | Some n \<Rightarrow> if n > most then None else Some (Prefix ip n))))"

section \<open>Host and port\<close>

definition SplitHostPort :: "bytes \<Rightarrow> (bytes \<times> bytes) option" where
  "SplitHostPort hostport =
     (case last_index_byte hostport (CHR '':'') of
        None \<Rightarrow> None
      | Some i \<Rightarrow>
          let port = drop (i + 1) hostport in
          if hostport ! 0 = CHR ''['' then
            (case index_byte hostport (CHR '']'') of
               None \<Rightarrow> None
             | Some e \<Rightarrow>
                 if e + 1 \<noteq> i then None
                 else if CHR ''['' \<in> set (drop 1 hostport) \<or> CHR '']'' \<in> set (drop (e + 1) hostport) then None
                 else Some (drop 1 (take e hostport), port))
          else if CHR '':'' \<in> set (take i hostport) then None
          else if CHR ''['' \<in> set hostport \<or> CHR '']'' \<in> set hostport then None
          else Some (take i hostport, port))"

definition JoinHostPort :: "bytes \<Rightarrow> bytes \<Rightarrow> bytes" where
  "JoinHostPort host port =
     (if CHR '':'' \<in> set host then ''['' @ host @ '']:'' @ port else host @ '':'' @ port)"

section \<open>Letter case and trimming\<close>

definition lower_ascii :: "char \<Rightarrow> char" where
  "lower_ascii c = (if 65 \<le> bval c \<and> bval c \<le> 90 then char_of (bval c + 32) else c)"

text \<open>
  \<open>strings.ToLower\<close>: bytes below 128 by the table of ASCII; the table of the other runes
  (\<open>unicode.ToLower\<close>) is the parameter \<open>lower_rune\<close>. A byte that starts no rune becomes U+FFFD.
\<close>

function map_runes :: "(nat \<Rightarrow> nat) \<Rightarrow> bytes \<Rightarrow> bytes" where
  "map_runes f s =
     (if s = [] then []
      else encode_rune (f (fst (decode_rune s))) @ map_runes f (drop (snd (decode_rune s)) s))"
  by pat_completeness auto
termination
  by (relation "measure (\<lambda>(f, s). length s)") (simp_all add: decode_rune_shrinks)

declare map_runes.simps [simp del]

definition ToLower :: "(nat \<Rightarrow> nat) \<Rightarrow> bytes \<Rightarrow> bytes" where
  "ToLower lower_rune s =
     (if list_all (\<lambda>c. bval c < 128) s then map lower_ascii s
      else map_runes (\<lambda>r. if r < 128 then bval (lower_ascii (char_of r)) else lower_rune r) s)"

text \<open>
  \<open>strings.EqualFold\<close> against a lower-case ASCII word: two runes outside ASCII fold to a letter of it,
  the long s (U+017F) and the Kelvin sign (U+212A).
\<close>

definition fold_rune :: "nat \<Rightarrow> nat" where
  "fold_rune r =
     (if r < 128 then bval (lower_ascii (char_of r))
      else if r = 0x17f then 115 else if r = 0x212a then 107 else r)"

definition equal_fold :: "bytes \<Rightarrow> bytes \<Rightarrow> bool" where
  "equal_fold s word \<longleftrightarrow> map_runes fold_rune s = word"

definition trim_brackets :: "bytes \<Rightarrow> bytes" where
  "trim_brackets s =
     (let br = (\<lambda>c. c = CHR ''['' \<or> c = CHR '']'') in rev (dropWhile br (rev (dropWhile br s))))"

end
