(* ===== verification/Net_Addr_Facts.thy ===== *)
theory Net_Addr_Facts
  imports Net_Addr
begin

text \<open>
  The text of an address reads back as the address, whatever the address; a host and a port joined
  come apart again; and a prefix contains the addresses of an interval.
\<close>

section \<open>IPv4\<close>

lemma digit_char_facts [simp]: "d < 10 \<Longrightarrow> is_digit (digit_char d)" "d < 10 \<Longrightarrow> bval (digit_char d) - 48 = d"
  by (auto simp: is_digit_def bval_digit_char)

lemma itoa_byte:
  "n < 256 \<Longrightarrow> itoa n = (if n < 10 then [digit_char n]
     else if n < 100 then [digit_char (n div 10), digit_char (n mod 10)]
     else [digit_char (n div 100), digit_char (n div 10 mod 10), digit_char (n mod 10)])"
  by (auto simp: itoa.simps [of n] itoa.simps [of "n div 10"] itoa.simps [of "n div 100"] div_mult2_eq [symmetric])

lemma parse4_digit:
  "d < 10 \<Longrightarrow> \<not> (k = 1 \<and> v = 0) \<Longrightarrow> 10 * v + d \<le> 255 \<Longrightarrow>
     parse4_fields (digit_char d # r) v k fs = parse4_fields r (10 * v + d) (Suc k) fs"
  by (auto simp: Let_def)

lemma parse4_itoa:
  assumes "n < 256"
  shows "\<exists>k. 0 < k \<and> parse4_fields (itoa n @ r) 0 0 fs = parse4_fields r n k fs"
proof -
  have e: "10 * (n div 100) + n div 10 mod 10 = n div 10" "10 * (n div 10) + n mod 10 = n"
    by (simp_all add: div_mult2_eq [of n 10 10, simplified])
  consider "n < 10" | "10 \<le> n" "n < 100" | "100 \<le> n" by linarith
  then show ?thesis
  proof cases
    case 1
    then show ?thesis by (intro exI [of _ 1]) (simp add: itoa_byte parse4_digit del: parse4_fields.simps)
  next
    case 2
    with e assms show ?thesis
      by (intro exI [of _ 2]) (simp add: itoa_byte parse4_digit numeral_2_eq_2 del: parse4_fields.simps)
  next
    case 3
    with e assms show ?thesis
      by (intro exI [of _ 3]) (simp add: itoa_byte parse4_digit numeral_3_eq_3 del: parse4_fields.simps)
  qed
qed

lemma parse4_dot: "0 < k \<Longrightarrow> r \<noteq> [] \<Longrightarrow> length fs < 3 \<Longrightarrow>
    parse4_fields (CHR ''.'' # r) v k fs = parse4_fields r 0 0 (fs @ [char_of v])"
  by (simp add: is_digit_def bval_def)

lemma parse4_number: "length fs = 3 \<Longrightarrow> parse4_fields (itoa (bval d)) 0 0 fs = Some (fs @ [d])"
  using parse4_itoa [of "bval d" "[]" fs] by auto

lemma parse4_number_dot:
  "r \<noteq> [] \<Longrightarrow> length fs < 3 \<Longrightarrow> parse4_fields (itoa (bval d) @ CHR ''.'' # r) 0 0 fs = parse4_fields r 0 0 (fs @ [d])"
  using parse4_itoa [of "bval d" "CHR ''.'' # r" fs] by (auto simp del: parse4_fields.simps simp: parse4_dot)

lemma parse4_join:
  "length fs + length ds = 4 \<Longrightarrow> ds \<noteq> [] \<Longrightarrow>
     parse4_fields (join_with ''.'' (map (itoa \<circ> bval) ds)) 0 0 fs = Some (fs @ ds)"
proof (induction ds arbitrary: fs rule: induct_list012)
  case (3 d e ds)
  have "join_with ''.'' (map (itoa \<circ> bval) (e # ds)) \<noteq> []" by (cases ds) auto
  with 3 show ?case by (simp add: parse4_number_dot comp_def)
qed (auto simp: parse4_number)

lemma be_value_word4: "of_nat (be_value (be_bytes 4 (unat a))) = (a :: 32 word)"
  using unsigned_less [of a, where 'a = nat] by (simp add: be_roundtrip)

lemma parse4_string4: "parse4_fields (string4 a) 0 0 [] = Some (be_bytes 4 (unat a))"
  unfolding string4_def by (subst parse4_join) (auto simp: length_0_conv [symmetric] simp del: length_0_conv)

section \<open>IPv6 groups\<close>

definition not_hex_start :: "bytes \<Rightarrow> bool" where
  "not_hex_start r \<longleftrightarrow> (case r of [] \<Rightarrow> True | c # _ \<Rightarrow> hex_val c = None)"

lemma hex_field_end: "not_hex_start r \<Longrightarrow> hex_field r off acc = Some (off, acc)"
  by (cases r) (auto simp: not_hex_start_def)

lemma hex_field_digit: "d < 16 \<Longrightarrow> off \<le> 3 \<Longrightarrow> hex_field (hex_digit d # r) off acc = hex_field r (Suc off) (16 * acc + d)"
  by (simp add: hex_val_digit)

lemma hex_field_hex16:
  assumes "x < 65536" and "not_hex_start r"
  shows "hex_field (hex16 x @ r) 0 0 = Some (length (hex16 x), x)"
proof -
  have "16 * (16 * (x div 4096) + x div 256 mod 16) + x div 16 mod 16 = x div 16" "16 * (x div 256) + x div 16 mod 16 = x div 16"
    "16 * (x div 16) + x mod 16 = x" "x div 4096 < 16"
    using assms(1) by (simp_all add: div_mult2_eq [of x 16 16, simplified] div_mult2_eq [of x 256 16, simplified])
  moreover have "x < 4096 \<Longrightarrow> x div 256 < 16" "x < 256 \<Longrightarrow> x div 16 < 16" by simp_all
  ultimately show ?thesis using hex_field_end [OF assms(2)]
    by (simp add: hex16_def hex_field_digit del: hex_field.simps)
qed

lemma hex_digit_not: "n < 16 \<Longrightarrow> hex_digit n \<noteq> CHR '':'' \<and> hex_digit n \<noteq> CHR ''.'' \<and> hex_digit n \<noteq> CHR ''%''"
  using hex_val_digit [of n] by (auto simp: hex_val_def bval_def)

lemma hex16_Cons: "\<exists>d s. hex16 x = hex_digit d # s \<and> d < 16" if "x < 65536"
  using that by (auto simp: hex16_def)

lemma hex16_not_Nil [simp]: "hex16 x \<noteq> []"
  by (simp add: hex16_def)


lemma not_hex_colon [simp]: "not_hex_start (CHR '':'' # r)" "not_hex_start []" "not_hex_start (CHR ''.'' # r)"
  by (simp_all add: not_hex_start_def hex_val_def bval_def)

text \<open>The bytes of a list of groups.\<close>

definition group_bytes :: "nat list \<Rightarrow> bytes" where
  "group_bytes gs = concat (map (\<lambda>g. [char_of (g div 256), char_of (g mod 256)]) gs)"

lemma group_bytes_simps [simp]:
  "group_bytes [] = []" "group_bytes (g # gs) = [char_of (g div 256), char_of (g mod 256)] @ group_bytes gs"
  "group_bytes (gs @ hs) = group_bytes gs @ group_bytes hs" "length (group_bytes gs) = 2 * length gs"
  by (simp_all add: group_bytes_def) (induction gs, simp_all)

lemma groups_text_simps [simp]:
  "groups_text [] = []" "groups_text [g] = hex16 g" "groups_text (g # h # gs) = hex16 g @ '':'' @ groups_text (h # gs)"
  by (simp_all add: groups_text_def)

lemma groups_text_Nil_iff [simp]: "groups_text gs = [] \<longleftrightarrow> gs = []"
  by (induction gs rule: induct_list012) simp_all

lemma parse6_group_end:
  "g < 65536 \<Longrightarrow> length ip < 16 \<Longrightarrow>
     parse6_groups (hex16 g) ip ell = Some ([], ip @ [char_of (g div 256), char_of (g mod 256)], ell)"
  using hex_field_hex16 [of g "[]"] by (simp add: parse6_groups.simps [of "hex16 g"])

lemma parse6_group_next:
  "g < 65536 \<Longrightarrow> length ip < 16 \<Longrightarrow> c \<noteq> CHR '':'' \<Longrightarrow>
     parse6_groups (hex16 g @ CHR '':'' # c # r) ip ell
       = parse6_groups (c # r) (ip @ [char_of (g div 256), char_of (g mod 256)]) ell"
  using hex_field_hex16 [of g "CHR '':'' # c # r"]
  by (simp add: parse6_groups.simps [of "hex16 g @ CHR '':'' # c # r"] nth_append Let_def)

lemma parse6_group_ellipsis:
  "g < 65536 \<Longrightarrow> length ip < 16 \<Longrightarrow>
     parse6_groups (hex16 g @ ''::'' @ r) ip None
       = (let ip' = ip @ [char_of (g div 256), char_of (g mod 256)] in
          if r = [] then Some ([], ip', Some (length ip')) else parse6_groups r ip' (Some (length ip')))"
  using hex_field_hex16 [of g "''::'' @ r"]
  by (simp add: parse6_groups.simps [of "hex16 g @ CHR '':'' # CHR '':'' # r"] nth_append Let_def)

lemma groups_text_Cons:
  "g < 65536 \<Longrightarrow> \<exists>c r. groups_text (g # gs) = c # r \<and> c \<noteq> CHR '':''"
  using hex16_Cons [of g] hex_digit_not by (cases gs) auto

lemma parse6_groups_text:
  "gs \<noteq> [] \<Longrightarrow> \<forall>g \<in> set gs. g < 65536 \<Longrightarrow> length ip + 2 * length gs \<le> 16 \<Longrightarrow>
     parse6_groups (groups_text gs) ip ell = Some ([], ip @ group_bytes gs, ell)"
proof (induction gs arbitrary: ip rule: induct_list012)
  case (3 g h gs)
  obtain c r where c: "groups_text (h # gs) = c # r" "c \<noteq> CHR '':''"
    using groups_text_Cons [of h gs] 3(4) by auto
  show ?case using parse6_group_next [of g ip c r ell] 3(2) [of "ip @ [char_of (g div 256), char_of (g mod 256)]"] 3(4,5) c
    by simp
qed (auto simp: parse6_group_end)

lemma parse6_groups_ellipsis:
  "gs \<noteq> [] \<Longrightarrow> \<forall>g \<in> set gs. g < 65536 \<Longrightarrow> length ip + 2 * length gs \<le> 16 \<Longrightarrow>
     parse6_groups (groups_text gs @ ''::'' @ r) ip None
       = (let ip' = ip @ group_bytes gs in
          if r = [] then Some ([], ip', Some (length ip')) else parse6_groups r ip' (Some (length ip')))"
proof (induction gs arbitrary: ip rule: induct_list012)
  case (2 g)
  then show ?case using parse6_group_ellipsis [of g ip r] by simp
next
  case (3 g h gs)
  obtain c t where c: "groups_text (h # gs) = c # t" "c \<noteq> CHR '':''"
    using groups_text_Cons [of h gs] 3(4) by auto
  show ?case
    using parse6_group_next [of g ip c "t @ ''::'' @ r" None] 3(2) [of "ip @ [char_of (g div 256), char_of (g mod 256)]"] 3(4,5) c
    by simp
qed simp

section \<open>Compressed groups\<close>

lemma longest_run_zero:
  assumes "longest_run gs = Some (i, l)"
  shows "gs = take i gs @ replicate l 0 @ drop (i + l) gs" and "2 \<le> l" and "i + l \<le> length gs"
proof -
  let ?ok = "\<lambda>b. case b of None \<Rightarrow> True | Some (i, l) \<Rightarrow> l = zero_run gs i \<and> 2 \<le> l \<and> i \<le> length gs"
  have "?ok b \<Longrightarrow> \<forall>k \<in> set ks. k \<le> length gs \<Longrightarrow> ?ok (foldl (longer_run gs) b ks)" for b ks
    by (induction ks arbitrary: b) (auto simp: longer_run_def Let_def)
  from this [of None "[0..<length gs]"] assms
  have r: "l = zero_run gs i" "2 \<le> l" "i \<le> length gs" by (auto simp: longest_run_def)
  have t: "takeWhile (\<lambda>g. g = 0) (drop i gs) = replicate l 0"
    using r(1) by (intro replicate_eqI) (auto simp: zero_run_def dest: set_takeWhileD)
  then have "drop i gs = replicate l 0 @ drop l (drop i gs)"
    using takeWhile_dropWhile_id [of "\<lambda>g. g = 0" "drop i gs"] dropWhile_eq_drop [of "\<lambda>g. g = 0" "drop i gs"] by simp
  then show "gs = take i gs @ replicate l 0 @ drop (i + l) gs"
    by (metis append_take_drop_id drop_drop add.commute)
  show "2 \<le> l" by (rule r)
  have "l \<le> length (drop i gs)" unfolding r(1) zero_run_def by (rule length_takeWhile_le)
  then show "i + l \<le> length gs" using r(3) by simp
qed

lemma group_bytes_zero: "group_bytes (replicate l 0) = replicate (2 * l) (char_of (0::nat))"
  by (induction l) simp_all

lemma take2_groups: "gs \<noteq> [] \<Longrightarrow> \<forall>g \<in> set gs. g < 65536 \<Longrightarrow> take 2 (groups_text gs @ r) \<noteq> ''::''"
  using groups_text_Cons [of "hd gs" "tl gs"] by (cases gs) auto

lemma parse6_body_string6:
  assumes g: "\<forall>g \<in> set gs. g < 65536" and n: "length gs = 8"
  shows "parse6_body (string6 gs) = Some (group_bytes gs)"
proof (cases "longest_run gs")
  case None
  have "gs \<noteq> []" using n by auto
  then have "take 2 (groups_text gs) \<noteq> ''::''" "parse6_groups (groups_text gs) [] None = Some ([], group_bytes gs, None)"
    using take2_groups [of gs "[]"] parse6_groups_text [of gs "[]" None] g n by simp_all
  then show ?thesis using None n by (simp add: string6_def parse6_body_def del: take_eq_Nil)
next
  case (Some p)
  obtain i l where p: "longest_run gs = Some (i, l)" using Some by (cases p) auto
  note z = longest_run_zero [OF p]
  define a where "a = take i gs"
  define b where "b = drop (i + l) gs"
  have ab: "gs = a @ replicate l 0 @ b" using z(1) by (simp add: a_def b_def)
  have s: "string6 gs = groups_text a @ ''::'' @ groups_text b" by (simp add: string6_def p a_def b_def)
  have len: "length a + l + length b = 8" using n ab by (metis add.assoc length_append length_replicate)
  have ga: "\<forall>g \<in> set a. g < 65536" "\<forall>g \<in> set b. g < 65536"
    using g by (auto simp: a_def b_def dest: in_set_takeD in_set_dropD)
  have fill: "group_bytes gs = group_bytes a @ replicate (16 - 2 * length a - 2 * length b) (char_of (0::nat)) @ group_bytes b"
  proof -
    have "2 * l = 16 - 2 * length a - 2 * length b" using len by simp
    then show ?thesis unfolding ab by (simp add: group_bytes_zero)
  qed
  have tail: "parse6_groups (groups_text b) ip e = Some ([], ip @ group_bytes b, e)"
    if "b \<noteq> []" "length ip = 2 * length a" for ip e
    using parse6_groups_text [OF that(1) ga(2), of ip e] that(2) len z(2) by simp
  show ?thesis
  proof (cases "a = []")
    case True
    then show ?thesis using s fill tail [of "[]"] len z(2) by (auto simp: parse6_body_def)
  next
    case False
    have "parse6_groups (string6 gs) [] None = Some ([], group_bytes a @ group_bytes b, Some (2 * length a))"
      using parse6_groups_ellipsis [OF False ga(1), of "[]" "groups_text b"] s tail [of "group_bytes a"] len z(2)
      by (auto simp: Let_def)
    moreover have "take 2 (string6 gs) \<noteq> ''::''" unfolding s by (rule take2_groups [OF False ga(1)])
    ultimately show ?thesis using fill len z(2) by (simp add: parse6_body_def)
  qed
qed

section \<open>Every address reads back\<close>

lemma octet_pairs_facts:
  "\<forall>g \<in> set (octet_pairs s). g < 65536" "even (length s) \<Longrightarrow> group_bytes (octet_pairs s) = s"
  "length (octet_pairs s) = length s div 2"
proof (induction s rule: octet_pairs.induct)
  case (1 a b s)
  { case 1
    have "256 * bval a + bval b < 65536" using bval_less_256 [of a] bval_less_256 [of b] by linarith
    then show ?case using "1.IH"(1) by simp }
  { case 2 then show ?case using "1.IH"(2) by simp }
  { case 3 then show ?case using "1.IH"(3) by simp }
qed simp_all

lemma groups6_facts: "\<forall>g \<in> set (groups6 a). g < 65536" "group_bytes (groups6 a) = be_bytes 16 (unat a)" "length (groups6 a) = 8"
  by (simp_all add: groups6_def octet_pairs_facts)

lemma be_value_append_list: "be_value (s @ t) = be_value s * 256 ^ length t + be_value t"
proof (induction t rule: rev_induct)
  case (snoc c t)
  then show ?case by (simp add: be_value_append append_assoc [symmetric] del: append_assoc)
qed (simp add: be_value_def)

lemma be_value_word6: "of_nat (be_value (be_bytes 16 (unat a))) = (a :: 128 word)"
  using unsigned_less [of a, where 'a = nat] by (simp add: be_roundtrip)

lemma hex16_chars: "x < 65536 \<Longrightarrow> c \<in> set (hex16 x) \<Longrightarrow> hex_val c \<noteq> None"
  by (auto simp: hex16_def hex_val_digit split: if_splits)

lemma groups_text_chars:
  "\<forall>g \<in> set gs. g < 65536 \<Longrightarrow> c \<in> set (groups_text gs) \<Longrightarrow> hex_val c \<noteq> None \<or> c = CHR '':''"
  using hex16_chars by (induction gs rule: induct_list012) auto

lemma string6_chars:
  assumes "\<forall>g \<in> set gs. g < 65536" and "c \<in> set (string6 gs)"
  shows "hex_val c \<noteq> None \<or> c = CHR '':''"
proof -
  have sub: "\<forall>g \<in> set (take i gs). g < 65536" "\<forall>g \<in> set (drop i gs). g < 65536" for i
    using assms(1) by (meson in_set_takeD in_set_dropD)+
  consider "c \<in> set (groups_text gs)" | i where "c \<in> set (groups_text (take i gs))" | "c = CHR '':''"
    | i where "c \<in> set (groups_text (drop i gs))"
    using assms(2) unfolding string6_def by (auto split: option.splits)
  then show ?thesis by cases (use groups_text_chars assms(1) sub in blast)+
qed

lemma string6_colon: "length gs = 8 \<Longrightarrow> CHR '':'' \<in> set (string6 gs)"
proof -
  assume "length gs = 8"
  then obtain a b t where "gs = a # b # t" by (cases gs; cases "tl gs") auto
  then show ?thesis by (simp add: string6_def split: option.splits prod.splits)
qed

lemma string4_chars: "c \<in> set (string4 a) \<Longrightarrow> is_digit c \<or> c = CHR ''.''"
proof -
  have "c \<in> set (join_with ''.'' (map (itoa \<circ> bval) ds)) \<Longrightarrow> is_digit c \<or> c = CHR ''.''" for ds
    using itoa_digits by (induction ds rule: induct_list012) (auto simp: is_digit_def)
  then show "c \<in> set (string4 a) \<Longrightarrow> ?thesis" unfolding string4_def .
qed

lemma hex_field_itoa: "not_hex_start r \<Longrightarrow> n < 256 \<Longrightarrow> \<exists>v. hex_field (itoa n @ r) 0 0 = Some (length (itoa n), v)"
proof -
  have d: "hex_val (digit_char d) = Some d" if "d < 10" for d
    using that by (simp add: hex_val_def bval_digit_char)
  show "not_hex_start r \<Longrightarrow> n < 256 \<Longrightarrow> ?thesis" using hex_field_end [of r] by (auto simp: itoa_byte d)
qed

lemma length_4E: "length xs = 4 \<Longrightarrow> \<exists>a b c d. xs = [a, b, c, d]"
  by (auto simp: length_Suc_conv numeral_eq_Suc)

lemma string4_start: "\<exists>n r. string4 a = itoa n @ CHR ''.'' # r \<and> n < 256"
proof -
  obtain b c d e where b: "be_bytes 4 (unat a) = [b, c, d, e]" using length_4E [of "be_bytes 4 (unat a)"] by auto
  show ?thesis
    by (rule exI [of _ "bval b"], rule exI [of _ "itoa (bval c) @ ''.'' @ itoa (bval d) @ ''.'' @ itoa (bval e)"])
      (simp add: string4_def b)
qed

lemma parse6_embedded:
  "length ip = 2 \<Longrightarrow> parse6_groups (string4 a) ip (Some 0) = Some ([], ip @ be_bytes 4 (unat a), Some 0)"
proof -
  assume ip: "length ip = 2"
  obtain n r where s: "string4 a = itoa n @ CHR ''.'' # r" "n < 256" using string4_start by blast
  obtain v where "hex_field (string4 a) 0 0 = Some (length (itoa n), v)"
    using hex_field_itoa [of "CHR ''.'' # r" n] s by auto
  moreover have "length (itoa n) < length (string4 a)" "string4 a ! length (itoa n) = CHR ''.''" by (simp_all add: s)
  ultimately show ?thesis using ip by (simp add: parse6_groups.simps [of "string4 a"] parse4_string4)
qed

lemma parse6_body_mapped:
  "parse6_body (''::ffff:'' @ string4 a) = Some (replicate 10 (char_of (0::nat)) @ [char_of (255::nat), char_of (255::nat)] @ be_bytes 4 (unat a))"
proof -
  obtain n r where s: "string4 a = itoa n @ CHR ''.'' # r" "n < 256" using string4_start by blast
  then have ne: "string4 a \<noteq> []" by simp
  then obtain c t where ct: "string4 a = c # t" by (cases "string4 a") simp_all
  then have "is_digit c \<or> c = CHR ''.''" using string4_chars [of c a] by simp
  then have "c \<noteq> CHR '':''" by (auto simp: is_digit_def bval_def)
  with ct have c: "string4 a = c # t" "c \<noteq> CHR '':''" by simp_all
  have "char_of (102::nat) = CHR ''f''" using char_of_bval [of "CHR ''f''"] by (simp add: bval_def)
  then have "hex16 65535 = ''ffff''" by (simp add: hex16_def hex_digit_def)
  with parse6_group_next [of 65535 "[]" c t "Some 0"] c
  have "parse6_groups (''ffff:'' @ string4 a) [] (Some 0) = parse6_groups (string4 a) [char_of (255::nat), char_of (255::nat)] (Some 0)"
    by simp
  then show ?thesis using parse6_embedded [of "[char_of (255::nat), char_of (255::nat)]" a] by (simp add: parse6_body_def)
qed

text \<open>A mapped address is ten zero bytes, two bytes of ones and the bytes of the IPv4 address.\<close>

lemma mapped_bytes:
  fixes a :: "128 word"
  assumes "drop_bit 32 a = 0xffff"
  shows "of_nat (be_value (replicate 10 (char_of (0::nat)) @ [char_of (255::nat), char_of (255::nat)]
           @ be_bytes 4 (unat (ucast a :: 32 word)))) = a"
proof -
  have "be_value (replicate n (char_of (0::nat))) = 0" for n
    using be_value_append_list [of "[char_of (0::nat)]"] by (induction n) (simp_all add: be_value_def bval_def)
  then have "be_value (replicate 10 (char_of (0::nat)) @ [char_of (255::nat), char_of (255::nat)]) = 0xffff"
    by (simp add: be_value_append_list) (simp add: be_value_def bval_char_of)
  then have v: "be_value (replicate 10 (char_of (0::nat)) @ [char_of (255::nat), char_of (255::nat)] @ be_bytes 4 (unat (ucast a :: 32 word)))
      = 0xffff * 256 ^ 4 + unat (ucast a :: 32 word)"
    using unsigned_less [of "ucast a :: 32 word", where 'a = nat] be_value_append_list [of "replicate 10 (char_of (0::nat)) @ [char_of (255::nat), char_of (255::nat)]"]
    by (simp add: be_roundtrip)
  have "unat (drop_bit 32 a) = 0xffff" by (simp add: assms)
  then have "unat a div 2 ^ 32 = 0xffff" by (simp add: drop_bit_eq_div unat_div)
  moreover have "unat (ucast a :: 32 word) = unat a mod 2 ^ 32" by (simp add: unsigned_ucast_eq take_bit_eq_mod)
  ultimately have "unat a = 0xffff * 256 ^ 4 + unat (ucast a :: 32 word)" using div_mult_mod_eq [of "unat a" "2 ^ 32"] by simp
  then have "of_nat (0xffff * 256 ^ 4 + unat (ucast a :: 32 word)) = (of_nat (unat a) :: 128 word)" by simp
  then show ?thesis unfolding v by (simp only: of_nat_unat ucast_id)
qed

lemma find_append: "find P (s @ t) = (case find P s of None \<Rightarrow> find P t | Some x \<Rightarrow> Some x)"
  by (induction s) simp_all

lemma addr_text_bytes:
  fixes a z
  defines "t \<equiv> if Is4In6 (Addr6 a z) then ''::ffff:'' @ string4 (ucast a) else string6 (groups6 a)"
  shows "map_option (\<lambda>ip. of_nat (be_value ip)) (parse6_body t) = Some a"
    and "CHR ''%'' \<notin> set t" and "find (\<lambda>c. c = CHR ''.'' \<or> c = CHR '':'' \<or> c = CHR ''%'') t = Some (CHR '':'')"
proof -
  have h: "hex_val (CHR ''%'') = None" "hex_val (CHR ''.'') = None" "\<not> is_digit (CHR ''%'')"
    by (simp_all add: hex_val_def is_digit_def bval_def)
  show "map_option (\<lambda>ip. of_nat (be_value ip)) (parse6_body t) = Some a"
    unfolding t_def using groups6_facts [of a] be_value_word6 [of a] mapped_bytes [of a]
    by (simp add: parse6_body_mapped [of "ucast a", simplified] parse6_body_string6)
  show "CHR ''%'' \<notin> set t"
    using string6_chars [OF groups6_facts(1), of "CHR ''%''" a] string4_chars [of "CHR ''%''"] h by (auto simp: t_def)
  show "find (\<lambda>c. c = CHR ''.'' \<or> c = CHR '':'' \<or> c = CHR ''%'') t = Some (CHR '':'')"
  proof (cases "Is4In6 (Addr6 a z)")
    case False
    have "find (\<lambda>c. c = CHR ''.'' \<or> c = CHR '':'' \<or> c = CHR ''%'') (string6 (groups6 a)) \<noteq> None"
      using string6_colon [OF groups6_facts(3)] by (auto simp: find_None_iff)
    moreover have "c = CHR '':''"
      if "find (\<lambda>c. c = CHR ''.'' \<or> c = CHR '':'' \<or> c = CHR ''%'') (string6 (groups6 a)) = Some c" for c
      using find_member [OF that] string6_chars [OF groups6_facts(1), of c a] h by auto
    ultimately show ?thesis using False by (auto simp: t_def)
  qed (simp add: t_def)
qed

theorem ParseAddr_String: "ParseAddr (addr_String a) = Some a"
proof (cases a)
  case (Addr4 w)
  have "CHR ''.'' \<in> set (string4 w)" using string4_start [of w] by auto
  then have "find (\<lambda>c. c = CHR ''.'' \<or> c = CHR '':'' \<or> c = CHR ''%'') (string4 w) \<noteq> None" by (auto simp: find_None_iff)
  moreover have "c = CHR ''.''"
    if "find (\<lambda>c. c = CHR ''.'' \<or> c = CHR '':'' \<or> c = CHR ''%'') (string4 w) = Some c" for c
    using find_member [OF that] string4_chars [of c w] by (auto simp: is_digit_def bval_def)
  ultimately show ?thesis
    using Addr4 be_value_word4 [of w] by (auto simp: ParseAddr_def parse4_def parse4_string4)
next
  case (Addr6 w z)
  define t where "t = (if Is4In6 (Addr6 w z) then ''::ffff:'' @ string4 (ucast w) else string6 (groups6 w))"
  note t = addr_text_bytes [of w z, folded t_def]
  obtain ip where ip: "parse6_body t = Some ip" "of_nat (be_value ip) = w" using t(1) by auto
  have s: "addr_String a = t @ (if z = [] then [] else CHR ''%'' # z)" by (simp add: Addr6 t_def)
  have "index_byte (t @ CHR ''%'' # z) (CHR ''%'') = Some (length t)"
    using t(2) by (simp add: index_byte_append index_byte_None)
  moreover have "index_byte t (CHR ''%'') = None" using t(2) by (simp add: index_byte_None)
  ultimately show ?thesis using t(3) ip unfolding s ParseAddr_def by (simp add: find_append parse6_def Addr6)
qed

section \<open>What a prefix contains\<close>

lemma drop_bit_xor_zero: "drop_bit k (a XOR p) = 0 \<longleftrightarrow> unat a div 2 ^ k = unat p div 2 ^ k" for a p :: "'a::len word"
proof -
  have "x XOR y = 0 \<longleftrightarrow> x = y" for x y :: "'a word"
    by (metis xor_self_eq xor.assoc xor.right_neutral xor.left_neutral)
  then have "drop_bit k (a XOR p) = 0 \<longleftrightarrow> drop_bit k a = drop_bit k p" by (simp add: drop_bit_xor)
  also have "\<dots> \<longleftrightarrow> unat (drop_bit k a) = unat (drop_bit k p)" by (auto intro: unsigned_word_eqI)
  finally have e: "drop_bit k (a XOR p) = 0 \<longleftrightarrow> unat (drop_bit k a) = unat (drop_bit k p)" .
  have u: "unat (drop_bit k x) = unat x div 2 ^ k" for x :: "'a word" by (metis unat_drop_bit_eq drop_bit_eq_div)
  show ?thesis unfolding e u ..
qed

lemma contains4: "prefix_contains (Prefix (Addr4 p) n) (Addr4 a) \<longleftrightarrow> unat a div 2 ^ (32 - n) = unat p div 2 ^ (32 - n)"
  by (simp add: drop_bit_xor_zero del: drop_bit_xor)

lemma and_mask6_zero: "x AND mask6 n = 0 \<longleftrightarrow> drop_bit (128 - n) x = 0"
proof -
  have "bit (x AND mask6 n) k \<longleftrightarrow> 128 - n \<le> k \<and> bit x k" for k
    unfolding mask6_def by (auto simp: bit_simps dest: bit_imp_le_length)
  moreover have "bit (drop_bit (128 - n) x) k \<longleftrightarrow> bit x (128 - n + k)" for k by (simp add: bit_simps)
  moreover have z: "y = 0 \<longleftrightarrow> (\<forall>k. \<not> bit y k)" for y :: "128 word" by (auto intro: bit_eqI)
  ultimately have "x AND mask6 n = 0 \<longleftrightarrow> (\<forall>k. 128 - n \<le> k \<longrightarrow> \<not> bit x k)"
    "drop_bit (128 - n) x = 0 \<longleftrightarrow> (\<forall>k. \<not> bit x (128 - n + k))"
    by (simp_all add: z)
  then show ?thesis by (metis le_add1 le_add_diff_inverse)
qed

lemma contains6:
  "prefix_contains (Prefix (Addr6 p z) n) (Addr6 a y) \<longleftrightarrow> y = [] \<and> unat a div 2 ^ (128 - n) = unat p div 2 ^ (128 - n)"
  by (simp add: and_mask6_zero drop_bit_xor_zero del: drop_bit_xor)

section \<open>Hosts and ports\<close>

lemma last_index_byte_append:
  "c \<notin> set t \<Longrightarrow> last_index_byte (s @ c # t) c = Some (length s)"
  using index_byte_append [of c "rev t" "c # rev s"] by (simp add: last_index_byte_def)

lemma addr_chars:
  assumes "Zone a = []" and "c \<in> set (addr_String a)"
  shows "hex_val c \<noteq> None \<or> c = CHR ''.'' \<or> c = CHR '':''"
proof -
  have d: "is_digit x \<Longrightarrow> hex_val x \<noteq> None" for x by (simp add: hex_val_def is_digit_def)
  have f: "hex_val (CHR ''f'') \<noteq> None" by (simp add: hex_val_def bval_def)
  show ?thesis
    using assms string4_chars [of c] string6_chars [OF groups6_facts(1), of c] d [of c] f
    by (cases a) (auto split: if_splits)
qed

text \<open>The address a host and a port are joined from comes out of them again.\<close>

lemma SplitHostPort_Join:
  assumes h: "\<And>c. c \<in> set h \<Longrightarrow> c \<noteq> CHR ''['' \<and> c \<noteq> CHR '']''"
    and p: "\<And>c. c \<in> set p \<Longrightarrow> c \<noteq> CHR ''['' \<and> c \<noteq> CHR '']'' \<and> c \<noteq> CHR '':''"
  shows "SplitHostPort (JoinHostPort h p) = Some (h, p)"
proof (cases "CHR '':'' \<in> set h")
  case True
  have "last_index_byte (''['' @ h @ '']:'' @ p) (CHR '':'') = Some (length h + 2)"
    using last_index_byte_append [of "CHR '':''" p "''['' @ h @ '']''"] p by auto
  moreover have "index_byte (''['' @ h @ '']:'' @ p) (CHR '']'') = Some (length h + 1)"
    using index_byte_append [of "CHR '']''" "''['' @ h" "'']:'' @ p"] h by auto
  ultimately show ?thesis using True h p by (auto simp: SplitHostPort_def JoinHostPort_def)
next
  case False
  have "last_index_byte (h @ '':'' @ p) (CHR '':'') = Some (length h)"
    using last_index_byte_append [of "CHR '':''" p h] p by auto
  moreover have "(h @ '':'' @ p) ! 0 \<noteq> CHR ''[''" using h by (cases h) auto
  ultimately show ?thesis using False h p by (auto simp: SplitHostPort_def JoinHostPort_def)
qed

end
