(* ===== verification/Ssrf.thy ===== *)
theory Ssrf
  imports Net_Addr_Facts
begin

text \<open>
  The outbound guard (shared/platform/ssrf/ssrf.go): which addresses the proxy may connect to, checked
  before a request and again when the connection is made. An error is a value of \<open>ssrf_error\<close>; the
  refusals of the policy (\<open>BlockedError\<close>) are its constructor \<open>Blocked\<close>, with what the message names.
  Functions that return only an error return \<open>None\<close> for nil.

  Parameters stand for what the guard is given: \<open>lower_rune\<close>, the case table of Unicode beyond ASCII;
  \<open>url_Parse\<close> and \<open>url_String\<close>, the reader and the writer of URLs; the resolver; and the raw dialer,
  which maps an address to a connection, or to \<open>None\<close> when it fails.
\<close>

section \<open>Errors and tables\<close>

datatype refusal =
    RangeBlocked Addr bytes Prefix
  | RangeSuggest Addr bytes Prefix bytes
  | PrivateManaged Addr bytes
  | PrivateSuggest Addr bytes bytes
  | LoopbackHost bytes
  | ManagedPort

datatype ssrf_error =
    Blocked refusal
  | InvalidURL | SchemeNotPermitted bytes | EmbeddedCredentials | MissingHost | InvalidHost
  | ResolutionFailed bytes | NoAddresses bytes | UnparsedIP bytes
  | InvalidDialAddress | DialFailed bytes | RawDialFailed
  | ProxyInManagedMode | DirectToProxy | ProxySelectorFailed

fun IsBlocked :: "ssrf_error \<Rightarrow> bool" where
  "IsBlocked (Blocked _) \<longleftrightarrow> True"
| "IsBlocked _ \<longleftrightarrow> False"

text \<open>A table is built when the program starts; an entry that does not parse stops the program.\<close>

definition prefix_table :: "bytes list \<Rightarrow> Prefix list option" where
  "prefix_table raw = those (map (\<lambda>s. map_option Masked (ParsePrefix s)) raw)"

definition loopbackPrefixes :: "Prefix list option" where
  "loopbackPrefixes = prefix_table [''127.0.0.0/8'', ''::1/128'']"

definition blockedPrefixes :: "Prefix list option" where
  "blockedPrefixes = prefix_table
     [''169.254.0.0/16'', ''fe80::/10'', ''fc00::/7'', ''0.0.0.0/8'', ''::/128'', ''224.0.0.0/4'', ''ff00::/8'',
      ''192.0.2.0/24'', ''198.51.100.0/24'', ''203.0.113.0/24'', ''2001:db8::/32'', ''100.64.0.0/10'', ''192.0.0.0/24'',
      ''240.0.0.0/4'', ''100::/64'', ''64:ff9b::/96'', ''64:ff9b:1::/48'', ''2001::/32'', ''2002::/16'', ''::ffff:0:0/96'']"

definition selfHostedSyntheticPrefixes :: "Prefix list option" where
  "selfHostedSyntheticPrefixes = prefix_table [''198.18.0.0/15'', ''fdfe:dcba:9876::/64'']"

definition privateRFC1918 :: "Prefix list option" where
  "privateRFC1918 = prefix_table [''10.0.0.0/8'', ''172.16.0.0/12'', ''192.168.0.0/16'']"

text \<open>The first prefix of a table that contains an address.\<close>

definition first_containing :: "Prefix list option \<Rightarrow> Addr \<Rightarrow> Prefix option" where
  "first_containing table a = (case table of None \<Rightarrow> None | Some ps \<Rightarrow> find (\<lambda>p. prefix_contains p a) ps)"

definition inRFC1918 :: "Addr \<Rightarrow> bool" where
  "inRFC1918 a \<longleftrightarrow> first_containing privateRFC1918 a \<noteq> None"

section \<open>Configuration\<close>

record Config =
  ManagedMode :: bool
  AllowList :: "bytes list"
  ConnectTimeout :: int

definition ManagedConfig :: Config where
  "ManagedConfig = \<lparr>ManagedMode = True, AllowList = [], ConnectTimeout = 0\<rparr>"

definition SelfHostedConfig :: "bytes list \<Rightarrow> Config" where
  "SelfHostedConfig allowList = \<lparr>ManagedMode = False, AllowList = allowList, ConnectTimeout = 0\<rparr>"

definition second_ns :: int where
  "second_ns = 1000000000"

text \<open>The connect timeout and the keep-alive interval of the dialer, in nanoseconds.\<close>

definition newDialer :: "Config \<Rightarrow> int \<times> int" where
  "newDialer cfg =
     (if ConnectTimeout cfg \<le> 0 then (if ManagedMode cfg then 3 * second_ns else 30 * second_ns)
      else ConnectTimeout cfg, 30 * second_ns)"

section \<open>The allow list\<close>

text \<open>An entry with a port permits that port only, an entry without one every port.\<close>

fun isInAllowList :: "(nat \<Rightarrow> nat) \<Rightarrow> bytes \<Rightarrow> bytes \<Rightarrow> bytes list \<Rightarrow> bool" where
  "isInAllowList lower_rune host port [] \<longleftrightarrow> False"
| "isInAllowList lower_rune host port (entry # rest) \<longleftrightarrow>
     (let h = ToLower lower_rune (trim_brackets host); raw = trim_space entry in
      case SplitHostPort raw of
        Some (entryHost, entryPort) \<Rightarrow>
          (ToLower lower_rune (trim_brackets entryHost) = h \<and> entryPort = port) \<or> isInAllowList lower_rune host port rest
      | None \<Rightarrow> ToLower lower_rune (trim_brackets raw) = h \<or> isInAllowList lower_rune host port rest)"

definition allowListSuggestion :: "Addr \<Rightarrow> bytes \<Rightarrow> bytes" where
  "allowListSuggestion a port = (if port = [] then addr_String a else JoinHostPort (addr_String a) port)"

section \<open>The check of one address\<close>

definition checkAddr :: "(nat \<Rightarrow> nat) \<Rightarrow> Addr \<Rightarrow> bytes \<Rightarrow> bytes \<Rightarrow> Config \<Rightarrow> ssrf_error option" where
  "checkAddr lower_rune addr0 host port cfg =
     (let a = Unmap (WithZone addr0 []);
          listed = (\<lambda>h. isInAllowList lower_rune h port (AllowList cfg))
      in case first_containing loopbackPrefixes a of
        Some p \<Rightarrow>
          if \<not> ManagedMode cfg \<and> (listed host \<or> listed (addr_String a) \<or> listed ''localhost'') then None
          else if \<not> ManagedMode cfg then Some (Blocked (RangeSuggest a host p (allowListSuggestion a port)))
          else Some (Blocked (RangeBlocked a host p))
      | None \<Rightarrow>
          (case first_containing selfHostedSyntheticPrefixes a of
             Some p \<Rightarrow> if \<not> ManagedMode cfg then None else Some (Blocked (RangeBlocked a host p))
           | None \<Rightarrow>
               (case first_containing blockedPrefixes a of
                  Some p \<Rightarrow> Some (Blocked (RangeBlocked a host p))
                | None \<Rightarrow>
                    if inRFC1918 a then
                      (if ManagedMode cfg then Some (Blocked (PrivateManaged a host))
                       else if \<not> listed host \<and> \<not> listed (addr_String a)
                       then Some (Blocked (PrivateSuggest a host (allowListSuggestion a port)))
                       else None)
                    else None)))"

section \<open>The check before a request\<close>

definition validateHostInput :: "bytes \<Rightarrow> ssrf_error option" where
  "validateHostInput host =
     (if host = [] then Some InvalidHost
      else if ParseAddr host \<noteq> None then None
      else if list_ex (\<lambda>c. c \<in> set ''/?#@'' \<or> c = CHR 0x5C \<or> c \<in> set '':%'') host then Some InvalidHost
      else None)"

text \<open>The name localhost is refused unless a self-hosted configuration lists it.\<close>

definition localhost_refused :: "(nat \<Rightarrow> nat) \<Rightarrow> bytes \<Rightarrow> bytes \<Rightarrow> Config \<Rightarrow> bool" where
  "localhost_refused lower_rune host port cfg \<longleftrightarrow>
     equal_fold host ''localhost'' \<and> \<not> (\<not> ManagedMode cfg \<and> isInAllowList lower_rune host port (AllowList cfg))"

text \<open>A URL after parsing: its scheme, whether it has user information, and its host with port.\<close>

record URL =
  url_Scheme :: bytes
  url_User :: bool
  url_Host :: bytes

definition url_split :: "URL \<Rightarrow> bytes \<times> bytes" where
  "url_split u =
     (let s = url_Host u;
          (h, p) = (case last_index_byte s (CHR '':'') of
            Some i \<Rightarrow> if list_all is_digit (drop (i + 1) s) then (take i s, drop (i + 1) s) else (s, [])
          | None \<Rightarrow> (s, []))
      in if length h \<ge> 2 \<and> h ! 0 = CHR ''['' \<and> last h = CHR '']'' then (drop 1 (butlast h), p) else (h, p))"

definition Hostname :: "URL \<Rightarrow> bytes" where "Hostname u = fst (url_split u)"

definition url_Port :: "URL \<Rightarrow> bytes" where "url_Port u = snd (url_split u)"

definition parseValidatedURL :: "(bytes \<Rightarrow> URL option) \<Rightarrow> bytes \<Rightarrow> Config \<Rightarrow> ssrf_error + bytes \<times> bytes" where
  "parseValidatedURL url_Parse raw cfg =
     (case url_Parse raw of
        None \<Rightarrow> Inl InvalidURL
      | Some u \<Rightarrow>
          if url_Scheme u \<noteq> ''https'' \<and> \<not> (url_Scheme u = ''http'' \<and> \<not> ManagedMode cfg)
          then Inl (SchemeNotPermitted (url_Scheme u))
          else if url_User u then Inl EmbeddedCredentials
          else let host = Hostname u; port = url_Port u in
            if host = [] then Inl MissingHost
            else if ManagedMode cfg \<and> port \<noteq> [] \<and> port \<noteq> ''443'' then Inl (Blocked ManagedPort)
            else Inr (host, if port = [] then (if url_Scheme u = ''https'' then ''443'' else ''80'') else port))"

text \<open>\<open>netip.AddrFromSlice\<close>: four bytes or sixteen.\<close>

definition AddrFromSlice :: "bytes \<Rightarrow> Addr option" where
  "AddrFromSlice ip =
     (if length ip = 4 then Some (Addr4 (of_nat (be_value ip)))
      else if length ip = 16 then Some (Addr6 (of_nat (be_value ip)) [])
      else None)"

fun check_resolved :: "(nat \<Rightarrow> nat) \<Rightarrow> bytes list \<Rightarrow> bytes \<Rightarrow> bytes \<Rightarrow> Config \<Rightarrow> ssrf_error option" where
  "check_resolved lower_rune [] host port cfg = None"
| "check_resolved lower_rune (ip # ips) host port cfg =
     (case AddrFromSlice ip of
        None \<Rightarrow> Some (UnparsedIP ip)
      | Some a \<Rightarrow>
          (case checkAddr lower_rune (Unmap a) host port cfg of
             Some e \<Rightarrow> Some e
           | None \<Rightarrow> check_resolved lower_rune ips host port cfg))"

definition validateHostPort ::
    "(nat \<Rightarrow> nat) \<Rightarrow> (bytes \<Rightarrow> bytes list option) \<Rightarrow> bytes \<Rightarrow> bytes \<Rightarrow> Config \<Rightarrow> ssrf_error option" where
  "validateHostPort lower_rune lookup_ip host port cfg =
     (case validateHostInput host of
        Some e \<Rightarrow> Some e
      | None \<Rightarrow>
          (case ParseAddr host of
             Some a \<Rightarrow> checkAddr lower_rune a host port cfg
           | None \<Rightarrow>
               if localhost_refused lower_rune host port cfg then Some (Blocked (LoopbackHost host))
               else (case lookup_ip host of
                  None \<Rightarrow> Some (ResolutionFailed host)
                | Some ips \<Rightarrow> if ips = [] then Some (NoAddresses host) else check_resolved lower_rune ips host port cfg)))"

definition ValidateHost :: "(nat \<Rightarrow> nat) \<Rightarrow> (bytes \<Rightarrow> bytes list option) \<Rightarrow> bytes \<Rightarrow> Config \<Rightarrow> ssrf_error option" where
  "ValidateHost lower_rune lookup_ip host cfg = validateHostPort lower_rune lookup_ip host [] cfg"

definition ValidateURL ::
    "(nat \<Rightarrow> nat) \<Rightarrow> (bytes \<Rightarrow> URL option) \<Rightarrow> (bytes \<Rightarrow> bytes list option) \<Rightarrow> bytes \<Rightarrow> Config \<Rightarrow> ssrf_error option" where
  "ValidateURL lower_rune url_Parse lookup_ip raw cfg =
     (case parseValidatedURL url_Parse raw cfg of
        Inl e \<Rightarrow> Some e
      | Inr (host, port) \<Rightarrow> validateHostPort lower_rune lookup_ip host port cfg)"

definition ValidateURLNoResolve :: "(nat \<Rightarrow> nat) \<Rightarrow> (bytes \<Rightarrow> URL option) \<Rightarrow> bytes \<Rightarrow> Config \<Rightarrow> ssrf_error option" where
  "ValidateURLNoResolve lower_rune url_Parse raw cfg =
     (case parseValidatedURL url_Parse raw cfg of
        Inl e \<Rightarrow> Some e
      | Inr (host, port) \<Rightarrow>
          (case validateHostInput host of
             Some e \<Rightarrow> Some e
           | None \<Rightarrow>
               (case ParseAddr host of
                  Some a \<Rightarrow> checkAddr lower_rune a host port cfg
                | None \<Rightarrow>
                    if localhost_refused lower_rune host port cfg then Some (Blocked (LoopbackHost host)) else None)))"

section \<open>The check when dialing\<close>

text \<open>A dial: the addresses handed to the raw dialer, in order, and the outcome.\<close>

fun check_all :: "(nat \<Rightarrow> nat) \<Rightarrow> Addr list \<Rightarrow> bytes \<Rightarrow> bytes \<Rightarrow> Config \<Rightarrow> ssrf_error + Addr list" where
  "check_all lower_rune [] host port cfg = Inr []"
| "check_all lower_rune (resolved # rest) host port cfg =
     (let a = Unmap (WithZone resolved []) in
      case checkAddr lower_rune a host port cfg of
        Some e \<Rightarrow> Inl e
      | None \<Rightarrow>
          (case check_all lower_rune rest host port cfg of
             Inl e \<Rightarrow> Inl e
           | Inr checked \<Rightarrow> Inr (a # checked)))"

fun dial_each :: "(bytes \<Rightarrow> 'conn option) \<Rightarrow> Addr list \<Rightarrow> bytes \<Rightarrow> bytes \<Rightarrow> bytes list \<times> (ssrf_error + 'conn)" where
  "dial_each raw [] host port = ([], Inl (DialFailed host))"
| "dial_each raw (a # rest) host port =
     (let target = JoinHostPort (addr_String a) port in
      case raw target of
        Some conn \<Rightarrow> ([target], Inr conn)
      | None \<Rightarrow> (case dial_each raw rest host port of (log, r) \<Rightarrow> (target # log, r)))"

definition dialContextWith ::
    "(nat \<Rightarrow> nat) \<Rightarrow> Config \<Rightarrow> (bytes \<Rightarrow> Addr list option) \<Rightarrow> (bytes \<Rightarrow> 'conn option) \<Rightarrow> bytes \<Rightarrow>
       bytes list \<times> (ssrf_error + 'conn)" where
  "dialContextWith lower_rune cfg lookup raw addr =
     (case SplitHostPort addr of
        None \<Rightarrow> ([], Inl InvalidDialAddress)
      | Some (host, port) \<Rightarrow>
          (case validateHostInput host of
             Some e \<Rightarrow> ([], Inl e)
           | None \<Rightarrow>
               if ManagedMode cfg \<and> port \<noteq> ''443'' then ([], Inl (Blocked ManagedPort))
               else (case ParseAddr host of
                  Some parsed0 \<Rightarrow>
                    let parsed = Unmap (WithZone parsed0 []) in
                    (case checkAddr lower_rune parsed host port cfg of
                       Some e \<Rightarrow> ([], Inl e)
                     | None \<Rightarrow>
                         let target = JoinHostPort (addr_String parsed) port in
                         ([target], case raw target of Some conn \<Rightarrow> Inr conn | None \<Rightarrow> Inl RawDialFailed))
                | None \<Rightarrow>
                    if localhost_refused lower_rune host port cfg then ([], Inl (Blocked (LoopbackHost host)))
                    else (case lookup host of
                       None \<Rightarrow> ([], Inl (ResolutionFailed host))
                     | Some addrs \<Rightarrow>
                         if addrs = [] then ([], Inl (NoAddresses host))
                         else (case check_all lower_rune addrs host port cfg of
                            Inl e \<Rightarrow> ([], Inl e)
                          | Inr checked \<Rightarrow> dial_each raw checked host port)))))"

section \<open>Clients behind a proxy\<close>

definition defaultPort :: "bytes \<Rightarrow> bytes" where
  "defaultPort scheme =
     (if scheme = ''http'' then ''80''
      else if scheme = ''https'' then ''443''
      else if scheme = ''socks5'' \<or> scheme = ''socks5h'' then ''1080''
      else [])"

definition proxyDialAddr :: "URL \<Rightarrow> bytes" where
  "proxyDialAddr u = JoinHostPort (Hostname u) (if url_Port u = [] then defaultPort (url_Scheme u) else url_Port u)"

text \<open>
  The two hooks of \<open>proxiedHooks\<close> share the set of proxy addresses chosen so far. The argument
  \<open>selected\<close> is what the configured selector answers for the request: an error, no proxy or a proxy.
\<close>

definition proxy_hook ::
    "(nat \<Rightarrow> nat) \<Rightarrow> (bytes \<Rightarrow> URL option) \<Rightarrow> (URL \<Rightarrow> bytes) \<Rightarrow> Config \<Rightarrow> URL \<Rightarrow> URL option option \<Rightarrow> bytes set \<Rightarrow>
       (ssrf_error + URL option) \<times> bytes set" where
  "proxy_hook lower_rune url_Parse url_String cfg req selected proxyAddrs =
     (case selected of
        None \<Rightarrow> (Inl ProxySelectorFailed, proxyAddrs)
      | Some None \<Rightarrow>
          if proxyDialAddr req \<in> proxyAddrs then (Inl DirectToProxy, proxyAddrs) else (Inr None, proxyAddrs)
      | Some (Some u) \<Rightarrow>
          (case ValidateURLNoResolve lower_rune url_Parse (url_String req) cfg of
             Some e \<Rightarrow> (Inl e, proxyAddrs)
           | None \<Rightarrow> (Inr (Some u), insert (proxyDialAddr u) proxyAddrs)))"

definition dial_hook ::
    "(nat \<Rightarrow> nat) \<Rightarrow> Config \<Rightarrow> (bytes \<Rightarrow> Addr list option) \<Rightarrow> (bytes \<Rightarrow> 'conn option) \<Rightarrow> bytes \<Rightarrow> bytes set \<Rightarrow>
       bytes list \<times> (ssrf_error + 'conn)" where
  "dial_hook lower_rune cfg lookup raw addr proxyAddrs =
     (if addr \<in> proxyAddrs then ([addr], case raw addr of Some conn \<Rightarrow> Inr conn | None \<Rightarrow> Inl RawDialFailed)
      else dialContextWith lower_rune cfg lookup raw addr)"

text \<open>\<open>NewHTTPClient\<close>: how a client reaches the network.\<close>

datatype transport = DirectGuarded | ProxiedGuarded | Refusing ssrf_error

definition NewHTTPClient :: "Config \<Rightarrow> bool \<Rightarrow> transport" where
  "NewHTTPClient cfg has_proxy =
     (if \<not> has_proxy then DirectGuarded
      else if ManagedMode cfg then Refusing ProxyInManagedMode
      else ProxiedGuarded)"

text \<open>
  A client with both hooks. The transport asks the proxy hook for each request and dials when it
  needs a connection; requests run concurrently, so asks and dials come in any order. The resolver
  may answer otherwise at each dial and so may the network (\<open>raw n\<close>). The state keeps the remembered
  proxies, the answers given and, per address the transport dialed, what was handed to the raw dialer.
\<close>

record client =
  client_proxies :: "bytes set"
  client_answers :: "(URL \<times> (ssrf_error + URL option)) list"
  client_dials :: "(bytes \<times> bytes) list"

inductive client_reach ::
    "(nat \<Rightarrow> nat) \<Rightarrow> (bytes \<Rightarrow> URL option) \<Rightarrow> (URL \<Rightarrow> bytes) \<Rightarrow> Config \<Rightarrow>
       (nat \<Rightarrow> bytes \<Rightarrow> 'conn option) \<Rightarrow> client \<Rightarrow> bool"
  for lower_rune url_Parse url_String cfg raw where
    start: "client_reach lower_rune url_Parse url_String cfg raw
        \<lparr>client_proxies = {}, client_answers = [], client_dials = []\<rparr>"
  | ask: "client_reach lower_rune url_Parse url_String cfg raw c \<Longrightarrow>
        proxy_hook lower_rune url_Parse url_String cfg req selected (client_proxies c) = (ans, proxies) \<Longrightarrow>
        client_reach lower_rune url_Parse url_String cfg raw
          (c\<lparr>client_proxies := proxies, client_answers := (req, ans) # client_answers c\<rparr>)"
  | dial: "client_reach lower_rune url_Parse url_String cfg raw c \<Longrightarrow>
        client_reach lower_rune url_Parse url_String cfg raw
          (c\<lparr>client_dials := map (Pair addr) (fst (dial_hook lower_rune cfg lookup (raw n) addr (client_proxies c)))
              @ client_dials c\<rparr>)"

end
