(* ===== verification/Ssrf_Facts.thy ===== *)
theory Ssrf_Facts
  imports Ssrf
begin

text \<open>
  What the guard lets through, stated on the numbers of addresses: \<open>permitted\<close> says which addresses a
  configuration allows. The check of an address decides it, every address a dial tries satisfies it,
  and the entry a refusal suggests is accepted.
\<close>

section \<open>The tables\<close>

lemma zeros_value: "foldl (\<lambda>v c. 256 * v + of_char c) x (replicate n (char_of (0::nat))) = x * (256::nat) ^ n"
  by (induction n arbitrary: x) simp_all

lemmas read_prefix = ParsePrefix_def ParseAddr_def parse4_def parse6_def parse6_body_def parse6_groups.simps
  last_index_byte_def hex_val_def is_digit_def bval_def bval_char_of be_value_def zeros_value atoi_def digits_val_def
  max_int_def mask6_def mask_eq_exp_minus_1 Let_def

lemma loopbackPrefixes_eq:
  "loopbackPrefixes = Some [Prefix (Addr4 0x7f000000) 8, Prefix (Addr6 1 []) 128]"
  by (simp add: read_prefix loopbackPrefixes_def prefix_table_def)

lemma selfHostedSyntheticPrefixes_eq:
  "selfHostedSyntheticPrefixes = Some [Prefix (Addr4 0xc6120000) 15, Prefix (Addr6 0xfdfedcba987600000000000000000000 []) 64]"
  by (simp add: read_prefix selfHostedSyntheticPrefixes_def prefix_table_def)

lemma privateRFC1918_eq:
  "privateRFC1918 = Some [Prefix (Addr4 0x0a000000) 8, Prefix (Addr4 0xac100000) 12, Prefix (Addr4 0xc0a80000) 16]"
  by (simp add: read_prefix privateRFC1918_def prefix_table_def)

lemma blockedPrefixes_eq:
  "blockedPrefixes = Some
     [Prefix (Addr4 0xa9fe0000) 16, Prefix (Addr6 0xfe800000000000000000000000000000 []) 10,
      Prefix (Addr6 0xfc000000000000000000000000000000 []) 7, Prefix (Addr4 0) 8, Prefix (Addr6 0 []) 128,
      Prefix (Addr4 0xe0000000) 4, Prefix (Addr6 0xff000000000000000000000000000000 []) 8,
      Prefix (Addr4 0xc0000200) 24, Prefix (Addr4 0xc6336400) 24, Prefix (Addr4 0xcb007100) 24,
      Prefix (Addr6 0x20010db8000000000000000000000000 []) 32, Prefix (Addr4 0x64400000) 10,
      Prefix (Addr4 0xc0000000) 24, Prefix (Addr4 0xf0000000) 4, Prefix (Addr6 0x01000000000000000000000000000000 []) 64,
      Prefix (Addr6 0x0064ff9b000000000000000000000000 []) 96, Prefix (Addr6 0x0064ff9b000100000000000000000000 []) 48,
      Prefix (Addr6 0x20010000000000000000000000000000 []) 32, Prefix (Addr6 0x20020000000000000000000000000000 []) 16,
      Prefix (Addr6 0xffff00000000 []) 96]"
  by (simp add: read_prefix blockedPrefixes_def prefix_table_def)

section \<open>Which addresses may be reached\<close>

fun loopback_net :: "Addr \<Rightarrow> bool" where
  "loopback_net (Addr4 a) \<longleftrightarrow> unat a div 2 ^ 24 = 127"
| "loopback_net (Addr6 a _) \<longleftrightarrow> unat a = 1"

text \<open>The pools of local tunnels: 198.18.0.0/15 and fdfe:dcba:9876::/64.\<close>

fun tunnel_net :: "Addr \<Rightarrow> bool" where
  "tunnel_net (Addr4 a) \<longleftrightarrow> unat a div 2 ^ 17 = 198 * 2 ^ 7 + 9"
| "tunnel_net (Addr6 a _) \<longleftrightarrow> unat a div 2 ^ 64 = 0xfdfedcba98760000"

fun private_net :: "Addr \<Rightarrow> bool" where
  "private_net (Addr4 a) \<longleftrightarrow> unat a div 2 ^ 24 = 10 \<or> unat a div 2 ^ 20 = 172 * 2 ^ 4 + 1 \<or> unat a div 2 ^ 16 = 192 * 2 ^ 8 + 168"
| "private_net (Addr6 _ _) \<longleftrightarrow> False"

text \<open>Link-local (with the metadata service of clouds), unspecified, multicast, reserved and translating ranges.\<close>

fun forbidden_net :: "Addr \<Rightarrow> bool" where
  "forbidden_net (Addr4 a) \<longleftrightarrow>
     (let v = unat a in
      v div 2 ^ 24 = 0 \<or> v div 2 ^ 16 = 169 * 2 ^ 8 + 254 \<or> v div 2 ^ 22 = 100 * 2 ^ 2 + 1 \<or> 224 * 2 ^ 24 \<le> v
      \<or> v div 2 ^ 8 \<in> {0xc00000, 0xc00002, 0xc63364, 0xcb0071})"
| "forbidden_net (Addr6 a _) \<longleftrightarrow>
     (let v = unat a in
      v = 0 \<or> v div 2 ^ 118 = 0xfe80 div 2 ^ 6 \<or> v div 2 ^ 121 = 0xfc div 2 \<or> v div 2 ^ 120 = 0xff
      \<or> v div 2 ^ 96 \<in> {0x20010000, 0x20010db8} \<or> v div 2 ^ 112 = 0x2002 \<or> v div 2 ^ 64 = 0x0100 * 2 ^ 48
      \<or> v div 2 ^ 32 = 0x0064ff9b * 2 ^ 64 \<or> v div 2 ^ 80 = 0x0064ff9b0001 \<or> v div 2 ^ 32 = 0xffff)"

definition permitted :: "(nat \<Rightarrow> nat) \<Rightarrow> Config \<Rightarrow> bytes \<Rightarrow> bytes \<Rightarrow> Addr \<Rightarrow> bool" where
  "permitted lower_rune cfg host port a \<longleftrightarrow>
     (let listed = (\<lambda>h. isInAllowList lower_rune h port (AllowList cfg)) in
      if ManagedMode cfg then \<not> loopback_net a \<and> \<not> tunnel_net a \<and> \<not> forbidden_net a \<and> \<not> private_net a
      else tunnel_net a
        \<or> (\<not> forbidden_net a
           \<and> (loopback_net a \<longrightarrow> listed host \<or> listed (addr_String a) \<or> listed ''localhost'')
           \<and> (private_net a \<longrightarrow> listed host \<or> listed (addr_String a))))"

lemma first_containing_None: "first_containing (Some ps) a = None \<longleftrightarrow> (\<forall>p \<in> set ps. \<not> prefix_contains p a)"
  by (auto simp: first_containing_def find_None_iff)

lemmas in_prefix = contains4 contains6 prefix_contains.simps(3,4)

lemma div_pow_trunc: "v < 2 ^ 32 \<Longrightarrow> v div 2 ^ 28 = 14 \<or> v div 2 ^ 28 = 15 \<longleftrightarrow> 224 * 2 ^ 24 \<le> v" for v :: nat
  by auto

lemma in_loopback: "Zone a = [] \<Longrightarrow> first_containing loopbackPrefixes a = None \<longleftrightarrow> \<not> loopback_net a"
  by (cases a) (auto simp: first_containing_def loopbackPrefixes_eq in_prefix simp del: prefix_contains.simps(1,2))

lemma in_tunnel: "Zone a = [] \<Longrightarrow> first_containing selfHostedSyntheticPrefixes a = None \<longleftrightarrow> \<not> tunnel_net a"
  by (cases a) (auto simp: first_containing_def selfHostedSyntheticPrefixes_eq in_prefix simp del: prefix_contains.simps(1,2))

lemma in_private: "Zone a = [] \<Longrightarrow> inRFC1918 a \<longleftrightarrow> private_net a"
  by (cases a)
    (auto simp: inRFC1918_def first_containing_def privateRFC1918_eq in_prefix simp del: prefix_contains.simps(1,2))


lemma in_forbidden: "Zone a = [] \<Longrightarrow> first_containing blockedPrefixes a = None \<longleftrightarrow> \<not> forbidden_net a"
proof (cases a)
  case (Addr4 w)
  have "unat w div 2 ^ 28 = 14 \<or> unat w div 2 ^ 28 = 15 \<longleftrightarrow> 224 * 2 ^ 24 \<le> unat w"
    using unsigned_less [of w, where 'a = nat] by (intro div_pow_trunc) simp
  then show ?thesis
    by (simp add: Addr4 first_containing_None blockedPrefixes_eq in_prefix Let_def del: prefix_contains.simps(1,2)) blast
next
  case (Addr6 w z)
  moreover assume "Zone a = []"
  ultimately show ?thesis
    by (simp add: first_containing_None blockedPrefixes_eq in_prefix Let_def del: prefix_contains.simps(1,2)) blast
qed

section \<open>The check decides what is permitted\<close>

definition canonical :: "Addr \<Rightarrow> Addr" where
  "canonical a = Unmap (WithZone a [])"

lemma canonical_zone [simp]: "Zone (canonical a) = []"
  by (cases a) (simp_all add: canonical_def)

lemma canonical_idem [simp]: "canonical (canonical a) = canonical a"
  by (cases a) (simp_all add: canonical_def)

lemma apart:
  "loopback_net a \<Longrightarrow> \<not> tunnel_net a \<and> \<not> forbidden_net a \<and> \<not> private_net a"
  "tunnel_net a \<Longrightarrow> \<not> private_net a"
proof -
  have d: "v div (m * k) = v div m div (k::nat)" for v m k by (rule div_mult2_eq)
  { assume "loopback_net a" then show "\<not> tunnel_net a \<and> \<not> forbidden_net a \<and> \<not> private_net a"
      by (cases a) (auto simp: Let_def) }
  { assume "tunnel_net a" then show "\<not> private_net a" by (cases a) auto }
qed

lemma checkAddr_permits:
  "checkAddr lower_rune addr host port cfg = None \<longleftrightarrow> permitted lower_rune cfg host port (canonical addr)"
proof -
  define a where "a = canonical addr"
  have z: "Zone a = []" by (simp add: a_def)
  note t = in_loopback [OF z] in_tunnel [OF z] in_private [OF z] in_forbidden [OF z] apart [of a]
  note unfolds = checkAddr_def canonical_def [symmetric] a_def [symmetric] permitted_def Let_def
  show ?thesis
  proof (cases "loopback_net a")
    case True
    then obtain p where "first_containing loopbackPrefixes a = Some p" using t(1) by auto
    then show ?thesis unfolding unfolds using True apart(1) [OF True] by simp
  next
    case lo: False
    then have l: "first_containing loopbackPrefixes a = None" using t(1) by simp
    show ?thesis
    proof (cases "tunnel_net a")
      case True
      then obtain p where "first_containing selfHostedSyntheticPrefixes a = Some p" using t(2) by auto
      then show ?thesis unfolding unfolds using True l by simp
    next
      case tu: False
      then have s: "first_containing selfHostedSyntheticPrefixes a = None" using t(2) by simp
      show ?thesis
      proof (cases "forbidden_net a")
        case True
        then obtain p where "first_containing blockedPrefixes a = Some p" using t(4) by auto
        then show ?thesis unfolding unfolds using True tu l s by simp
      next
        case False
        then have "first_containing blockedPrefixes a = None" using t(4) by simp
        then show ?thesis unfolding unfolds using False lo tu l s t(3) by simp
      qed
    qed
  qed
qed

section \<open>What a dial tries\<close>

lemma last_index_byte_Some: "last_index_byte s c = Some i \<Longrightarrow> i < length s \<and> s ! i = c \<and> c \<notin> set (drop (i + 1) s)"
proof -
  assume "last_index_byte s c = Some i"
  then obtain k where k: "index_byte (rev s) c = Some k" "i = length s - 1 - k" by (auto simp: last_index_byte_def)
  from index_byte_Some [OF k(1)] have f: "k < length s" "rev s ! k = c" "c \<notin> set (take k (rev s))" by simp_all
  have "set (drop (i + 1) s) = set (take k (rev s))" using f(1) k(2) by (simp add: take_rev Suc_diff_Suc)
  with f k(2) show ?thesis by (simp add: rev_nth)
qed

definition plain_port :: "bytes \<Rightarrow> bool" where
  "plain_port port \<longleftrightarrow> list_all (\<lambda>c. c \<noteq> CHR ''['' \<and> c \<noteq> CHR '']'' \<and> c \<noteq> CHR '':'') port"

lemma SplitHostPort_plain:
  assumes "SplitHostPort s = Some (host, port)"
  shows "plain_port port"
proof -
  obtain i where i: "last_index_byte s (CHR '':'') = Some i" using assms by (auto simp: SplitHostPort_def split: option.splits)
  have p: "port = drop (i + 1) s" using assms i by (auto simp: SplitHostPort_def Let_def split: if_splits option.splits)
  have sub: "set (drop m s) \<subseteq> set (drop n s)" if "n \<le> m" for m n
    using set_drop_subset_set_drop [OF that] .
  have "CHR ''['' \<notin> set port \<and> CHR '']'' \<notin> set port"
  proof (cases "s ! 0 = CHR ''[''")
    case True
    with assms i obtain e where e: "e + 1 = i" "CHR ''['' \<notin> set (drop 1 s)" "CHR '']'' \<notin> set (drop (e + 1) s)"
      by (auto simp: SplitHostPort_def Let_def split: option.splits if_splits)
    then show ?thesis
      using sub [of 1 "i + 1"] sub [of "e + 1" "i + 1"] p by auto
  next
    case False
    with assms i have "CHR ''['' \<notin> set s" "CHR '']'' \<notin> set s"
      by (auto simp: SplitHostPort_def Let_def split: if_splits)
    then show ?thesis using sub [of 0 "i + 1"] p by auto
  qed
  then show ?thesis using last_index_byte_Some [OF i] p by (auto simp: plain_port_def list_all_iff)
qed

text \<open>The literal handed to the raw dialer reads back as the address that was checked.\<close>

lemma literal_reads_back:
  assumes "Zone a = []" and "plain_port port"
  shows "SplitHostPort (JoinHostPort (addr_String a) port) = Some (addr_String a, port)"
    and "ParseAddr (addr_String a) = Some a"
proof -
  have "hex_val (CHR ''['') = None" "hex_val (CHR '']'') = None" by (simp_all add: hex_val_def bval_def)
  then have "c \<noteq> CHR ''['' \<and> c \<noteq> CHR '']''" if "c \<in> set (addr_String a)" for c
    using addr_chars [OF assms(1) that] by auto
  moreover have "c \<noteq> CHR ''['' \<and> c \<noteq> CHR '']'' \<and> c \<noteq> CHR '':''" if "c \<in> set port" for c
    using assms(2) that by (simp add: plain_port_def list_all_iff)
  ultimately show "SplitHostPort (JoinHostPort (addr_String a) port) = Some (addr_String a, port)"
    by (intro SplitHostPort_Join) blast+
qed (rule ParseAddr_String)

lemma check_all_permitted:
  "check_all lower_rune addrs host port cfg = Inr checked \<Longrightarrow>
     checked = map canonical addrs \<and> (\<forall>a \<in> set checked. permitted lower_rune cfg host port a)"
  using checkAddr_permits [of lower_rune _ host port cfg]
  by (induction addrs arbitrary: checked) (auto simp: canonical_def [symmetric] Let_def split: option.splits sum.splits)

lemma check_all_refuses:
  "a \<in> set addrs \<Longrightarrow> \<not> permitted lower_rune cfg host port (canonical a) \<Longrightarrow>
     \<exists>e. check_all lower_rune addrs host port cfg = Inl e"
  using check_all_permitted [of lower_rune addrs host port cfg] by (cases "check_all lower_rune addrs host port cfg") auto

lemma dial_each_targets:
  "t \<in> set (fst (dial_each raw addrs host port)) \<Longrightarrow> \<exists>a \<in> set addrs. t = JoinHostPort (addr_String a) port"
  by (induction addrs) (auto simp: Let_def split: option.splits prod.splits)

text \<open>An address the guard lets the raw dialer try for \<open>addr\<close>.\<close>

definition guarded_target :: "(nat \<Rightarrow> nat) \<Rightarrow> Config \<Rightarrow> bytes \<Rightarrow> bytes \<Rightarrow> bool" where
  "guarded_target lower_rune cfg addr t \<longleftrightarrow>
     (\<exists>host port a. SplitHostPort addr = Some (host, port) \<and> (ManagedMode cfg \<longrightarrow> port = ''443'')
        \<and> permitted lower_rune cfg host port a \<and> canonical a = a
        \<and> SplitHostPort t = Some (addr_String a, port) \<and> ParseAddr (addr_String a) = Some a)"

lemma guarded_targetI:
  assumes "SplitHostPort addr = Some (host, port)" and "ManagedMode cfg \<Longrightarrow> port = ''443''"
    and "permitted lower_rune cfg host port a" and "canonical a = a" and "t = JoinHostPort (addr_String a) port"
  shows "guarded_target lower_rune cfg addr t"
proof -
  have "Zone a = []" using assms(4) canonical_zone [of a] by simp
  with literal_reads_back [OF this SplitHostPort_plain [OF assms(1)]] assms show ?thesis
    unfolding guarded_target_def by blast
qed

lemma dial_guarded:
  assumes "t \<in> set (fst (dialContextWith lower_rune cfg lookup raw addr))"
  shows "guarded_target lower_rune cfg addr t"
proof -
  obtain host port where hp: "SplitHostPort addr = Some (host, port)"
    using assms by (auto simp: dialContextWith_def split: option.splits)
  have m: "ManagedMode cfg \<Longrightarrow> port = ''443''"
    using assms hp by (auto simp: dialContextWith_def split: option.splits if_splits)
  show ?thesis
  proof (cases "ParseAddr host")
    case (Some a0)
    have "t = JoinHostPort (addr_String (canonical a0)) port" "checkAddr lower_rune (canonical a0) host port cfg = None"
      using assms hp Some by (auto simp: dialContextWith_def canonical_def [symmetric] Let_def split: option.splits if_splits)
    then show ?thesis
      using hp m checkAddr_permits [of lower_rune "canonical a0" host port cfg] by (intro guarded_targetI) auto
  next
    case None
    then obtain addrs checked where c: "check_all lower_rune addrs host port cfg = Inr checked"
        "t \<in> set (fst (dial_each raw checked host port))"
      using assms hp by (auto simp: dialContextWith_def Let_def split: option.splits if_splits sum.splits)
    from dial_each_targets [OF c(2)] obtain a where a: "a \<in> set checked" "t = JoinHostPort (addr_String a) port" by blast
    then show ?thesis using hp m check_all_permitted [OF c(1)] by (intro guarded_targetI) auto
  qed
qed

text \<open>One refused answer of the resolver and nothing is dialed.\<close>

lemma dial_all_or_nothing:
  assumes "SplitHostPort addr = Some (host, port)" and "ParseAddr host = None" and "lookup host = Some addrs"
    and "a \<in> set addrs" and "\<not> permitted lower_rune cfg host port (canonical a)"
  shows "\<exists>e. dialContextWith lower_rune cfg lookup raw addr = ([], Inl e)"
  using assms check_all_refuses [OF assms(4,5)] by (auto simp: dialContextWith_def split: option.splits)

section \<open>The suggested entry is accepted\<close>

lemma trim_space_solid:
  assumes "s \<noteq> []" and "bval (hd s) < 128" "\<not> is_space_rune (bval (hd s))" and "bval (last s) < 128" "\<not> is_space_rune (bval (last s))"
  shows "trim_space s = s"
proof -
  have "decode_rune s = (bval (hd s), 1)" using assms(1,2) by (cases s) (simp_all add: decode_rune_ascii)
  then have "trim_left_space s = s" using assms(3) by (simp add: trim_left_space.simps)
  moreover have "trim_right_space s = s" using assms by (simp add: trim_right_space.simps decode_last_rune_def)
  ultimately show ?thesis by (simp add: trim_space_def)
qed

lemma solid_byte:
  "hex_val c \<noteq> None \<or> is_digit c \<or> c = CHR ''.'' \<or> c = CHR '':'' \<or> c = CHR ''['' \<Longrightarrow> bval c < 128 \<and> \<not> is_space_rune (bval c)"
  by (auto simp: hex_val_def is_digit_def is_space_rune_def bval_def split: if_splits)

definition colons :: "bytes \<Rightarrow> nat" where
  "colons s = length (filter (\<lambda>c. c = CHR '':'') s)"

lemma colons_simps [simp]: "colons (s @ t) = colons s + colons t" "colons [] = 0"
  "colons (c # s) = (if c = CHR '':'' then Suc (colons s) else colons s)"
  by (simp_all add: colons_def)

lemma colons_groups: "length gs \<le> Suc (colons (groups_text gs))"
  by (induction gs rule: induct_list012) auto

lemma colons_string6: "length gs = 8 \<Longrightarrow> 2 \<le> colons (string6 gs)"
  using colons_groups [of gs] by (auto simp: string6_def split: option.splits)

lemma SplitHostPort_colons:
  assumes "2 \<le> colons s" and "s ! 0 \<noteq> CHR ''[''"
  shows "SplitHostPort s = None"
proof (cases "last_index_byte s (CHR '':'')")
  case (Some i)
  note i = last_index_byte_Some [OF Some]
  have "CHR '':'' \<in> set (take i s)"
  proof (rule ccontr)
    assume "CHR '':'' \<notin> set (take i s)"
    with i have "filter (\<lambda>c. c = CHR '':'') (take i s) = []" "filter (\<lambda>c. c = CHR '':'') (drop (Suc i) s) = []"
      by (auto simp: filter_empty_conv)
    then have "colons s = 1" using i by (subst id_take_nth_drop [of i s]) (simp_all add: colons_def)
    then show False using assms(1) by simp
  qed
  then show ?thesis using assms(2) Some by (simp add: SplitHostPort_def Let_def)
qed (simp add: SplitHostPort_def)

lemma addr_String_bare:
  assumes "Zone a = []"
  shows "SplitHostPort (addr_String a) = None" "addr_String a \<noteq> []"
    "hex_val (hd (addr_String a)) \<noteq> None \<or> hd (addr_String a) = CHR ''.'' \<or> hd (addr_String a) = CHR '':''"
    "hex_val (last (addr_String a)) \<noteq> None \<or> last (addr_String a) = CHR ''.'' \<or> last (addr_String a) = CHR '':''"
proof -
  show ne: "addr_String a \<noteq> []" using ParseAddr_String [of a] by (auto simp: ParseAddr_def)
  show h: "hex_val (hd (addr_String a)) \<noteq> None \<or> hd (addr_String a) = CHR ''.'' \<or> hd (addr_String a) = CHR '':''"
    "hex_val (last (addr_String a)) \<noteq> None \<or> last (addr_String a) = CHR ''.'' \<or> last (addr_String a) = CHR '':''"
    using addr_chars [OF assms hd_in_set [OF ne]] addr_chars [OF assms last_in_set [OF ne]] by blast+
  have "hd (addr_String a) \<noteq> CHR ''[''" using h(1) by (auto simp: hex_val_def bval_def)
  then have b: "addr_String a ! 0 \<noteq> CHR ''[''" using ne by (simp add: hd_conv_nth)
  show "SplitHostPort (addr_String a) = None"
  proof (cases a)
    case (Addr4 w)
    then have "CHR '':'' \<notin> set (addr_String a)"
      using string4_chars [of "CHR '':''" w] by (auto simp: is_digit_def bval_def)
    then have "index_byte (rev (addr_String a)) (CHR '':'') = None" by (simp add: index_byte_None)
    then show ?thesis by (simp add: SplitHostPort_def last_index_byte_def)
  next
    case (Addr6 w z)
    then have "2 \<le> colons (addr_String a)" using colons_string6 [OF groups6_facts(3), of w] assms by simp
    then show ?thesis using b by (rule SplitHostPort_colons)
  qed
qed

lemma suggestion_listed:
  assumes "Zone a = []" and port: "list_all is_digit port"
  shows "isInAllowList lower_rune (addr_String a) port (allowListSuggestion a port # rest)"
proof -
  note bare = addr_String_bare [OF assms(1)]
  let ?s = "allowListSuggestion a port"
  have "trim_space ?s = ?s"
  proof (rule trim_space_solid)
    have "hex_val (hd ?s) \<noteq> None \<or> hd ?s = CHR ''.'' \<or> hd ?s = CHR '':'' \<or> hd ?s = CHR ''[''"
      using bare(2,3) by (auto simp: allowListSuggestion_def JoinHostPort_def hd_append)
    then show "bval (hd ?s) < 128" "\<not> is_space_rune (bval (hd ?s))" using solid_byte by blast+
    have "is_digit (last port)" if "port \<noteq> []" using port last_in_set [OF that] by (simp add: list_all_iff)
    then have "hex_val (last ?s) \<noteq> None \<or> is_digit (last ?s) \<or> last ?s = CHR ''.'' \<or> last ?s = CHR '':''"
      using bare(2,4) by (auto simp: allowListSuggestion_def JoinHostPort_def last_append)
    then show "bval (last ?s) < 128" "\<not> is_space_rune (bval (last ?s))" using solid_byte by blast+
  qed (use bare(2) in \<open>auto simp: allowListSuggestion_def JoinHostPort_def\<close>)
  moreover have "plain_port port"
    using port unfolding plain_port_def by (rule list.pred_mono_strong) (auto simp: is_digit_def bval_def)
  ultimately show ?thesis
    using literal_reads_back(1) [OF assms(1)] bare(1) by (auto simp: allowListSuggestion_def)
qed

fun suggested :: "ssrf_error \<Rightarrow> bytes option" where
  "suggested (Blocked (RangeSuggest _ _ _ entry)) = Some entry"
| "suggested (Blocked (PrivateSuggest _ _ entry)) = Some entry"
| "suggested _ = None"

lemma checkAddr_suggests:
  assumes "checkAddr lower_rune addr host port cfg = Some e" and "suggested e = Some entry"
  shows "entry = allowListSuggestion (canonical addr) port" and "\<not> ManagedMode cfg"
    and "\<not> forbidden_net (canonical addr)"
proof -
  note c = assms(1) [unfolded checkAddr_def canonical_def [symmetric] Let_def]
  show "entry = allowListSuggestion (canonical addr) port" "\<not> ManagedMode cfg"
    using c assms(2) by (auto split: option.splits if_splits)
  have "loopback_net (canonical addr) \<or> first_containing blockedPrefixes (canonical addr) = None"
    using c assms(2) in_loopback [of "canonical addr"] by (auto split: option.splits if_splits)
  then show "\<not> forbidden_net (canonical addr)"
    using apart(1) in_forbidden [of "canonical addr"] by auto
qed

lemma suggestion_accepted:
  assumes "checkAddr lower_rune addr host port cfg = Some e" and "suggested e = Some entry" and "list_all is_digit port"
  shows "checkAddr lower_rune addr host port (cfg\<lparr>AllowList := entry # AllowList cfg\<rparr>) = None"
  using checkAddr_suggests [OF assms(1,2)] suggestion_listed [of "canonical addr" port lower_rune "AllowList cfg"] assms(3)
  unfolding checkAddr_permits permitted_def Let_def by (simp del: isInAllowList.simps)

section \<open>A client behind a proxy\<close>

lemma proxy_hook_remembers:
  assumes "proxy_hook lower_rune url_Parse url_String cfg req selected proxies = (ans, proxies')"
  shows "proxies' = proxies \<or> (\<exists>u. ans = Inr (Some u) \<and> proxies' = insert (proxyDialAddr u) proxies
           \<and> ValidateURLNoResolve lower_rune url_Parse (url_String req) cfg = None)"
  using assms by (auto simp: proxy_hook_def split: option.splits if_splits)

text \<open>Every proxy address the client remembers was selected for a request whose URL passed the check.\<close>

definition selected_proxy ::
    "(nat \<Rightarrow> nat) \<Rightarrow> (bytes \<Rightarrow> URL option) \<Rightarrow> (URL \<Rightarrow> bytes) \<Rightarrow> Config \<Rightarrow> (URL \<times> (ssrf_error + URL option)) list \<Rightarrow> bytes \<Rightarrow> bool" where
  "selected_proxy lower_rune url_Parse url_String cfg answers x \<longleftrightarrow>
     (\<exists>req u. (req, Inr (Some u)) \<in> set answers \<and> x = proxyDialAddr u
        \<and> ValidateURLNoResolve lower_rune url_Parse (url_String req) cfg = None)"

lemma selected_proxy_mono:
  "selected_proxy lower_rune url_Parse url_String cfg answers x \<Longrightarrow> selected_proxy lower_rune url_Parse url_String cfg (a # answers) x"
  unfolding selected_proxy_def by (elim exE conjE) (rule exI, rule exI, auto)

lemma remembered_were_selected:
  assumes "client_reach lower_rune url_Parse url_String cfg raw c" and "x \<in> client_proxies c"
  shows "selected_proxy lower_rune url_Parse url_String cfg (client_answers c) x"
  using assms
proof (induction arbitrary: x rule: client_reach.induct)
  case (ask c req selected ans proxies)
  from proxy_hook_remembers [OF ask.hyps(2)] show ?case
  proof (elim disjE exE conjE)
    fix u
    assume "ans = Inr (Some u)" "proxies = insert (proxyDialAddr u) (client_proxies c)"
      "ValidateURLNoResolve lower_rune url_Parse (url_String req) cfg = None"
    then have "selected_proxy lower_rune url_Parse url_String cfg ((req, ans) # client_answers c) (proxyDialAddr u)"
      "x = proxyDialAddr u \<or> x \<in> client_proxies c"
      using ask.prems by (auto simp: selected_proxy_def)
    then show ?thesis using ask.IH selected_proxy_mono by auto
  qed (use ask selected_proxy_mono in auto)
qed simp_all

lemma dial_hook_target:
  assumes "t \<in> set (fst (dial_hook lower_rune cfg lookup raw addr proxies))"
  shows "guarded_target lower_rune cfg addr t \<or> t = addr \<and> addr \<in> proxies"
  using assms dial_guarded by (auto simp: dial_hook_def split: if_splits)

lemma dials_guarded_or_selected:
  assumes "client_reach lower_rune url_Parse url_String cfg raw c" and "(addr, t) \<in> set (client_dials c)"
  shows "guarded_target lower_rune cfg addr t
    \<or> t = addr \<and> selected_proxy lower_rune url_Parse url_String cfg (client_answers c) addr"
  using assms
proof (induction arbitrary: addr t rule: client_reach.induct)
  case (ask c req selected ans proxies)
  then show ?case using selected_proxy_mono by simp blast
next
  case (dial c addr' lookup n)
  from dial.prems consider "(addr, t) \<in> set (client_dials c)"
    | "addr = addr'" "t \<in> set (fst (dial_hook lower_rune cfg lookup (raw n) addr' (client_proxies c)))" by auto
  then show ?case
  proof cases
    case 2
    from dial_hook_target [OF this(2)] show ?thesis
      using remembered_were_selected [OF dial.hyps(1), of addr'] 2(1) by auto
  qed (use dial.IH in simp)
qed simp_all

end
