(* ===== verification/Network_Properties.thy ===== *)
theory Network_Properties
  imports Ssrf_Facts
begin

text \<open>
  The properties of the outbound guard: which addresses it lets through, what it dials, what it advises
  and what a client behind a proxy can reach, each with its example.
\<close>

text \<open>
  C32. The guard refuses an address exactly when it lies in a range its configuration forbids, whatever
  zone the address carries and whether it is written as an IPv4 address mapped into IPv6: a managed
  configuration permits neither loopback, private, tunnel nor special ranges; a self-hosted one permits
  tunnels, permits loopback and private addresses only when listed, and no other special range ever.
\<close>

theorem guard_decides_permitted:
  "checkAddr lower_rune addr host port cfg = None \<longleftrightarrow> permitted lower_rune cfg host port (Unmap (WithZone addr []))"
  using checkAddr_permits by (simp add: canonical_def)

text \<open>
  C33. Whatever the resolver answers, each address the guard hands to the raw dialer is a literal that
  reads back as one of the permitted addresses, without a zone and never an IPv4 address in disguise, with the
  port of the request; in managed mode that port is 443.
\<close>

theorem dials_only_permitted:
  assumes "target \<in> set (fst (dialContextWith lower_rune cfg lookup raw addr))"
  shows "\<exists>host port a. SplitHostPort addr = Some (host, port) \<and> (ManagedMode cfg \<longrightarrow> port = ''443'')
    \<and> SplitHostPort target = Some (addr_String a, port) \<and> ParseAddr (addr_String a) = Some a
    \<and> Zone a = [] \<and> \<not> Is4In6 a \<and> permitted lower_rune cfg host port a"
proof -
  have "\<not> Is4In6 (canonical a)" for a by (cases a) (simp_all add: canonical_def)
  then show ?thesis
    using dial_guarded [OF assms] canonical_zone unfolding guarded_target_def by metis
qed

definition example_addr :: Addr where
  "example_addr = Addr4 0x5db8d822"

lemma be_bytes_four:
  "be_bytes 4 v = [char_of (v div 2 ^ 24 mod 256), char_of (v div 2 ^ 16 mod 256), char_of (v div 2 ^ 8 mod 256), char_of (v mod 256)]"
proof -
  have "rev [0..<4] = [3, 2, 1, 0]" by code_simp
  then show ?thesis by (simp add: be_bytes_def)
qed

lemmas write_addr = bval_def string4_def be_bytes_four itoa_byte digit_char_def bval_char_of char_of_def bit_iff_odd

lemma example_addr_facts:
  "canonical example_addr = example_addr" "permitted lower_rune cfg host port example_addr"
  "addr_String example_addr = ''93.184.216.34''"
  by (simp_all add: example_addr_def canonical_def permitted_def Let_def write_addr)

lemma example_dial:
  "dialContextWith id (SelfHostedConfig []) (\<lambda>_. Some [example_addr]) (\<lambda>_. None :: unit option) ''api.example.com:443''
     = ([''93.184.216.34:443''], Inl (DialFailed ''api.example.com''))"
proof -
  have "SplitHostPort ''api.example.com:443'' = Some (''api.example.com'', ''443'')"
    by (simp add: SplitHostPort_def last_index_byte_def)
  moreover have "ParseAddr ''api.example.com'' = None" by (simp add: read_prefix)
  moreover have "\<not> equal_fold ''api.example.com'' ''localhost''"
    by (simp add: equal_fold_def map_runes.simps decode_rune_ascii encode_rune_ascii fold_rune_def lower_ascii_def bval_def char_of_def bit_iff_odd)
  moreover have "checkAddr id (Unmap (WithZone example_addr [])) ''api.example.com'' ''443'' (SelfHostedConfig []) = None"
    using example_addr_facts(1,2) by (simp add: checkAddr_permits canonical_def [symmetric])
  ultimately show ?thesis
    using example_addr_facts
    by (simp add: dialContextWith_def validateHostInput_def localhost_refused_def canonical_def SelfHostedConfig_def JoinHostPort_def)
qed

theorem dials_only_permitted_witness:
  "\<exists>host port a. SplitHostPort ''api.example.com:443'' = Some (host, port)
    \<and> (ManagedMode (SelfHostedConfig []) \<longrightarrow> port = ''443'')
    \<and> SplitHostPort ''93.184.216.34:443'' = Some (addr_String a, port) \<and> ParseAddr (addr_String a) = Some a
    \<and> Zone a = [] \<and> \<not> Is4In6 a \<and> permitted id (SelfHostedConfig []) host port a"
  by (rule dials_only_permitted [where lookup = "\<lambda>_. Some [example_addr]" and raw = "\<lambda>_. None :: unit option"])
    (simp add: example_dial)

text \<open>
  C34. A host is dialed only when every address it resolves to is permitted: with one forbidden address
  among the answers nothing is dialed and the call fails, so a mixed answer cannot slip a forbidden
  destination behind a permitted one.
\<close>

theorem mixed_answers_dial_nothing:
  assumes "SplitHostPort addr = Some (host, port)" and "ParseAddr host = None" and "lookup host = Some addrs"
    and "a \<in> set addrs" and "\<not> permitted lower_rune cfg host port (Unmap (WithZone a []))"
  shows "\<exists>e. dialContextWith lower_rune cfg lookup raw addr = ([], Inl e)"
  using dial_all_or_nothing [of addr host port lookup addrs a lower_rune cfg raw] assms by (simp add: canonical_def)

text \<open>The metadata service of a cloud, as an IPv4 address mapped into IPv6 with a zone.\<close>

definition example_metadata :: Addr where
  "example_metadata = Addr6 0xffffa9fea9fe ''eth0''"

lemma example_metadata_forbidden: "\<not> permitted lower_rune cfg host port (Unmap (WithZone example_metadata []))"
  by (simp add: example_metadata_def permitted_def Let_def drop_bit_eq_div)

lemma example_host: "SplitHostPort ''api.example.com:443'' = Some (''api.example.com'', ''443'')" "ParseAddr ''api.example.com'' = None"
  by (simp_all add: SplitHostPort_def last_index_byte_def read_prefix)

theorem mixed_answers_dial_nothing_witness:
  "\<exists>e. dialContextWith id ManagedConfig (\<lambda>_. Some [example_addr, example_metadata]) (\<lambda>_. Some ()) ''api.example.com:443'' = ([], Inl e)"
  by (rule mixed_answers_dial_nothing [OF example_host, where addrs = "[example_addr, example_metadata]", OF _ _ example_metadata_forbidden])
    simp_all

text \<open>
  C35. The entry a refusal suggests works: added to the allow list, it makes the same check pass, for
  every address a refusal suggests an entry for and every numeric port or none.
\<close>

theorem suggestion_is_accepted:
  assumes "checkAddr lower_rune addr host port cfg = Some e" and "suggested e = Some entry" and "list_all is_digit port"
  shows "checkAddr lower_rune addr host port (cfg\<lparr>AllowList := entry # AllowList cfg\<rparr>) = None"
  using assms by (rule suggestion_accepted)

lemma example_loopback:
  "checkAddr id (Addr4 0x7f000001) ''relay'' ''8080'' (SelfHostedConfig [])
     = Some (Blocked (RangeSuggest (Addr4 0x7f000001) ''relay'' (Prefix (Addr4 0x7f000000) 8) ''127.0.0.1:8080''))"
  by (simp add: checkAddr_def Let_def first_containing_def loopbackPrefixes_eq SelfHostedConfig_def contains4
      allowListSuggestion_def JoinHostPort_def write_addr del: prefix_contains.simps)

theorem suggestion_is_accepted_witness:
  "checkAddr id (Addr4 0x7f000001) ''relay'' ''8080''
     ((SelfHostedConfig [])\<lparr>AllowList := ''127.0.0.1:8080'' # AllowList (SelfHostedConfig [])\<rparr>) = None"
  by (rule suggestion_is_accepted [OF example_loopback]) (simp_all add: is_digit_def bval_def)

text \<open>
  C36. Whatever order a client behind a proxy asks and dials in, and whatever the resolver and the network
  answer meanwhile, an address goes to the raw dialer unguarded only if the operator's selector chose
  it as the proxy for a request whose own URL passed the check; every other dial is guarded.
\<close>

theorem proxied_client_dials:
  assumes "client_reach lower_rune url_Parse url_String cfg raw c" and "(addr, target) \<in> set (client_dials c)"
  shows "guarded_target lower_rune cfg addr target
    \<or> target = addr \<and> (\<exists>req u. (req, Inr (Some u)) \<in> set (client_answers c) \<and> addr = proxyDialAddr u
         \<and> ValidateURLNoResolve lower_rune url_Parse (url_String req) cfg = None)"
  using dials_guarded_or_selected [OF assms] by (simp add: selected_proxy_def)

definition example_proxy :: URL where
  "example_proxy = \<lparr>url_Scheme = ''http'', url_User = False, url_Host = ''10.0.0.1:3128''\<rparr>"

definition example_url :: URL where
  "example_url = \<lparr>url_Scheme = ''https'', url_User = False, url_Host = ''93.184.216.34''\<rparr>"

lemma example_proxy_addr: "proxyDialAddr example_proxy = ''10.0.0.1:3128''"
  by (simp add: proxyDialAddr_def Hostname_def url_Port_def url_split_def example_proxy_def last_index_byte_def is_digit_def bval_def
      JoinHostPort_def)

lemma example_url_passes:
  "ValidateURLNoResolve id (\<lambda>_. Some example_url) raw (SelfHostedConfig []) = None"
proof -
  have "parseValidatedURL (\<lambda>_. Some example_url) raw (SelfHostedConfig []) = Inr (''93.184.216.34'', ''443'')"
    by (simp add: parseValidatedURL_def example_url_def Hostname_def url_Port_def url_split_def last_index_byte_def SelfHostedConfig_def Let_def)
  moreover have "ParseAddr ''93.184.216.34'' = Some example_addr"
    using ParseAddr_String [of example_addr] by (simp add: example_addr_facts)
  ultimately show ?thesis
    using example_addr_facts(1,2) by (simp add: ValidateURLNoResolve_def validateHostInput_def checkAddr_permits)
qed

text \<open>
  The hook that refuses a direct request to the proxy's own address looks at the proxies chosen so far.
  A direct request asked before the first proxied one is answered, and if its dial comes after, it
  reaches the proxy's address unguarded, which the guard itself would refuse.
\<close>

definition race_client :: client where
  "race_client = \<lparr>client_proxies = {''10.0.0.1:3128''},
     client_answers = [(example_url, Inr (Some example_proxy)), (example_proxy, Inr None)],
     client_dials = [(''10.0.0.1:3128'', ''10.0.0.1:3128'')]\<rparr>"

lemma race_reached:
  "client_reach id (\<lambda>_. Some example_url) (\<lambda>_. []) (SelfHostedConfig []) (\<lambda>_ _. None :: unit option) race_client"
proof -
  let ?r = "client_reach id (\<lambda>_. Some example_url) (\<lambda>_. []) (SelfHostedConfig []) (\<lambda>_ _. None :: unit option)"
  have "?r \<lparr>client_proxies = {}, client_answers = [(example_proxy, Inr None)], client_dials = []\<rparr>"
    using client_reach.ask [OF client_reach.start [of id "\<lambda>_. Some example_url" "\<lambda>_. []" "SelfHostedConfig []" "\<lambda>_ _. None :: unit option"],
      where req = example_proxy and selected = "Some None"]
    by (simp add: proxy_hook_def)
  from client_reach.ask [OF this, where req = example_url and selected = "Some (Some example_proxy)"]
  have "?r \<lparr>client_proxies = {''10.0.0.1:3128''},
     client_answers = [(example_url, Inr (Some example_proxy)), (example_proxy, Inr None)], client_dials = []\<rparr>"
    by (simp add: proxy_hook_def example_url_passes example_proxy_addr)
  from client_reach.dial [OF this, where addr = "''10.0.0.1:3128''"] show ?thesis
    by (simp add: dial_hook_def race_client_def)
qed

theorem proxied_client_dials_witness:
  "guarded_target id (SelfHostedConfig []) ''10.0.0.1:3128'' ''10.0.0.1:3128''
    \<or> ''10.0.0.1:3128'' = ''10.0.0.1:3128'' \<and> (\<exists>req u. (req, Inr (Some u)) \<in> set (client_answers race_client)
         \<and> ''10.0.0.1:3128'' = proxyDialAddr u
         \<and> ValidateURLNoResolve id (\<lambda>_. Some example_url) [] (SelfHostedConfig []) = None)"
  by (rule proxied_client_dials [OF race_reached]) (simp add: race_client_def)

lemma direct_request_reaches_the_proxy:
  "(example_proxy, Inr None) \<in> set (client_answers race_client)
    \<and> (proxyDialAddr example_proxy, proxyDialAddr example_proxy) \<in> set (client_dials race_client)
    \<and> \<not> guarded_target id (SelfHostedConfig []) (proxyDialAddr example_proxy) (proxyDialAddr example_proxy)"
proof -
  have "SplitHostPort ''10.0.0.1:3128'' = Some (''10.0.0.1'', ''3128'')"
    by (simp add: SplitHostPort_def last_index_byte_def)
  moreover have "ParseAddr ''10.0.0.1'' = Some (Addr4 0x0a000001)" by (simp add: read_prefix)
  moreover have "\<not> permitted id (SelfHostedConfig []) h p (Addr4 0x0a000001)" for h p
    by (simp add: permitted_def SelfHostedConfig_def Let_def)
  ultimately show ?thesis by (auto simp: guarded_target_def example_proxy_addr race_client_def)
qed

end
