(* ===== verification/Pool_Lock.thy ===== *)
theory Pool_Lock
  imports Main
begin

text \<open>
  The lock of the login index (lockIndex of proxy/internal/pool/pool.go): a file that exists while a
  writer holds it. The writers are separate programs (the proxy and the command line), so every system
  call is a step of its own and the steps of different writers interleave freely.

  A file is an inode with the token written into it and the time it was last written; the lock and the
  names a breaker moves it to are names of inodes. Each writer has a token of its own, which here is the
  writer itself. Times are milliseconds.
\<close>

type_synonym writer = nat
type_synonym inode = nat

definition lockStale :: int where
  "lockStale = 10000"

definition lock_patience :: int where
  "lock_patience = 3000"

text \<open>
  Where a writer is: before the loop, about to open, with the file open and nothing written, after
  an open that found the file, about to rename a stale lock, with the lock moved aside, about to put it
  back, about to remove what was moved aside, asleep, holding the lock, about to remove it, and the ends
  (released, gave up, crashed).
\<close>

datatype place =
    Outside
  | Opening int
  | Writing inode
  | Looking int
  | Breaking int
  | Moved int
  | PuttingBack int
  | Clearing int
  | Asleep int
  | Holding inode
  | Removing inode
  | Released
  | GaveUp
  | Crashed

record lock_state =
  clock :: int
  lock_name :: "inode option"
  aside_name :: "writer \<Rightarrow> inode option"
  token_of :: "inode \<Rightarrow> writer option"
  written_at :: "inode \<Rightarrow> int"
  next_inode :: inode
  place_of :: "writer \<Rightarrow> place"

definition move :: "writer \<Rightarrow> place \<Rightarrow> lock_state \<Rightarrow> lock_state" where
  "move w p s = s\<lparr>place_of := (place_of s)(w := p)\<rparr>"

definition lock_start :: lock_state where
  "lock_start = \<lparr>clock = 0, lock_name = None, aside_name = Map.empty, token_of = Map.empty, written_at = (\<lambda>_. 0),
     next_inode = 0, place_of = (\<lambda>_. Outside)\<rparr>"

definition is_stale :: "lock_state \<Rightarrow> inode \<Rightarrow> bool" where
  "is_stale s i \<longleftrightarrow> clock s - written_at s i > lockStale"

text \<open>One system call, the passing of time, or a crash.\<close>

inductive lock_step :: "lock_state \<Rightarrow> lock_state \<Rightarrow> bool" where
  tick: "0 \<le> d \<Longrightarrow> lock_step s (s\<lparr>clock := clock s + d\<rparr>)"
| crash: "place_of s w \<noteq> Outside \<Longrightarrow> lock_step s (move w Crashed s)"
| begins: "place_of s w \<in> {Outside, Released, GaveUp} \<Longrightarrow> lock_step s (move w (Opening (clock s + lock_patience)) s)"
| creates: "place_of s w = Opening d \<Longrightarrow> lock_name s = None \<Longrightarrow>
    lock_step s (move w (Writing (next_inode s))
      (s\<lparr>lock_name := Some (next_inode s), next_inode := next_inode s + 1,
         token_of := (token_of s)(next_inode s := None), written_at := (written_at s)(next_inode s := clock s)\<rparr>))"
| writes: "place_of s w = Writing i \<Longrightarrow>
    lock_step s (move w (Holding i)
      (s\<lparr>token_of := (token_of s)(i := Some w), written_at := (written_at s)(i := clock s)\<rparr>))"
| write_fails: "place_of s w = Writing i \<Longrightarrow> lock_step s (move w GaveUp (s\<lparr>lock_name := None\<rparr>))"
| open_fails: "place_of s w = Opening d \<Longrightarrow> lock_step s (move w GaveUp s)"
| exists: "place_of s w = Opening d \<Longrightarrow> lock_name s \<noteq> None \<Longrightarrow> lock_step s (move w (Looking d) s)"
| sees_stale: "place_of s w = Looking d \<Longrightarrow> lock_name s = Some i \<Longrightarrow> is_stale s i \<Longrightarrow> lock_step s (move w (Breaking d) s)"
| sees_fresh: "place_of s w = Looking d \<Longrightarrow> (case lock_name s of None \<Rightarrow> True | Some i \<Rightarrow> \<not> is_stale s i) \<Longrightarrow>
    lock_step s (move w (if clock s > d then GaveUp else Asleep d) s)"
| wakes: "place_of s w = Asleep d \<Longrightarrow> lock_step s (move w (Opening d) s)"
| moves_aside: "place_of s w = Breaking d \<Longrightarrow> lock_name s = Some i \<Longrightarrow>
    lock_step s (move w (Moved d) (s\<lparr>lock_name := None, aside_name := (aside_name s)(w := Some i)\<rparr>))"
| move_fails: "place_of s w = Breaking d \<Longrightarrow> lock_step s (move w (Opening d) s)"
| moved_fresh: "place_of s w = Moved d \<Longrightarrow> aside_name s w = Some i \<Longrightarrow> \<not> is_stale s i \<Longrightarrow>
    lock_step s (move w (PuttingBack d) s)"
| moved_stale: "place_of s w = Moved d \<Longrightarrow> (case aside_name s w of None \<Rightarrow> True | Some i \<Rightarrow> is_stale s i) \<Longrightarrow>
    lock_step s (move w (Clearing d) s)"
| links: "place_of s w = PuttingBack d \<Longrightarrow> aside_name s w = Some i \<Longrightarrow>
    lock_step s (move w (Clearing d) (if lock_name s = None then s\<lparr>lock_name := Some i\<rparr> else s))"
| clears: "place_of s w = Clearing d \<Longrightarrow>
    lock_step s (move w (Opening d) (s\<lparr>aside_name := (aside_name s)(w := None)\<rparr>))"
| finds_own: "place_of s w = Holding i \<Longrightarrow> lock_name s = Some j \<Longrightarrow> token_of s j = Some w \<Longrightarrow>
    lock_step s (move w (Removing i) s)"
| finds_other: "place_of s w = Holding i \<Longrightarrow> (case lock_name s of None \<Rightarrow> True | Some j \<Rightarrow> token_of s j \<noteq> Some w) \<Longrightarrow>
    lock_step s (move w Released s)"
| removes: "place_of s w = Removing i \<Longrightarrow> lock_step s (move w Released (s\<lparr>lock_name := None\<rparr>))"

inductive_cases lock_stepE: "lock_step s t"

text \<open>The states of the runs whose every state satisfies a condition.\<close>

inductive lock_reach :: "(lock_state \<Rightarrow> bool) \<Rightarrow> lock_state \<Rightarrow> bool" for P where
  lock_init: "lock_reach P lock_start"
| lock_next: "lock_reach P s \<Longrightarrow> P s \<Longrightarrow> lock_step s t \<Longrightarrow> lock_reach P t"

text \<open>No lock file grows old: every writer that opened one removes it in time.\<close>

definition in_time :: "lock_state \<Rightarrow> bool" where
  "in_time s \<longleftrightarrow> (\<forall>i. lock_name s = Some i \<longrightarrow> \<not> is_stale s i)"

definition critical :: "place \<Rightarrow> bool" where
  "critical p \<longleftrightarrow> (\<exists>i. p = Holding i \<or> p = Removing i)"

fun inode_of :: "place \<Rightarrow> inode option" where
  "inode_of (Writing i) = Some i"
| "inode_of (Holding i) = Some i"
| "inode_of (Removing i) = Some i"
| "inode_of _ = None"

definition breaking :: "place \<Rightarrow> bool" where
  "breaking p \<longleftrightarrow> (\<exists>d. p \<in> {Breaking d, Moved d, PuttingBack d, Clearing d})"

text \<open>Only one writer has an open or held lock file, it is the file the lock name names, and nobody breaks it.\<close>

definition lock_inv :: "lock_state \<Rightarrow> bool" where
  "lock_inv s \<longleftrightarrow>
     (\<forall>w i. inode_of (place_of s w) = Some i \<longrightarrow> lock_name s = Some i)
     \<and> (\<forall>v w. inode_of (place_of s v) \<noteq> None \<longrightarrow> inode_of (place_of s w) \<noteq> None \<longrightarrow> v = w)
     \<and> (\<forall>w. \<not> breaking (place_of s w))"

lemma breaking_simps [simp]:
  "breaking (Breaking d)" "breaking (Moved d)" "breaking (PuttingBack d)" "breaking (Clearing d)"
  "\<not> breaking Outside" "\<not> breaking (Opening d)" "\<not> breaking (Writing i)" "\<not> breaking (Looking d)"
  "\<not> breaking (Asleep d)" "\<not> breaking (Holding i)" "\<not> breaking (Removing i)" "\<not> breaking Released"
  "\<not> breaking GaveUp" "\<not> breaking Crashed"
  by (simp_all add: breaking_def)

lemma move_simps [simp]:
  "place_of (move w p s) = (place_of s)(w := p)" "lock_name (move w p s) = lock_name s"
  "clock (move w p s) = clock s" "token_of (move w p s) = token_of s" "aside_name (move w p s) = aside_name s"
  "written_at (move w p s) = written_at s" "next_inode (move w p s) = next_inode s"
  by (simp_all add: move_def)

lemma lock_inv_frame:
  "lock_inv s \<Longrightarrow> lock_name t = lock_name s \<Longrightarrow> place_of t = place_of s \<Longrightarrow> lock_inv t"
  by (simp add: lock_inv_def)

lemma lock_inv_move: "lock_inv s \<Longrightarrow> inode_of p = None \<Longrightarrow> \<not> breaking p \<Longrightarrow> lock_inv (move w p s)"
  by (auto simp: lock_inv_def)

lemma lock_inv_keep:
  "lock_inv s \<Longrightarrow> inode_of (place_of s w) = Some i \<Longrightarrow> inode_of p = Some i \<Longrightarrow> \<not> breaking p \<Longrightarrow> lock_inv (move w p s)"
  by (auto simp: lock_inv_def)

lemma lock_inv_drop:
  "lock_inv s \<Longrightarrow> inode_of (place_of s w) = Some i \<Longrightarrow> inode_of p = None \<Longrightarrow> \<not> breaking p \<Longrightarrow>
     lock_inv (move w p (s\<lparr>lock_name := None\<rparr>))"
  by (fastforce simp: lock_inv_def)

lemma lock_inv_not_breaking: "lock_inv s \<Longrightarrow> \<not> breaking (place_of s w)"
  by (simp add: lock_inv_def)

lemma lock_inv_step:
  assumes inv: "lock_inv s" and "in_time s" and "lock_step s t"
  shows "lock_inv t"
proof -
  have mv: "inode_of p = None \<Longrightarrow> \<not> breaking p \<Longrightarrow> lock_inv (move w p s)" for p w by (rule lock_inv_move [OF inv])
  have nb: "place_of s w \<noteq> Breaking d" "place_of s w \<noteq> Moved d" "place_of s w \<noteq> PuttingBack d"
    "place_of s w \<noteq> Clearing d" for w d using lock_inv_not_breaking [OF inv, of w] by auto
  show ?thesis using assms(3)
proof cases
  case (creates w d)
  then have "inode_of (place_of s v) = None" for v using inv by (auto simp: lock_inv_def)
  with inv show ?thesis unfolding creates(1) by (simp add: lock_inv_def)
next
  case (writes w i)
  then show ?thesis using lock_inv_frame [OF lock_inv_keep [OF inv, of w i "Holding i"]] by simp
next
  case (write_fails w i)
  then show ?thesis using lock_inv_drop [OF inv, of w i GaveUp] by simp
next
  case (sees_stale w d i)
  with assms(2) show ?thesis by (simp add: in_time_def)
next
  case (finds_own w i j)
  then show ?thesis using lock_inv_keep [OF inv, of w i "Removing i"] by simp
next
  case (removes w i)
  then show ?thesis using lock_inv_drop [OF inv, of w i Released] by simp
next
  case (tick d)
  then show ?thesis using lock_inv_frame [OF inv] by simp
qed (simp_all add: mv nb)
qed

lemma lock_inv_start: "lock_inv lock_start"
  by (simp add: lock_inv_def lock_start_def)

lemma lock_inv_reach: "lock_reach in_time s \<Longrightarrow> lock_inv s"
  by (induction rule: lock_reach.induct) (auto intro: lock_inv_step lock_inv_start)

lemma critical_inode: "critical p \<Longrightarrow> inode_of p \<noteq> None"
  by (auto simp: critical_def)

lemma lock_excludes_others:
  assumes "lock_reach in_time s" and "critical (place_of s v)" and "critical (place_of s w)"
  shows "v = w"
  using lock_inv_reach [OF assms(1)] critical_inode [OF assms(2)] critical_inode [OF assms(3)]
  unfolding lock_inv_def by blast

section \<open>Breaking a stale lock\<close>

text \<open>
  Without that condition the protocol does not exclude. A writer (0) crashes with the lock and the
  lock grows old; two waiters see it stale; 1 breaks it and takes a fresh lock; 2, still on its way, moves
  that fresh lock aside; before 2 puts it back, 3 finds no lock and takes one. Then 1 and 3 both hold it.
\<close>

lemma lock_reach_step: "lock_reach (\<lambda>_. True) s \<Longrightarrow> lock_step s t \<Longrightarrow> t = t' \<Longrightarrow> lock_reach (\<lambda>_. True) t'"
  using lock_next [of "\<lambda>_. True"] by simp

text \<open>After 0 has crashed with the lock and eleven seconds have passed, with 1 and 2 about to break it.\<close>

definition stale_seen :: lock_state where
  "stale_seen = \<lparr>clock = 11000, lock_name = Some 0, aside_name = Map.empty, token_of = [0 \<mapsto> 0], written_at = (\<lambda>_. 0),
     next_inode = 1, place_of = (\<lambda>_. Outside)(0 := Crashed, 1 := Breaking 14000, 2 := Breaking 14000)\<rparr>"

definition two_holders :: lock_state where
  "two_holders = \<lparr>clock = 11000, lock_name = Some 2, aside_name = [2 \<mapsto> 1], token_of = [0 \<mapsto> 0, 1 \<mapsto> 1, 2 \<mapsto> 3],
     written_at = (\<lambda>_. 0)(1 := 11000, 2 := 11000), next_inode = 3,
     place_of = (\<lambda>_. Outside)(0 := Crashed, 1 := Holding 1, 2 := Moved 14000, 3 := Holding 2)\<rparr>"

lemma stale_seen_reached: "lock_reach (\<lambda>_. True) stale_seen"
proof -
  note next' = lock_reach_step [OF _ _ refl]
  note s = lock_init [of "\<lambda>_. True", unfolded lock_start_def]
  note s = next' [OF s begins [of _ 0], simplified, unfolded move_def, simplified]
  note s = next' [OF s creates [of _ 0], simplified, unfolded move_def, simplified]
  note s = next' [OF s writes [of _ 0], simplified, unfolded move_def, simplified]
  note s = next' [OF s crash [of _ 0], simplified, unfolded move_def, simplified]
  note s = next' [OF s tick [of 11000], simplified]
  note s = next' [OF s begins [of _ 1], simplified, unfolded move_def, simplified]
  note s = next' [OF s exists [of _ 1], simplified, unfolded move_def, simplified]
  note s = next' [OF s sees_stale [of _ 1], simplified, unfolded is_stale_def lockStale_def move_def, simplified]
  note s = next' [OF s begins [of _ 2], simplified, unfolded move_def, simplified]
  note s = next' [OF s exists [of _ 2], simplified, unfolded move_def, simplified]
  note s = next' [OF s sees_stale [of _ 2], simplified, unfolded is_stale_def lockStale_def move_def, simplified]
  have "(\<lambda>_::nat. 0::int)(0 := 0) = (\<lambda>_. 0)" by auto
  with s show ?thesis by (simp add: stale_seen_def lock_patience_def)
qed

lemma two_holders_reached: "lock_reach (\<lambda>_. True) two_holders"
proof -
  note next' = lock_reach_step [OF _ _ refl]
  note s = stale_seen_reached [unfolded stale_seen_def]
  note s = next' [OF s moves_aside [of _ 1], simplified, unfolded move_def, simplified]
  note s = next' [OF s moved_stale [of _ 1], simplified, unfolded is_stale_def lockStale_def move_def, simplified]
  note s = next' [OF s clears [of _ 1], simplified, unfolded move_def, simplified]
  note s = next' [OF s creates [of _ 1], simplified, unfolded move_def, simplified]
  note s = next' [OF s writes [of _ 1], simplified, unfolded move_def, simplified]
  note s = next' [OF s moves_aside [of _ 2], simplified, unfolded move_def, simplified]
  note s = next' [OF s begins [of _ 3], simplified, unfolded move_def, simplified]
  note s = next' [OF s creates [of _ 3], simplified, unfolded move_def, simplified]
  note s = next' [OF s writes [of _ 3], simplified, unfolded move_def, simplified]
  show ?thesis
    by (rule back_subst [of "lock_reach (\<lambda>_. True)", OF s]) ((rule refl)+, auto simp: two_holders_def lock_patience_def fun_eq_iff)
qed

section \<open>How long a writer tries\<close>

text \<open>
  The loop of one writer, by what each of its attempts meets: it opens the file (and writes its token or
  not), the open fails, it finds a stale lock (and moves it aside or not), or it finds a fresh lock
  and looks at the clock. \<open>None\<close>: it is still in the loop after these attempts.
\<close>

datatype attempt = Opened bool | OpenError | StaleLock bool | FreshLock int

datatype lock_result = Acquired | WriteFailed | OpenFailed | IndexLocked

fun lockIndex :: "int \<Rightarrow> attempt list \<Rightarrow> lock_result option" where
  "lockIndex deadline [] = None"
| "lockIndex deadline (Opened written # rest) = Some (if written then Acquired else WriteFailed)"
| "lockIndex deadline (OpenError # rest) = Some OpenFailed"
| "lockIndex deadline (StaleLock moved # rest) = lockIndex deadline rest"
| "lockIndex deadline (FreshLock now # rest) =
     (if now > deadline then Some IndexLocked else lockIndex deadline rest)"

text \<open>Between two looks at a fresh lock the writer sleeps twenty milliseconds.\<close>

fun sleeps_between :: "int \<Rightarrow> attempt list \<Rightarrow> bool" where
  "sleeps_between t [] \<longleftrightarrow> True"
| "sleeps_between t (FreshLock now # rest) \<longleftrightarrow> t \<le> now \<and> sleeps_between (now + 20) rest"
| "sleeps_between t (a # rest) \<longleftrightarrow> sleeps_between t rest"

text \<open>A stale lock that was found is gone at the next attempt.\<close>

fun stale_goes :: "attempt list \<Rightarrow> bool" where
  "stale_goes (StaleLock x # StaleLock y # rest) \<longleftrightarrow> False"
| "stale_goes (a # rest) \<longleftrightarrow> stale_goes rest"
| "stale_goes [] \<longleftrightarrow> True"

definition fresh_looks :: "attempt list \<Rightarrow> nat" where
  "fresh_looks as = length (filter (\<lambda>a. case a of FreshLock _ \<Rightarrow> True | _ \<Rightarrow> False) as)"

lemma fresh_looks_simps [simp]:
  "fresh_looks [] = 0" "fresh_looks (FreshLock c # as) = Suc (fresh_looks as)" "fresh_looks (StaleLock b # as) = fresh_looks as"
  "fresh_looks (Opened b # as) = fresh_looks as" "fresh_looks (OpenError # as) = fresh_looks as"
  by (simp_all add: fresh_looks_def)

lemma looping_looks:
  "lockIndex deadline as = None \<Longrightarrow> sleeps_between t as \<Longrightarrow> fresh_looks as = 0 \<or> 20 * (int (fresh_looks as) - 1) \<le> deadline - t"
proof (induction deadline as arbitrary: t rule: lockIndex.induct)
  case (5 deadline now rest)
  then have n: "\<not> now > deadline" "lockIndex deadline rest = None" "t \<le> now" "sleeps_between (now + 20) rest"
    by (auto split: if_splits)
  from 5(1) [OF n(1,2,4)] show ?case using n(1,3) by (cases "fresh_looks rest") auto
qed simp_all

lemma looping_length:
  "lockIndex deadline as = None \<Longrightarrow> stale_goes as \<Longrightarrow> length as \<le> 2 * fresh_looks as + (case as of StaleLock _ # _ \<Rightarrow> 1 | _ \<Rightarrow> 0)"
  by (induction as rule: stale_goes.induct) (auto split: if_splits list.splits attempt.splits)

lemma lock_loop_ends:
  assumes "sleeps_between start as" and "stale_goes as" and "303 < length as"
  shows "lockIndex (start + lock_patience) as \<noteq> None"
proof
  assume n: "lockIndex (start + lock_patience) as = None"
  have "length as \<le> 2 * fresh_looks as + 1"
    using looping_length [OF n assms(2)] by (auto split: list.splits attempt.splits)
  moreover have "fresh_looks as \<le> 151"
    using looping_looks [OF n assms(1)] by (auto simp: lock_patience_def)
  ultimately show False using assms(3) by simp
qed

text \<open>
  The branch of a stale lock goes back to the open without a look at the clock and without a sleep: a
  stale lock that cannot be moved aside keeps the writer in the loop for ever.
\<close>

lemma lock_spins_on_an_unmovable_lock: "lockIndex deadline (replicate n (StaleLock False)) = None"
  by (induction n) simp_all

end
