(* ===== verification/Provider_Pool.thy ===== *)
theory Provider_Pool
  imports Utf8 Pool_Lock
begin

text \<open>
  Provider logins and the routing pool (proxy/internal/pool/pool.go, and the token of chatgpt.go): the
  logins a person added, where their secrets lie, and which models they reach.

  The embedded registry of hosts is the parameter \<open>registry\<close>. A read of the index file is a \<open>view\<close>: its
  stamp (empty when there is no file) and, when it parses, its logins and cloud switch. What a save
  sees of the disk is a \<open>disk\<close>: the items of the index and the two stores of secrets. Times are seconds.
\<close>

section \<open>The registry\<close>

record Wire =
  wire_Path :: bytes
  wire_Auth :: bytes
  wire_Effort :: bytes

record Model =
  model_Model :: bytes
  model_ID :: bytes
  model_Wire :: bytes

record Provider =
  prov_ID :: bytes
  prov_Name :: bytes
  prov_Kind :: bytes
  prov_Env :: "bytes list"
  prov_BaseURL :: bytes
  prov_Wires :: "(bytes \<times> Wire) list"
  prov_Models :: "Model list"
  prov_Aggregator :: bool
  prov_MaxTokensField :: bytes
  prov_DropParams :: "bytes list"
  prov_Replay :: bool
  prov_Headers :: "(bytes \<times> bytes) list"
  prov_ForwardHeaders :: "bytes list"
  prov_Affinity :: bytes
  prov_Agents :: "bytes list"
  prov_ChatGPTLogin :: bool
  prov_Billing :: bytes
  prov_Terms :: bytes

definition Find :: "Provider list \<Rightarrow> bytes \<Rightarrow> Provider option" where
  "Find registry ident = find (\<lambda>p. prov_ID p = ident) registry"

section \<open>Logins\<close>

record Login =
  login_ID :: bytes
  login_Kind :: bytes
  login_Store :: bytes
  login_AddedAt :: bytes

definition maxPool :: nat where
  "maxPool = 64"

record view =
  view_stamp :: bytes
  view_doc :: "(Login list \<times> bool option) option"

record Store =
  st_stamp :: bytes
  st_logins :: "Login list"
  st_secrets :: "(bytes \<rightharpoonup> bytes) option"
  st_refreshing :: "bytes set"
  st_cloudOff :: bool

definition NewStore :: Store where
  "NewStore = \<lparr>st_stamp = [], st_logins = [], st_secrets = None, st_refreshing = {}, st_cloudOff = False\<rparr>"

definition add_login :: "Provider list \<Rightarrow> Login list \<Rightarrow> Login \<Rightarrow> Login list" where
  "add_login registry logins l =
     (case Find registry (login_ID l) of
        None \<Rightarrow> logins
      | Some p \<Rightarrow>
          if prov_Kind p = login_Kind l \<and> \<not> list_ex (\<lambda>l'. login_ID l' = login_ID l) logins then logins @ [l] else logins)"

definition Logins :: "Provider list \<Rightarrow> view \<Rightarrow> Store \<Rightarrow> Login list \<times> Store" where
  "Logins registry v s =
     (if view_stamp v = st_stamp s \<and> st_secrets s \<noteq> None then (st_logins s, s)
      else
        let s1 = s\<lparr>st_stamp := view_stamp v, st_logins := [], st_secrets := Some Map.empty, st_cloudOff := False\<rparr> in
        case view_doc v of
          None \<Rightarrow> ([], s1)
        | Some (docs, cloud) \<Rightarrow>
            let logins = foldl (add_login registry) [] docs in
            (logins, s1\<lparr>st_logins := logins, st_cloudOff := (cloud = Some False)\<rparr>))"

definition CloudOff :: "Provider list \<Rightarrow> view \<Rightarrow> Store \<Rightarrow> bool \<times> Store" where
  "CloudOff registry v s = (case Logins registry v s of (_, s1) \<Rightarrow> (st_cloudOff s1, s1))"

section \<open>Secrets\<close>

text \<open>An item of the index: a login as it is written there, or anything else, kept as it is.\<close>

datatype item = Listed bytes bytes bytes bytes | Foreign bytes

record disk =
  dsk_items :: "item list"
  dsk_keychain :: "bytes \<rightharpoonup> bytes"
  dsk_files :: "bytes \<rightharpoonup> bytes"

datatype pool_error =
    NoSuchLogin | SecretUnreadable | HomeNotMade | IndexLockFailed | IndexIsLocked | LoginRemoved | LoginChanged | SecretWriteFailed | IndexWriteFailed
  | UnknownEntry | UnreadableLogin | NeedsSignIn | LoginExpired

definition readSecret :: "disk \<Rightarrow> bytes \<Rightarrow> bytes \<Rightarrow> bytes option" where
  "readSecret d ident store =
     (case (if store = ''keychain'' then dsk_keychain d ident else dsk_files d ident) of
        None \<Rightarrow> None
      | Some raw \<Rightarrow> if trim_space raw = [] then None else Some (trim_space raw))"

text \<open>
  \<open>Secret\<close> asks for the logins, looks in the cache, reads without the lock and then puts what it read
  into the cache there is by then. Its two locked halves are operations of their own.
\<close>

definition Secret_lookup :: "Provider list \<Rightarrow> view \<Rightarrow> bytes \<Rightarrow> Store \<Rightarrow> (pool_error + bytes + Login) \<times> Store" where
  "Secret_lookup registry v ident s =
     (case Logins registry v s of
        (logins, s1) \<Rightarrow>
          (case find (\<lambda>l. login_ID l = ident) logins of
             None \<Rightarrow> (Inl NoSuchLogin, s1)
           | Some l \<Rightarrow>
               (case st_secrets s1 of
                  None \<Rightarrow> (Inr (Inr l), s1)
                | Some m \<Rightarrow> (case m ident of Some secret \<Rightarrow> (Inr (Inl secret), s1) | None \<Rightarrow> (Inr (Inr l), s1)))))"

definition Secret_remember :: "bytes \<Rightarrow> bytes \<Rightarrow> Store \<Rightarrow> Store" where
  "Secret_remember ident secret s = s\<lparr>st_secrets := map_option (\<lambda>m. m(ident \<mapsto> secret)) (st_secrets s)\<rparr>"

definition Secret :: "Provider list \<Rightarrow> view \<Rightarrow> disk \<Rightarrow> bytes \<Rightarrow> Store \<Rightarrow> (pool_error + bytes) \<times> Store" where
  "Secret registry v d ident s =
     (case Secret_lookup registry v ident s of
        (Inl e, s1) \<Rightarrow> (Inl e, s1)
      | (Inr (Inl secret), s1) \<Rightarrow> (Inr secret, s1)
      | (Inr (Inr l), s1) \<Rightarrow>
          (case readSecret d (login_ID l) (login_Store l) of
             None \<Rightarrow> (Inl SecretUnreadable, s1)
           | Some secret \<Rightarrow> (Inr secret, Secret_remember ident secret s1)))"

section \<open>Saving a login\<close>

text \<open>
  What the machine lets a save do: make the home directory, take the lock of the index (the result of
  \<open>lockIndex\<close>, in Pool_Lock), keep the secret in the keychain, write its file, delete an older
  keychain copy, write the index.
\<close>

record machine =
  home_made :: bool
  index_lock :: lock_result
  use_keychain :: bool
  secret_written :: bool
  keychain_deleted :: bool
  index_written :: bool

definition is_item :: "bytes \<Rightarrow> item \<Rightarrow> bool" where
  "is_item ident it \<longleftrightarrow> (case it of Listed i _ _ _ \<Rightarrow> i = ident | Foreign _ \<Rightarrow> False)"

fun item_store :: "item \<Rightarrow> bytes" where
  "item_store (Listed _ _ store _) = store"
| "item_store (Foreign _) = []"

fun item_added :: "item \<Rightarrow> bytes" where
  "item_added (Listed _ _ _ added) = added"
| "item_added (Foreign _) = []"

text \<open>The item a save replaces: the last one with the id.\<close>

definition previous_item :: "bytes \<Rightarrow> disk \<Rightarrow> item option" where
  "previous_item ident d = find (is_item ident) (rev (dsk_items d))"

definition write_secret :: "machine \<Rightarrow> bytes \<Rightarrow> bytes \<Rightarrow> item option \<Rightarrow> disk \<Rightarrow> (bytes \<times> disk) option" where
  "write_secret mach ident secret previous d =
     (if use_keychain mach
      then Some (''keychain'', d\<lparr>dsk_keychain := (dsk_keychain d)(ident \<mapsto> secret), dsk_files := (dsk_files d)(ident := None)\<rparr>)
      else if \<not> secret_written mach then None
      else
        let d1 = d\<lparr>dsk_files := (dsk_files d)(ident \<mapsto> secret)\<rparr> in
        Some (''file'',
          if previous \<noteq> None \<and> item_store (the previous) = ''keychain'' \<and> keychain_deleted mach
          then d1\<lparr>dsk_keychain := (dsk_keychain d1)(ident := None)\<rparr> else d1))"

definition lock_error :: "lock_result \<Rightarrow> pool_error option" where
  "lock_error r =
     (case r of
        Acquired \<Rightarrow> None
      | IndexLocked \<Rightarrow> Some IndexIsLocked
      | WriteFailed \<Rightarrow> Some IndexLockFailed
      | OpenFailed \<Rightarrow> Some IndexLockFailed)"

text \<open>\<open>d\<close> is the disk once the lock is taken; nothing is read before, and a save that fails earlier leaves it.\<close>

definition saveIf ::
    "machine \<Rightarrow> bytes \<Rightarrow> bytes \<Rightarrow> bytes \<Rightarrow> bytes \<Rightarrow> (bytes \<Rightarrow> bool) option \<Rightarrow> disk \<Rightarrow> Store \<Rightarrow> pool_error option \<times> disk \<times> Store" where
  "saveIf mach now ident kind secret keep d s =
     (let previous = previous_item ident d;
          kept = filter (\<lambda>it. \<not> is_item ident it) (dsk_items d);
          refused = (case keep of
            None \<Rightarrow> None
          | Some ok \<Rightarrow>
              (case previous of
                 None \<Rightarrow> Some LoginRemoved
               | Some it \<Rightarrow>
                   (case readSecret d ident (item_store it) of
                      None \<Rightarrow> Some LoginChanged
                    | Some current \<Rightarrow> if ok current then None else Some LoginChanged)))
      in if \<not> home_made mach then (Some HomeNotMade, d, s)
      else case lock_error (index_lock mach) of Some e \<Rightarrow> (Some e, d, s) | None \<Rightarrow>
      case refused of
        Some e \<Rightarrow> (Some e, d, s)
      | None \<Rightarrow>
          (case write_secret mach ident secret previous d of
             None \<Rightarrow> (Some SecretWriteFailed, d, s)
           | Some (store, d1) \<Rightarrow>
               let added = (case previous of Some it \<Rightarrow> if item_added it \<noteq> [] then item_added it else now | None \<Rightarrow> now) in
               if \<not> index_written mach then (Some IndexWriteFailed, d1, s)
               else (None, d1\<lparr>dsk_items := kept @ [Listed ident kind store added]\<rparr>, s\<lparr>st_stamp := []\<rparr>)))"

definition Save :: "machine \<Rightarrow> bytes \<Rightarrow> bytes \<Rightarrow> bytes \<Rightarrow> bytes \<Rightarrow> disk \<Rightarrow> Store \<Rightarrow> pool_error option \<times> disk \<times> Store" where
  "Save mach now ident kind secret d s = saveIf mach now ident kind secret None d s"

section \<open>The token of a ChatGPT login\<close>

record chatgptToken =
  tok_AccessToken :: bytes
  tok_RefreshToken :: bytes
  tok_ExpiresAt :: int
  tok_EarliestRefreshAt :: int
  tok_ClientID :: bytes
  tok_Issuer :: bytes
  tok_NeedsLogin :: bool

definition chatgptRefreshAhead :: int where
  "chatgptRefreshAhead = 5 * 60"

text \<open>
  The access token, whether a refresh is started, and the state. \<open>read_token\<close> is \<open>json.Unmarshal\<close> into the
  token record.
\<close>

definition oauthAccess ::
    "(bytes \<Rightarrow> chatgptToken option) \<Rightarrow> int \<Rightarrow> bytes \<Rightarrow> bytes \<Rightarrow> Store \<Rightarrow> (pool_error + bytes) \<times> bool \<times> Store" where
  "oauthAccess read_token now ident raw s =
     (case read_token raw of
        None \<Rightarrow> (Inl UnreadableLogin, False, s)
      | Some token \<Rightarrow>
          if ident \<noteq> ''chatgpt'' \<or> tok_AccessToken token = [] then (Inl UnreadableLogin, False, s)
          else if tok_NeedsLogin token then (Inl NeedsSignIn, False, s)
          else
            let refresh = (tok_ExpiresAt token - now \<le> chatgptRefreshAhead \<and> tok_RefreshToken token \<noteq> []
                  \<and> tok_EarliestRefreshAt token \<le> now);
                starts = (refresh \<and> ident \<notin> st_refreshing s);
                s1 = (if refresh then s\<lparr>st_refreshing := insert ident (st_refreshing s)\<rparr> else s)
            in (if tok_ExpiresAt token \<le> now then Inl LoginExpired else Inr (tok_AccessToken token), starts, s1))"

text \<open>What a refresh saves over: only the record it started from.\<close>

definition refresh_keep :: "(bytes \<Rightarrow> chatgptToken option) \<Rightarrow> bytes \<Rightarrow> bytes \<Rightarrow> bool" where
  "refresh_keep read_token started current \<longleftrightarrow>
     (case read_token current of None \<Rightarrow> False | Some stored \<Rightarrow> tok_RefreshToken stored = started)"

text \<open>
  The end of \<open>refreshChatGPT\<close>: the record to store is written if the one it started from is still
  there. A refresh token can be used once, so a save that met the lock is tried once more after a second;
  \<open>meanwhile\<close> is what others do to the disk and the store in that second, \<open>second\<close> what the machine
  lets the second save do. The code drops the error, the result here is the last one.
\<close>

definition refresh_save ::
    "machine \<Rightarrow> machine \<Rightarrow> (bytes \<Rightarrow> chatgptToken option) \<Rightarrow> bytes \<Rightarrow> bytes \<Rightarrow> (disk \<times> Store \<Rightarrow> disk \<times> Store) \<Rightarrow>
     bytes \<Rightarrow> bytes \<Rightarrow> disk \<Rightarrow> Store \<Rightarrow> pool_error option \<times> disk \<times> Store" where
  "refresh_save first second read_token now later meanwhile started raw d s =
     (let keep = Some (refresh_keep read_token started);
          r = saveIf first now ''chatgpt'' ''oauth'' raw keep d s;
          (e, d2, s2) =
            (if fst r = Some IndexIsLocked then
               (case meanwhile (snd r) of (d1, s1) \<Rightarrow> saveIf second later ''chatgpt'' ''oauth'' raw keep d1 s1)
             else r)
      in (e, d2, s2\<lparr>st_refreshing := st_refreshing s2 - {''chatgpt''}\<rparr>))"

section \<open>The pool\<close>

record Entry =
  entry_ID :: bytes
  entry_Model :: bytes
  entry_Host :: bytes
  entry_wire :: bytes
  entry_wireID :: bytes

definition isGrammar :: "bytes \<Rightarrow> bool" where
  "isGrammar g \<longleftrightarrow> g = ''messages'' \<or> g = ''chat'' \<or> g = ''responses''"

definition Supported :: "bytes \<Rightarrow> bytes \<Rightarrow> bool" where
  "Supported source target \<longleftrightarrow> isGrammar source \<and> isGrammar target"

definition wirePreference :: "bytes \<Rightarrow> bytes list" where
  "wirePreference g =
     (if g = ''messages'' then [''messages'', ''chat'', ''responses'']
      else if g = ''responses'' then [''responses'', ''messages'', ''chat'']
      else if g = ''chat'' then [''chat'', ''messages'', ''responses'']
      else [])"

definition pickWire :: "Provider \<Rightarrow> Model \<Rightarrow> bytes \<Rightarrow> bytes option" where
  "pickWire p m grammar =
     find (\<lambda>w. map_of (prov_Wires p) w \<noteq> None \<and> (model_Wire m = [] \<or> model_Wire m = w) \<and> Supported grammar w)
       (wirePreference grammar)"

text \<open>The entries of one host; a full pool ends the whole walk.\<close>

definition entry_of :: "Provider \<Rightarrow> Model \<Rightarrow> bytes \<Rightarrow> Entry" where
  "entry_of p m wire =
     \<lparr>entry_ID = prov_ID p @ ''/'' @ model_Model m, entry_Model = model_Model m, entry_Host = prov_ID p,
      entry_wire = wire, entry_wireID = (if model_ID m = [] then model_Model m else model_ID m)\<rparr>"

fun host_entries ::
    "(bytes \<Rightarrow> bytes \<Rightarrow> bool) \<Rightarrow> bytes \<Rightarrow> nat \<Rightarrow> Provider \<Rightarrow> Model list \<Rightarrow> Entry list \<Rightarrow> bool \<times> Entry list" where
  "host_entries skip grammar most p [] out = (False, out)"
| "host_entries skip grammar most p (m # ms) out =
     (if length out \<ge> most then (True, out)
      else if skip (prov_ID p) (model_Model m) then host_entries skip grammar most p ms out
      else case pickWire p m grammar of
        None \<Rightarrow> host_entries skip grammar most p ms out
      | Some wire \<Rightarrow> host_entries skip grammar most p ms (out @ [entry_of p m wire]))"

fun login_entries ::
    "Provider list \<Rightarrow> (bytes \<Rightarrow> bytes \<Rightarrow> bool) \<Rightarrow> bytes \<Rightarrow> bytes \<Rightarrow> nat \<Rightarrow> Login list \<Rightarrow> Entry list \<Rightarrow> Entry list" where
  "login_entries registry skip grammar agent most [] out = out"
| "login_entries registry skip grammar agent most (l # ls) out =
     (case Find registry (login_ID l) of
        None \<Rightarrow> login_entries registry skip grammar agent most ls out
      | Some p \<Rightarrow>
          if prov_Agents p \<noteq> [] \<and> agent \<notin> set (prov_Agents p)
          then login_entries registry skip grammar agent most ls out
          else (case host_entries skip grammar most p (prov_Models p) out of
             (True, out1) \<Rightarrow> out1
           | (False, out1) \<Rightarrow> login_entries registry skip grammar agent most ls out1))"

definition Entries ::
    "Provider list \<Rightarrow> view \<Rightarrow> bytes \<Rightarrow> bytes \<Rightarrow> nat \<Rightarrow> (bytes \<Rightarrow> bytes \<Rightarrow> bool) \<Rightarrow> Store \<Rightarrow> Entry list \<times> Store" where
  "Entries registry v grammar agent most skip s =
     (case Logins registry v s of
        (logins, s1) \<Rightarrow> (login_entries registry skip grammar agent (min most maxPool) logins [], s1))"

section \<open>Where an entry's requests go\<close>

record RouteTarget =
  target_PoolID :: bytes
  target_Host :: bytes
  target_Model :: bytes
  target_Wire :: bytes
  target_URL :: bytes
  target_Header :: "(bytes \<times> bytes) list"
  target_Forward :: "bytes list"
  target_Affinity :: bytes
  opt_Model :: bytes
  opt_Dialect :: bytes
  opt_Route :: bytes
  opt_Replay :: bool
  opt_MaxTokensField :: bytes
  opt_DropParams :: "bytes list"
  opt_ChatGPTLogin :: bool

text \<open>\<open>http.Header.Set\<close> under the canonical form of the name (the parameter \<open>canon\<close>).\<close>

definition header_set :: "(bytes \<Rightarrow> bytes) \<Rightarrow> bytes \<Rightarrow> bytes \<Rightarrow> (bytes \<times> bytes) list \<Rightarrow> (bytes \<times> bytes) list" where
  "header_set canon name v h = filter (\<lambda>p. fst p \<noteq> canon name) h @ [(canon name, v)]"

definition target_of :: "(bytes \<Rightarrow> bytes) \<Rightarrow> Provider \<Rightarrow> Wire \<Rightarrow> Entry \<Rightarrow> bytes \<Rightarrow> RouteTarget" where
  "target_of canon p w e secret =
     (let h0 = (if wire_Auth w = ''x-api-key'' then header_set canon ''x-api-key'' secret []
                else header_set canon ''authorization'' (''Bearer '' @ secret) []);
          base = prov_BaseURL p
      in \<lparr>target_PoolID = entry_ID e, target_Host = prov_ID p, target_Model = entry_Model e, target_Wire = entry_wire e,
          target_URL = (if base \<noteq> [] \<and> last base = CHR ''/'' then butlast base else base) @ wire_Path w,
          target_Header = foldl (\<lambda>h (name, v). header_set canon name v h) h0 (prov_Headers p),
          target_Forward = prov_ForwardHeaders p, target_Affinity = prov_Affinity p,
          opt_Model = entry_wireID e,
          opt_Dialect = (if entry_wire e = ''chat'' \<and> wire_Effort w = [] then ''openai_chat'' else wire_Effort w),
          opt_Route = (if prov_Aggregator p then prov_ID p @ ''/'' @ entry_Model e else prov_ID p),
          opt_Replay = prov_Replay p, opt_MaxTokensField = prov_MaxTokensField p, opt_DropParams = prov_DropParams p,
          opt_ChatGPTLogin = prov_ChatGPTLogin p\<rparr>)"

definition Target ::
    "(bytes \<Rightarrow> bytes) \<Rightarrow> (bytes \<Rightarrow> chatgptToken option) \<Rightarrow> Provider list \<Rightarrow> view \<Rightarrow> disk \<Rightarrow> int \<Rightarrow> Entry \<Rightarrow> Store \<Rightarrow>
       (pool_error + RouteTarget) \<times> Store" where
  "Target canon read_token registry v d now e s =
     (case Find registry (entry_Host e) of
        None \<Rightarrow> (Inl UnknownEntry, s)
      | Some p \<Rightarrow>
          (case map_of (prov_Wires p) (entry_wire e) of
             None \<Rightarrow> (Inl UnknownEntry, s)
           | Some w \<Rightarrow>
               (case Secret registry v d (prov_ID p) s of
                  (Inl err, s1) \<Rightarrow> (Inl err, s1)
                | (Inr secret, s1) \<Rightarrow>
                    if prov_Kind p = ''oauth''
                    then (case oauthAccess read_token now (prov_ID p) secret s1 of
                       (Inl err, _, s2) \<Rightarrow> (Inl err, s2)
                     | (Inr access, _, s2) \<Rightarrow> (Inr (target_of canon p w e access), s2))
                    else (Inr (target_of canon p w e secret), s1))))"

end
