(* ===== verification/Pool_Properties.thy ===== *)
theory Pool_Properties
  imports Pool_Lock Provider_Pool_Facts
begin

text \<open>
  The properties of the provider pool: the lock of the login index, the entries the logins reach and
  the refresh of a token, each with its example.
\<close>

section \<open>The lock\<close>

text \<open>
  C37. As long as no lock file grows older than ten seconds, at most one writer at a time holds the
  lock of the login index, in every interleaving of the writers' system calls and with writers
  crashing anywhere; and while one holds it the lock file exists.
\<close>

theorem lock_excludes:
  assumes "lock_reach in_time s" and "critical (place_of s w)"
  shows "(\<forall>v. critical (place_of s v) \<longrightarrow> v = w) \<and> lock_name s \<noteq> None"
  using lock_excludes_others [OF assms(1) _ assms(2)] lock_inv_reach [OF assms(1)] critical_inode [OF assms(2)]
  unfolding lock_inv_def by blast

definition one_holder :: lock_state where
  "one_holder = \<lparr>clock = 0, lock_name = Some 0, aside_name = Map.empty, token_of = [0 \<mapsto> 7], written_at = (\<lambda>_. 0),
     next_inode = 1, place_of = (\<lambda>_. Outside)(7 := Holding 0)\<rparr>"

lemma one_holder_reached: "lock_reach in_time one_holder"
proof -
  define a b c where abc: "a = move 7 (Opening lock_patience) lock_start"
    "b = move 7 (Writing 0) (a\<lparr>lock_name := Some 0, next_inode := 1, token_of := Map.empty, written_at := \<lambda>_. 0\<rparr>)"
    "c = move 7 (Holding 0) (b\<lparr>token_of := [0 \<mapsto> 7], written_at := \<lambda>_. 0\<rparr>)"
  have z: "(\<lambda>_::nat. 0::int)(0 := 0) = (\<lambda>_. 0)" by auto
  have t: "in_time lock_start" "in_time a" "in_time b"
    by (simp_all add: in_time_def abc lock_start_def move_def is_stale_def lockStale_def)
  have ab: "lock_step lock_start a" using begins [of lock_start 7] by (simp add: abc lock_start_def)
  have bc: "lock_step a b" using creates [of a 7 lock_patience] by (simp add: abc lock_start_def move_def z)
  have cd: "lock_step b c" using writes [of b 7 0] by (simp add: abc lock_start_def move_def z)
  have "lock_reach in_time c"
    by (rule lock_next [of in_time, OF lock_next [of in_time, OF lock_next [of in_time, OF lock_init t(1) ab] t(2) bc] t(3) cd])
  moreover have "c = one_holder" by (simp add: abc one_holder_def lock_start_def move_def)
  ultimately show ?thesis by simp
qed

theorem lock_excludes_witness:
  "critical (place_of one_holder 7) \<and> \<not> critical (place_of one_holder 8) \<and> lock_name one_holder \<noteq> None"
proof -
  have c: "critical (place_of one_holder 7)" by (simp add: one_holder_def critical_def)
  note l = lock_excludes [OF one_holder_reached c]
  have "\<not> critical (place_of one_holder 8)" using l [THEN conjunct1, THEN spec, of 8] by linarith
  then show ?thesis using c l [THEN conjunct2] by (intro conjI)
qed

text \<open>
  Breaking a lock that did grow old can end with two holders: a breaker that is slow to move the lock
  aside moves the fresh lock of another breaker, and a third writer takes the name meanwhile.
\<close>

lemma stale_break_lets_two_in:
  "lock_reach (\<lambda>_. True) two_holders \<and> critical (place_of two_holders 1) \<and> critical (place_of two_holders 3)"
  using two_holders_reached by (simp add: two_holders_def critical_def)

text \<open>
  C38. A writer gives up: if it sleeps twenty milliseconds between two looks at a fresh lock, and a stale
  lock it found is gone at its next attempt, it leaves the loop within 304 attempts.
\<close>

theorem lock_gives_up:
  assumes "sleeps_between start attempts" and "stale_goes attempts" and "304 \<le> length attempts"
  shows "lockIndex (start + lock_patience) attempts \<noteq> None"
  using lock_loop_ends [OF assms(1,2)] assms(3) by simp

theorem lock_gives_up_witness:
  "lockIndex (0 + lock_patience) (map (\<lambda>k. FreshLock (20 * int k)) [0..<304]) \<noteq> None"
proof (rule lock_gives_up)
  have "sleeps_between (20 * int m) (map (\<lambda>k. FreshLock (20 * int k)) [m..<m + n])" for m n
  proof (induction n arbitrary: m)
    case (Suc n)
    have "[m..<m + Suc n] = m # [Suc m..<Suc m + n]" by (simp add: upt_conv_Cons del: upt_Suc)
    with Suc [of "Suc m"] show ?case by (simp add: algebra_simps del: upt_Suc)
  qed simp
  from this [of 0 304] show "sleeps_between 0 (map (\<lambda>k. FreshLock (20 * int k)) [0..<304])" by simp
  have "stale_goes (map (\<lambda>k. FreshLock (20 * int k)) ks)" for ks :: "nat list" by (induction ks) simp_all
  then show "stale_goes (map (\<lambda>k. FreshLock (20 * int k)) [0..<304])" .
qed simp

section \<open>The pool\<close>

text \<open>
  C39. Every entry of the pool can be used: its host is one of the logins, may serve the calling agent,
  was not skipped, speaks a wire the caller's grammar translates to, and asking for its target never
  fails for want of the host or the wire. The pool has at most the entries asked for, and at most 64.
\<close>

theorem entries_are_usable:
  assumes "e \<in> set (fst (Entries registry v grammar agent most skip s))"
  shows "(\<exists>l \<in> set (fst (Logins registry v s)). login_ID l = entry_Host e)
    \<and> (\<exists>p. Find registry (entry_Host e) = Some p \<and> (prov_Agents p = [] \<or> agent \<in> set (prov_Agents p)))
    \<and> \<not> skip (entry_Host e) (entry_Model e) \<and> Supported grammar (entry_wire e)
    \<and> fst (Target canon read_token registry v' d now e s') \<noteq> Inl UnknownEntry
    \<and> length (fst (Entries registry v grammar agent most skip s)) \<le> min most 64"
proof -
  define logins where "logins = fst (Logins registry v s)"
  have es: "fst (Entries registry v grammar agent most skip s) = login_entries registry skip grammar agent (min most maxPool) logins []"
    by (simp add: Entries_def logins_def split: prod.split)
  note spec = login_entries_spec [of "[]" registry skip grammar agent logins "min most maxPool" logins, folded es]
  have o: "offered registry skip grammar agent logins e" using spec assms by simp
  then obtain l :: Login and p :: Provider where l: "l \<in> set logins" "Find registry (login_ID l) = Some p"
      "prov_Agents p = [] \<or> agent \<in> set (prov_Agents p)" and sv: "serves skip grammar p (prov_Models p) e"
    unfolding offered_def by blast
  from sv obtain m :: Model and w where m: "\<not> skip (prov_ID p) (model_Model m)" "pickWire p m grammar = Some w" "e = entry_of p m w"
    unfolding serves_def by blast
  have h: "entry_Host e = login_ID l" "entry_Host e = prov_ID p" using Find_ID [OF l(2)] m(3) by (simp_all add: entry_of_def)
  show ?thesis
    using l h m pickWire_facts(2) [OF m(2)] offered_target [OF o] spec
    unfolding logins_def [symmetric] by (auto simp: entry_of_def maxPool_def)
qed

definition example_host :: Provider where
  "example_host = \<lparr>prov_ID = ''hub'', prov_Name = ''Hub'', prov_Kind = ''api_key'', prov_Env = [], prov_BaseURL = ''https://hub'', prov_Wires =
     [(''chat'', \<lparr>wire_Path = ''/v1/chat'', wire_Auth = ''bearer'', wire_Effort = []\<rparr>)],
     prov_Models = [\<lparr>model_Model = ''m1'', model_ID = [], model_Wire = []\<rparr>], prov_Aggregator = False,
     prov_MaxTokensField = [], prov_DropParams = [], prov_Replay = False, prov_Headers = [], prov_ForwardHeaders = [],
     prov_Affinity = [], prov_Agents = [''claude''], prov_ChatGPTLogin = False,
     prov_Billing = [], prov_Terms = []\<rparr>"

definition example_login :: Login where
  "example_login = \<lparr>login_ID = ''hub'', login_Kind = ''api_key'', login_Store = ''file'', login_AddedAt = ''t0''\<rparr>"

definition example_view :: "bytes \<Rightarrow> view" where
  "example_view stamp = \<lparr>view_stamp = stamp, view_doc = Some ([example_login], None)\<rparr>"

lemma example_logins:
  "st_secrets s = None \<or> st_stamp s \<noteq> stamp \<Longrightarrow> Logins [example_host] (example_view stamp) s
     = ([example_login], s\<lparr>st_stamp := stamp, st_logins := [example_login], st_secrets := Some Map.empty, st_cloudOff := False\<rparr>)"
  by (auto simp: Logins_def example_view_def add_login_def Find_def example_host_def example_login_def Let_def)

lemma example_entries:
  "fst (Entries [example_host] (example_view ''1'') ''messages'' ''claude'' 8 (\<lambda>_ _. False) NewStore)
     = [entry_of example_host \<lparr>model_Model = ''m1'', model_ID = [], model_Wire = []\<rparr> ''chat'']"
  by (simp add: Entries_def example_logins NewStore_def maxPool_def)
    (simp add: Find_def example_login_def example_host_def pickWire_def wirePreference_def Supported_def isGrammar_def)

theorem entries_are_usable_witness:
  "(\<exists>l \<in> set (fst (Logins [example_host] (example_view ''1'') NewStore)). login_ID l = ''hub'')
    \<and> (\<exists>p. Find [example_host] ''hub'' = Some p \<and> (prov_Agents p = [] \<or> ''claude'' \<in> set (prov_Agents p)))"
  using entries_are_usable [where e = "entry_of example_host \<lparr>model_Model = ''m1'', model_ID = [], model_Wire = []\<rparr> ''chat''",
      of "[example_host]" "example_view ''1''" "''messages''" "''claude''" 8 "\<lambda>_ _. False" NewStore]
  unfolding example_entries by (simp add: entry_of_def example_host_def)

text \<open>
  C40. A token refresh saves over the record it started from and over nothing else. The disk that counts
  is the one its last save finds: when the first save met the lock of the index, that is the disk after
  the second of waiting, whatever others did to it meanwhile. If the login was removed there or its
  record has another refresh token, the refresh changes nothing; if it is still the record the refresh
  started from and nothing stops the save, the new record is stored.
\<close>

theorem refresh_keeps_newer:
  assumes "(d', s') = (if meets_lock first then meanwhile (d, s) else (d, s))"
    and "r = refresh_save first second read_token now later meanwhile started raw d s"
  shows "(\<not> starts_from read_token started d' \<longrightarrow>
      (\<exists>e. r = (Some e, d', s'\<lparr>st_refreshing := st_refreshing s' - {''chatgpt''}\<rparr>)))
    \<and> (starts_from read_token started d' \<longrightarrow> able (if meets_lock first then second else first) \<longrightarrow>
      (\<exists>it. fst r = None \<and> previous_item ''chatgpt'' (fst (snd r)) = Some it
        \<and> readSecret (fst (snd r)) ''chatgpt'' (item_store it) = (if trim_space raw = [] then None else Some (trim_space raw))))"
proof -
  let ?mach = "if meets_lock first then second else first" and ?now = "if meets_lock first then later else now"
  obtain e d2 s2 where sv: "saveIf ?mach ?now ''chatgpt'' ''oauth'' raw (Some (refresh_keep read_token started)) d' s' = (e, d2, s2)"
    by (metis prod_cases3)
  then have r: "r = (e, d2, s2\<lparr>st_refreshing := st_refreshing s2 - {''chatgpt''}\<rparr>)"
    unfolding assms(2) refresh_save_eq assms(1) [symmetric] by simp
  have "\<exists>e. r = (Some e, d', s'\<lparr>st_refreshing := st_refreshing s' - {''chatgpt''}\<rparr>)" if "\<not> starts_from read_token started d'"
  proof -
    have "case previous_item ''chatgpt'' d' of None \<Rightarrow> True
      | Some it \<Rightarrow> (case readSecret d' ''chatgpt'' (item_store it) of None \<Rightarrow> True | Some current \<Rightarrow> \<not> refresh_keep read_token started current)"
      using that by (auto simp: starts_from_keep split: option.split)
    from saveIf_refused [OF refl this, of ?mach ?now "''oauth''" raw s'] show ?thesis using sv r by auto
  qed
  moreover have "\<exists>it. fst r = None \<and> previous_item ''chatgpt'' (fst (snd r)) = Some it
      \<and> readSecret (fst (snd r)) ''chatgpt'' (item_store it) = (if trim_space raw = [] then None else Some (trim_space raw))"
    if "starts_from read_token started d'" "able ?mach"
  proof -
    have "e = None" using saveIf_able [OF that(2,1)] sv by (metis fst_conv)
    then have saved: "saveIf ?mach ?now ''chatgpt'' ''oauth'' raw (Some (refresh_keep read_token started)) d' s' = (None, d2, s2)"
      using sv by simp
    obtain store added where d2: "dsk_items d2 = filter (\<lambda>it. \<not> is_item ''chatgpt'' it) (dsk_items d') @ [Listed ''chatgpt'' ''oauth'' store added]"
      "readSecret d2 ''chatgpt'' store = (if trim_space raw = [] then None else Some (trim_space raw))"
      by (rule saveIf_saves [OF saved])
    show ?thesis using previous_item_saved [OF d2(1)] d2(2) r \<open>e = None\<close> by simp
  qed
  ultimately show ?thesis by blast
qed

definition example_token :: chatgptToken where
  "example_token = \<lparr>tok_AccessToken = ''a2'', tok_RefreshToken = ''r2'', tok_ExpiresAt = 100, tok_EarliestRefreshAt = 0,
     tok_ClientID = ''c'', tok_Issuer = ''i'', tok_NeedsLogin = False\<rparr>"

definition example_disk :: disk where
  "example_disk = \<lparr>dsk_items = [Listed ''chatgpt'' ''oauth'' ''file'' ''t0''], dsk_keychain = Map.empty, dsk_files = [''chatgpt'' \<mapsto> ''R2'']\<rparr>"

definition example_machine :: machine where
  "example_machine = \<lparr>home_made = True, index_lock = Acquired, use_keychain = False, secret_written = True, keychain_deleted = True,
     index_written = True\<rparr>"

definition locked_machine :: machine where
  "locked_machine = example_machine\<lparr>index_lock := IndexLocked\<rparr>"

lemma locked_machine_meets: "meets_lock locked_machine" "\<not> meets_lock example_machine" "able example_machine"
  by (simp_all add: meets_lock_def able_def locked_machine_def example_machine_def)

text \<open>
  The first save meets the lock. While the refresh sleeps the login is removed, and stays removed; or
  nothing happens, and the second save stores the new record.
\<close>

abbreviation removed :: "disk \<times> Store" where
  "removed \<equiv> (example_disk\<lparr>dsk_items := []\<rparr>, NewStore)"

theorem refresh_keeps_newer_witness:
  "(\<exists>e. refresh_save locked_machine example_machine (\<lambda>_. Some example_token) ''t1'' ''t2'' (\<lambda>_. removed) ''r2'' ''R3'' example_disk NewStore
      = (Some e, fst removed, NewStore\<lparr>st_refreshing := st_refreshing NewStore - {''chatgpt''}\<rparr>))
    \<and> fst (refresh_save locked_machine example_machine (\<lambda>_. Some example_token) ''t1'' ''t2'' id ''r2'' ''R3'' example_disk NewStore) = None"
proof
  have "\<not> starts_from (\<lambda>_. Some example_token) ''r2'' (fst removed)" by (simp add: starts_from_def previous_item_def)
  then show "\<exists>e. refresh_save locked_machine example_machine (\<lambda>_. Some example_token) ''t1'' ''t2'' (\<lambda>_. removed) ''r2'' ''R3''
      example_disk NewStore = (Some e, fst removed, NewStore\<lparr>st_refreshing := st_refreshing NewStore - {''chatgpt''}\<rparr>)"
    using refresh_keeps_newer [OF _ refl, of "fst removed" NewStore locked_machine "\<lambda>_. removed" example_disk NewStore]
    by (auto simp: locked_machine_meets)
  have "trim_space ''R2'' = ''R2''"
    by (simp add: trim_space_def trim_left_space.simps trim_right_space.simps decode_rune_ascii decode_last_rune_def
        is_space_rune_def bval_def)
  then have "starts_from (\<lambda>_. Some example_token) ''r2'' example_disk"
    by (simp add: starts_from_def example_disk_def example_token_def previous_item_def is_item_def readSecret_def)
  then show "fst (refresh_save locked_machine example_machine (\<lambda>_. Some example_token) ''t1'' ''t2'' id ''r2'' ''R3'' example_disk NewStore) = None"
    using refresh_keeps_newer [OF _ refl, of example_disk NewStore locked_machine id example_disk NewStore]
    by (auto simp: locked_machine_meets)
qed

text \<open>
  A secret read just before a save can outlive it: the reader puts what it read into the cache
  that was made new after the save, and later reads of the secret find it there.
\<close>

lemma old_secret_stays:
  fixes d d' :: disk and old new :: bytes
  defines "s1 \<equiv> snd (Secret_lookup [example_host] (example_view ''1'') ''hub'' NewStore)"
    and "d \<equiv> \<lparr>dsk_items = [Listed ''hub'' ''api_key'' ''file'' ''t0''], dsk_keychain = Map.empty, dsk_files = [''hub'' \<mapsto> ''old'']\<rparr>"
  defines "d' \<equiv> fst (snd (Save example_machine ''t1'' ''hub'' ''api_key'' ''new'' d s1))"
    and "s2 \<equiv> snd (snd (Save example_machine ''t1'' ''hub'' ''api_key'' ''new'' d s1))"
  defines "s3 \<equiv> snd (Logins [example_host] (example_view ''2'') s2)"
  defines "s4 \<equiv> Secret_remember ''hub'' (the (readSecret d ''hub'' ''file'')) s3"
  shows "fst (Secret [example_host] (example_view ''2'') d' ''hub'' s4) = Inr ''old''"
    and "readSecret d' ''hub'' ''file'' = Some ''new''"
proof -
  have t: "trim_space ''old'' = ''old''" "trim_space ''new'' = ''new''"
    by (simp_all add: trim_space_def trim_left_space.simps trim_right_space.simps decode_rune_ascii decode_last_rune_def
        is_space_rune_def bval_def)
  have s1: "s1 = \<lparr>st_stamp = ''1'', st_logins = [example_login], st_secrets = Some Map.empty, st_refreshing = {}, st_cloudOff = False\<rparr>"
    by (simp add: s1_def Secret_lookup_def example_logins NewStore_def example_login_def)
  have sv: "Save example_machine ''t1'' ''hub'' ''api_key'' ''new'' d s1
      = (None, d\<lparr>dsk_files := (dsk_files d)(''hub'' \<mapsto> ''new'')\<rparr>, s1\<lparr>st_stamp := []\<rparr>)"
    by (simp add: Save_def saveIf_def previous_item_def is_item_def d_def write_secret_def example_machine_def lock_error_def Let_def)
  have s2: "s2 = s1\<lparr>st_stamp := []\<rparr>" by (simp add: s2_def sv)
  have s3: "s3 = \<lparr>st_stamp = ''2'', st_logins = [example_login], st_secrets = Some Map.empty, st_refreshing = {}, st_cloudOff = False\<rparr>"
    by (simp add: s3_def s2 s1 example_logins)
  have s4: "s4 = \<lparr>st_stamp = ''2'', st_logins = [example_login], st_secrets = Some [''hub'' \<mapsto> ''old''], st_refreshing = {}, st_cloudOff = False\<rparr>"
    by (simp add: s4_def s3 Secret_remember_def d_def readSecret_def t)
  show "readSecret d' ''hub'' ''file'' = Some ''new''" by (simp add: d'_def sv readSecret_def t)
  show "fst (Secret [example_host] (example_view ''2'') d' ''hub'' s4) = Inr ''old''"
    by (simp add: s4 Secret_def Secret_lookup_def Logins_def example_view_def example_login_def)
qed

end
