(* ===== verification/Spec2Isabelle.thy ===== *)
theory Spec2Isabelle
  imports Json_Properties Cache_Properties Anthropic_Properties Network_Properties Pool_Properties
begin

text \<open>
  A verification library for caveman, the engine that shortens what a coding agent sends to a model
  and the proxy that sits between the agent and the provider.

  \<^bold>\<open>The program.\<close> The proxy (proxy/internal/gateway) takes a provider request, asks the adapter of the
  provider (proxy/providers) which parts may be changed, sends those to the engine (engine/...) and
  splices the shorter text back into the body. The body stays text the whole way: it is
  never decoded and re-encoded, so what is not rewritten keeps its bytes. Providers cache request
  prefixes and bill a changed prefix in full; so around the rewriting stands what protects the cache:
  markers (\<open>cache_control\<close>) placed by the adapter, a count of the messages that are frozen, raw pins
  and lineages that make a conversation go out the way it was cached, a store for past replacements,
  a guard and a tripwire that notice a prefix that drifted, and a warmer that keeps a cached prefix alive.
  Which host a request may go to is the provider pool's choice among the logins a person added, and every
  connection passes the outbound guard.

  \<^bold>\<open>Ground.\<close>
  \<^item> \<open>Prelude\<close>: byte strings, slices and the lemma collections; \<open>Utf8\<close>: Go's \<open>unicode/utf8\<close>;
    \<open>Big_Endian\<close>: \<open>binary.BigEndian\<close>; \<open>Go_Map\<close>: maps with ordered keys (locale \<open>go_map\<close>) and decimal
    numbers; \<open>Fifo_Map\<close>: maps with oldest-first eviction (locale \<open>fifo_store\<close>); \<open>Regexp\<close>: the part of
    \<open>regexp\<close> the sources use.
  \<^item> \<open>Json_Std\<close>: \<open>encoding/json\<close> as the sources use it (the scanner behind \<open>json.Valid\<close>, string
    decoding and encoding); \<open>Json_Decode\<close>: \<open>json.Unmarshal\<close> into a \<open>map[string]any\<close>.

  \<^bold>\<open>JSON and TOON.\<close>
  \<^item> \<open>Json_Fast\<close> (proxy/internal/translate/jsonfast.go): the translator's reader and writer, one
    definition per function, indices and failures as in the code. \<open>Json_Fast_Facts\<close> turns the
    index-based scanners into scanners of the remaining text, \<open>Json_Scan\<close> relates them to the
    standard scanner, \<open>Json_Rules\<close> and \<open>Json_Text\<close> give the round trips and the text repair.
  \<^item> \<open>Json_Splice\<close> (proxy/providers/jsonsplice/jsonsplice.go): the edits that leave other bytes alone.
  \<^item> \<open>Toon\<close>, \<open>Toon_Facts\<close>, \<open>Toon_Lossless\<close> (engine/compressors/toon*.go): the re-encoder of JSON as
    indented lines; what it emits decodes to its input.

  \<^bold>\<open>Prompt-cache protection.\<close>
  \<^item> \<open>Cache_Guard\<close> (shared/platform/cacheguard/cacheguard.go), \<open>Prefix_Store\<close>
    (proxy/internal/store/prefix_cache.go), \<open>Raw_Pin\<close> (gateway/raw_pin.go), \<open>Prefix_Monitor\<close>
    (gateway/prefix_monitor.go): records of the state and one operation per method; the facts theories
    hold their invariants.
  \<^item> \<open>Cache_Warm\<close> (gateway/cache_warm.go): the warmer as a state, its locked methods and a step
    relation that interleaves requests, timers and completions; \<open>Cache_Warm_Inv\<close> states the invariant,
    \<open>Cache_Warm_Facts\<close> and \<open>Cache_Warm_Reach\<close> prove it of every reachable state.

  \<^bold>\<open>The Anthropic adapter\<close> (proxy/providers/anthropic).
  \<^item> \<open>Anthropic_Splice\<close> (splice.go, frozen.go), \<open>Anthropic_Plan\<close> (breakpoint_plan.go,
    cache_breakpoints.go, automatic_cache.go), \<open>Anthropic_Compress\<close> (content_compress.go).
  \<^item> \<open>Json_Forward\<close>: the state of the scanner after a token; \<open>Json_Walk\<close>: from a value to its fields and
    elements (locale \<open>json_walk\<close>, interpreted on both splicers); \<open>Json_Insert\<close>: edits that leave the
    scanner where it was. On these, \<open>Anthropic_Strip\<close> and \<open>Anthropic_Strip_Facts\<close> (markers taken
    out), \<open>Anthropic_Plan_Facts\<close> and \<open>Anthropic_Transform\<close> (markers put in), and
    \<open>Anthropic_Compress_Facts\<close> (replacements spliced in).

  \<^bold>\<open>The outbound guard\<close> (shared/platform/ssrf/ssrf.go).
  \<^item> \<open>Net_Addr\<close>, \<open>Net_Addr_Facts\<close>: Go's \<open>net/netip\<close> on words of 32 and 128 bits, the text of addresses and
    its reader, \<open>SplitHostPort\<close> and \<open>JoinHostPort\<close>; every address reads back from its text, and a prefix
    contains an interval.
  \<^item> \<open>Ssrf\<close>: the range tables, the allow list, the checks before a request and when dialing, and a client
    with a proxy as a machine of asks and dials in any order. \<open>Ssrf_Facts\<close>: the check decides \<open>permitted\<close>,
    which is stated on address numbers; what a dial tries; suggestions; the machine's invariant.

  \<^bold>\<open>The provider pool\<close> (proxy/internal/pool).
  \<^item> \<open>Pool_Lock\<close> (lockIndex): the lock file as a step relation over system calls of any number of
    writers, with crashes and time, and the loop of one writer over what its attempts meet.
  \<^item> \<open>Provider_Pool\<close>, \<open>Provider_Pool_Facts\<close> (pool.go, the token of chatgpt.go): logins, secrets and their
    cache, saves over the two stores of secrets (what the machine and the lock let a save do is a record
    \<open>machine\<close>), the save of a refreshed token with its second try after a second in which others act on the
    disk, the pool and the targets of its entries.

  The properties are in \<open>Json_Properties\<close>, \<open>Cache_Properties\<close>, \<open>Anthropic_Properties\<close>, \<open>Network_Properties\<close>
  and \<open>Pool_Properties\<close>, each with its example, and beside them the lemmas that show where the code
  does not do what its comments say.

  \<^bold>\<open>Conventions.\<close> A byte string is a list of 8-bit characters. A failed reader is \<open>None\<close>, an error
  value \<open>Inl\<close>. Loops whose index only grows are \<open>function\<close>s with a measure, so they are total; no
  definition runs on fuel, except that \<open>json.Valid\<close> and \<open>json.Unmarshal\<close> keep the nesting limit of
  10000 that Go has. Go's \<open>int\<close> is \<open>int\<close> or \<open>nat\<close> where it indexes a slice in memory and cannot overflow;
  where a width matters it is written out (\<open>length b mod 2 ^ 64\<close> in a frame). Times are nanoseconds as
  \<open>int\<close>, with the saturation of \<open>time.Sub\<close>. SHA-256 is the parameter \<open>sum256\<close>, and theorems that need
  it free of collisions say so. The regular parameters of the guard and the pool (the resolver, the
  dialer, the URL reader, Unicode's case table, the embedded registry, the reader of token records) are
  arguments of the definitions and arbitrary in the theorems. The bound of 304 attempts in the
  lock's loop is twice the 152 looks at a fresh lock that fit into its three seconds of patience; the loop
  is modelled over what its attempts meet, so the sleep between two looks is a hypothesis on their times
  (\<open>sleeps_between\<close>). In \<open>lock_step\<close> a failed write of the token and the removal after it are one step, and
  the reads and removals at the unlock do not fail. The markers a caller placed are counted in the decoded
  body, as the code does; \<open>hidden_markers_exceed_the_budget\<close> shows what a repeated key hides from the count.

  \<^bold>\<open>Not modelled.\<close> The HTTP server and its routing, the SQL engine, files, subprocesses and terminals
  (input and output with little logic of their own); the lossy text compressors, whose output is a
  matter of taste more than of a contract; the image renderer; the OpenAI, Gemini and cloud adapters
  and the translators between message formats, which rest on the same JSON layer; prices and scores in
  floating point. The sign-in flow of the pool, its keychain programs and the
  atomic file write. In the modelled files: the schema tree of jsonfast.go, the HTTP replay of the
  warmer, and \<open>injectBreakpoint\<close> of cache_breakpoints.go, which only tests call.
\<close>

end
